(* ===== verification/Kino_Pin.thy ===== *)
theory Kino_Pin
  imports Kino_Prelude
begin

text \<open>
  The slab of GC roots (\<open>ext/kino/src/pin.rs\<close>): a fixed array of atomic slots, zero meaning
  free, that keeps Ruby strings alive while native code holds their bytes. Two clients root
  strings in slabs: zero-copy response bodies (\<open>pinned_bytes\<close>, here) and the env string
  caches (\<open>Kino_Env_Cache\<close>); both rely on the contract \<open>root_slab\<close>, which the slab's
  operations are shown to satisfy. The concurrent use of the slab is a step relation over
  its compare-and-swap and store actions.
\<close>

section \<open>The slab\<close>

definition ZERO_COPY_MIN :: nat where
  "ZERO_COPY_MIN = 4096"

definition SLAB_CAPACITY :: nat where
  "SLAB_CAPACITY = 4096"

record pin_slab =
  ps_slots :: "u64 list"
  ps_cursor :: usize
  ps_shareable_only :: bool

definition with_capacity :: "nat \<Rightarrow> pin_slab" where
  "with_capacity n = \<lparr>ps_slots = replicate n 0, ps_cursor = 0, ps_shareable_only = False\<rparr>"

text \<open>\<open>per_ractor_gc\<close> is the build-time constant \<open>PER_RACTOR_GC\<close>: which Ruby the crate is built for.\<close>

definition for_responses :: "bool \<Rightarrow> bool \<Rightarrow> pin_slab" where
  "for_responses per_ractor_gc ractor_mode =
     (with_capacity SLAB_CAPACITY)\<lparr>ps_shareable_only := ractor_mode \<and> per_ractor_gc\<rparr>"

definition pin_insert :: "pin_slab \<Rightarrow> u64 \<Rightarrow> pin_slab \<times> nat option" where
  "pin_insert s v =
     (let start = ps_cursor s; n = length (ps_slots s); s' = s\<lparr>ps_cursor := start + 1\<rparr>
      in case List.find (\<lambda>i. ps_slots s ! i = 0) (map (ring_index start n) [0..<n]) of
           Some i \<Rightarrow> (s'\<lparr>ps_slots := (ps_slots s)[i := v]\<rparr>, Some i)
         | None \<Rightarrow> (s', None))"

text \<open>An index out of range would panic; the indices released are those \<open>pin_insert\<close> returned.\<close>

definition pin_release :: "pin_slab \<Rightarrow> nat \<Rightarrow> pin_slab" where
  "pin_release s i = s\<lparr>ps_slots := (ps_slots s)[i := 0]\<rparr>"

text \<open>The values the GC mark hook passes to \<open>rb_gc_mark\<close>.\<close>

definition mark_all :: "pin_slab \<Rightarrow> u64 list" where
  "mark_all s = filter (\<lambda>v. v \<noteq> 0) (ps_slots s)"

definition occupied :: "pin_slab \<Rightarrow> nat" where
  "occupied s = length (filter (\<lambda>v. v \<noteq> 0) (ps_slots s))"

section \<open>The contract of a root slab\<close>

text \<open>
  What the clients rely on. \<open>roots s\<close> maps each occupied slot to the value it roots;
  \<open>rootable\<close> are the values that can be rooted; \<open>headroom s\<close> says that the rotating
  cursor does not wrap during the next scan.
\<close>

locale root_slab =
  fixes insert :: "'s \<Rightarrow> 'v \<Rightarrow> 's \<times> nat option"
    and release :: "'s \<Rightarrow> nat \<Rightarrow> 's"
    and roots :: "'s \<Rightarrow> nat \<rightharpoonup> 'v"
    and capacity :: "'s \<Rightarrow> nat"
    and rootable :: "'v \<Rightarrow> bool"
    and headroom :: "'s \<Rightarrow> bool"
    and valid :: "'s \<Rightarrow> bool"
  assumes insert_Some:
      "\<lbrakk>valid s; rootable v; insert s v = (s', Some i)\<rbrakk>
        \<Longrightarrow> i < capacity s \<and> roots s i = None \<and> roots s' = (roots s)(i \<mapsto> v)"
    and insert_None: "insert s v = (s', None) \<Longrightarrow> roots s' = roots s"
    and insert_room:
      "\<lbrakk>valid s; headroom s; card (dom (roots s)) < capacity s\<rbrakk> \<Longrightarrow> snd (insert s v) \<noteq> None"
    and release_roots: "roots (release s i) = (roots s)(i := None)"
    and capacity_insert: "capacity (fst (insert s v)) = capacity s"
    and capacity_release: "capacity (release s i) = capacity s"
    and valid_insert: "valid s \<Longrightarrow> valid (fst (insert s v))"
    and valid_release: "valid s \<Longrightarrow> valid (release s i)"
    and dom_roots: "dom (roots s) \<subseteq> {..<capacity s}"
begin

lemma finite_roots [simp]: "finite (dom (roots s))"
  by (rule finite_subset[OF dom_roots]) simp

lemma insert_fresh: "\<lbrakk>valid s; rootable v; insert s v = (s', Some i)\<rbrakk> \<Longrightarrow> i \<notin> dom (roots s)"
  using insert_Some[of s v s' i] by (simp add: domIff)

lemma card_insert:
  "\<lbrakk>valid s; rootable v; insert s v = (s', Some i)\<rbrakk>
    \<Longrightarrow> card (dom (roots s')) = Suc (card (dom (roots s)))"
  using insert_Some[of s v s' i] insert_fresh[of s v s' i] by simp

end

section \<open>The slab satisfies the contract\<close>

definition pin_roots :: "pin_slab \<Rightarrow> nat \<rightharpoonup> u64" where
  "pin_roots s i = (if i < length (ps_slots s) \<and> ps_slots s ! i \<noteq> 0 then Some (ps_slots s ! i) else None)"

definition pin_capacity :: "pin_slab \<Rightarrow> nat" where
  "pin_capacity s = length (ps_slots s)"

definition pin_valid :: "pin_slab \<Rightarrow> bool" where
  "pin_valid s \<longleftrightarrow> length (ps_slots s) < 2 ^ 64"

definition pin_headroom :: "pin_slab \<Rightarrow> bool" where
  "pin_headroom s \<longleftrightarrow> unat (ps_cursor s) + length (ps_slots s) \<le> 2 ^ 64"

lemma pin_insert_SomeD:
  assumes "pin_insert s v = (s', Some i)" "pin_valid s"
  shows "i < length (ps_slots s) \<and> ps_slots s ! i = 0 \<and> s' = s\<lparr>ps_cursor := ps_cursor s + 1, ps_slots := (ps_slots s)[i := v]\<rparr>"
proof -
  let ?n = "length (ps_slots s)"
  from assms(1) have f: "List.find (\<lambda>i. ps_slots s ! i = 0) (map (ring_index (ps_cursor s) ?n) [0..<?n]) = Some i"
    and s': "s' = s\<lparr>ps_cursor := ps_cursor s + 1, ps_slots := (ps_slots s)[i := v]\<rparr>"
    by (auto simp: pin_insert_def Let_def split: option.splits)
  from f obtain k where "k < ?n" "i = ring_index (ps_cursor s) ?n k" "ps_slots s ! i = 0"
    by (auto simp: find_Some_iff)
  with s' show ?thesis
    using ring_index_less[of ?n "ps_cursor s" k] assms(2) by (fastforce simp: pin_valid_def)
qed

lemma pin_insert_NoneD:
  "pin_insert s v = (s', None) \<Longrightarrow> s' = s\<lparr>ps_cursor := ps_cursor s + 1\<rparr>
    \<and> (\<forall>k < length (ps_slots s). ps_slots s ! ring_index (ps_cursor s) (length (ps_slots s)) k \<noteq> 0)"
  by (auto simp: pin_insert_def Let_def find_None_iff split: option.splits)

lemma pin_roots_simps [simp]:
  "pin_roots (s\<lparr>ps_cursor := c\<rparr>) = pin_roots s"
  by (auto simp: pin_roots_def fun_eq_iff)

lemma pin_roots_update:
  "i < length (ps_slots s) \<Longrightarrow> v \<noteq> 0 \<Longrightarrow>
     pin_roots (s\<lparr>ps_cursor := c, ps_slots := (ps_slots s)[i := v]\<rparr>) = (pin_roots s)(i \<mapsto> v)"
  by (auto simp: pin_roots_def fun_eq_iff nth_list_update)

lemma pin_insert_room:
  assumes "pin_valid s" "pin_headroom s" "card (dom (pin_roots s)) < pin_capacity s"
  shows "snd (pin_insert s v) \<noteq> None"
proof
  let ?n = "length (ps_slots s)"
  assume "snd (pin_insert s v) = None"
  then have "\<forall>k < ?n. ps_slots s ! ring_index (ps_cursor s) ?n k \<noteq> 0"
    using pin_insert_NoneD[of s v] by (metis prod.collapse)
  then have "ps_slots s ! j \<noteq> 0" if "j < ?n" for j
    using ring_index_hits[OF that, of "ps_cursor s"] assms(1,2)
    by (auto simp: pin_headroom_def pin_valid_def)
  then have "{..<?n} \<subseteq> dom (pin_roots s)" by (auto simp: pin_roots_def)
  moreover have "finite (dom (pin_roots s))"
    by (rule finite_subset[of _ "{..<?n}"]) (auto simp: pin_roots_def split: if_splits)
  ultimately have "?n \<le> card (dom (pin_roots s))"
    using card_mono[of "dom (pin_roots s)" "{..<?n}"] by simp
  with assms(3) show False by (simp add: pin_capacity_def)
qed

interpretation pin: root_slab pin_insert pin_release pin_roots pin_capacity "\<lambda>v. v \<noteq> 0" pin_headroom pin_valid
proof
  fix s s' :: pin_slab and v i
  show "i < pin_capacity s \<and> pin_roots s i = None \<and> pin_roots s' = (pin_roots s)(i \<mapsto> v)"
    if "pin_valid s" "v \<noteq> 0" "pin_insert s v = (s', Some i)"
    using pin_insert_SomeD[OF that(3,1)] that(2)
    by (auto simp: pin_capacity_def pin_roots_update) (simp add: pin_roots_def)
  show "pin_roots s' = pin_roots s" if "pin_insert s v = (s', None)"
    using pin_insert_NoneD[OF that] by simp
  show "snd (pin_insert s v) \<noteq> None"
    if "pin_valid s" "pin_headroom s" "card (dom (pin_roots s)) < pin_capacity s"
    using that by (rule pin_insert_room)
  show "pin_roots (pin_release s i) = (pin_roots s)(i := None)"
    by (auto simp: pin_roots_def pin_release_def fun_eq_iff nth_list_update)
  show "pin_capacity (fst (pin_insert s v)) = pin_capacity s"
    by (auto simp: pin_capacity_def pin_insert_def Let_def split: option.splits)
  show "pin_capacity (pin_release s i) = pin_capacity s"
    by (simp add: pin_capacity_def pin_release_def)
  show "pin_valid (fst (pin_insert s v))" if "pin_valid s"
    using that by (auto simp: pin_valid_def pin_insert_def Let_def split: option.splits)
  show "pin_valid (pin_release s i)" if "pin_valid s"
    using that by (simp add: pin_valid_def pin_release_def)
  show "dom (pin_roots s) \<subseteq> {..<pin_capacity s}"
    by (auto simp: pin_roots_def pin_capacity_def split: if_splits)
qed

section \<open>Zero-copy bodies\<close>

text \<open>
  The Ruby strings behind a body, as the VM sees them: the bytes of a string, the frozen
  string \<open>rb_str_tmp_frozen_acquire\<close> returns for it, and the shareable flag
  (\<open>flagged_shareable\<close> reads it). The VM is not code of the repository.
\<close>

record ruby_strings =
  rb_bytes :: "u64 \<Rightarrow> bytes"
  rb_acquire :: "u64 \<Rightarrow> u64"
  rb_shareable :: "u64 \<Rightarrow> bool"

text \<open>
  \<open>PinnedBuf\<close>: the view hyper reads from (the acquired string's bytes) and the slot that
  roots it. Its drop releases the slot.
\<close>

record pinned_buf =
  pb_index :: nat
  pb_view :: bytes

definition pinned_bytes ::
  "ruby_strings \<Rightarrow> pin_slab \<Rightarrow> u64 \<Rightarrow> pin_slab \<times> pinned_buf option" where
  "pinned_bytes R s body =
     (if length (rb_bytes R body) < ZERO_COPY_MIN then (s, None)
      else let tmp = rb_acquire R body
           in if ps_shareable_only s \<and> \<not> rb_shareable R tmp then (s, None)
              else case pin_insert s tmp of
                     (s', None) \<Rightarrow> (s', None)
                   | (s', Some i) \<Rightarrow> (s', Some \<lparr>pb_index = i, pb_view = rb_bytes R tmp\<rparr>))"

definition drop_pinned_buf :: "pin_slab \<Rightarrow> pinned_buf \<Rightarrow> pin_slab" where
  "drop_pinned_buf s b = pin_release s (pb_index b)"

text \<open>What the VM documents: the acquired string is a string (not the zero VALUE) with the same bytes.\<close>

definition acquire_stable :: "ruby_strings \<Rightarrow> bool" where
  "acquire_stable R \<longleftrightarrow> (\<forall>v. rb_bytes R (rb_acquire R v) = rb_bytes R v \<and> rb_acquire R v \<noteq> 0)"

section \<open>Concurrent inserters and releasers\<close>

text \<open>
  Threads (numbered by \<^typ>\<open>nat\<close>) insert and release at will; every action on a slot is one
  atomic step: a compare-and-swap from 0, or the store of 0 by the owner's drop.
\<close>

datatype slab_pc = SlabIdle | Scanning u64 usize nat | Owns u64 nat

record slab_sys =
  ss_slots :: "u64 list"
  ss_cursor :: usize
  ss_pc :: "nat \<Rightarrow> slab_pc"

definition slab_init :: "nat \<Rightarrow> slab_sys \<Rightarrow> bool" where
  "slab_init n s \<longleftrightarrow> ss_slots s = replicate n 0 \<and> (\<forall>t. ss_pc s t = SlabIdle)"

inductive slab_step :: "slab_sys \<Rightarrow> slab_sys \<Rightarrow> bool" where
  start_scan: "ss_pc s t = SlabIdle \<Longrightarrow> v \<noteq> 0
    \<Longrightarrow> slab_step s (s\<lparr>ss_cursor := ss_cursor s + 1, ss_pc := (ss_pc s)(t := Scanning v (ss_cursor s) 0)\<rparr>)"
| cas_ok: "ss_pc s t = Scanning v st k \<Longrightarrow> k < length (ss_slots s)
    \<Longrightarrow> i = ring_index st (length (ss_slots s)) k \<Longrightarrow> ss_slots s ! i = 0
    \<Longrightarrow> slab_step s (s\<lparr>ss_slots := (ss_slots s)[i := v], ss_pc := (ss_pc s)(t := Owns v i)\<rparr>)"
| cas_fail: "ss_pc s t = Scanning v st k \<Longrightarrow> k < length (ss_slots s)
    \<Longrightarrow> ss_slots s ! ring_index st (length (ss_slots s)) k \<noteq> 0
    \<Longrightarrow> slab_step s (s\<lparr>ss_pc := (ss_pc s)(t := Scanning v st (Suc k))\<rparr>)"
| give_up: "ss_pc s t = Scanning v st k \<Longrightarrow> length (ss_slots s) \<le> k
    \<Longrightarrow> slab_step s (s\<lparr>ss_pc := (ss_pc s)(t := SlabIdle)\<rparr>)"
| drop_root: "ss_pc s t = Owns v i
    \<Longrightarrow> slab_step s (s\<lparr>ss_slots := (ss_slots s)[i := 0], ss_pc := (ss_pc s)(t := SlabIdle)\<rparr>)"

text \<open>
  Owners and occupied slots correspond one to one, so no root is overwritten while it is
  owned and none stays behind after its owner drops it.
\<close>

definition slab_inv :: "nat \<Rightarrow> slab_sys \<Rightarrow> bool" where
  "slab_inv n s \<longleftrightarrow>
     length (ss_slots s) = n
     \<and> (\<forall>t v i. ss_pc s t = Owns v i \<longrightarrow> i < n \<and> v \<noteq> 0 \<and> ss_slots s ! i = v)
     \<and> (\<forall>t v st k. ss_pc s t = Scanning v st k \<longrightarrow> v \<noteq> 0)
     \<and> (\<forall>t t' v v' i. ss_pc s t = Owns v i \<longrightarrow> ss_pc s t' = Owns v' i \<longrightarrow> t = t')
     \<and> (\<forall>i < n. ss_slots s ! i \<noteq> 0 \<longrightarrow> (\<exists>t. ss_pc s t = Owns (ss_slots s ! i) i))"

lemma slab_write_inv:
  assumes "slab_inv n s" "i < n" "\<And>u v. u \<noteq> t \<Longrightarrow> ss_pc s u \<noteq> Owns v i" "\<And>v j. ss_pc s t = Owns v j \<Longrightarrow> j = i"
    and "w \<noteq> 0 \<and> p = Owns w i \<or> w = 0 \<and> p = SlabIdle"
  shows "slab_inv n (s\<lparr>ss_slots := (ss_slots s)[i := w], ss_pc := (ss_pc s)(t := p)\<rparr>)"
proof -
  have old: "u = t \<and> v = w \<and> j = i \<and> w \<noteq> 0 \<or> u \<noteq> t \<and> ss_pc s u = Owns v j \<and> j \<noteq> i"
    if "((ss_pc s)(t := p)) u = Owns v j" for u v j
    using that assms(3)[of u v] assms(5) by (auto split: if_splits)
  have len: "length (ss_slots s) = n" using assms(1) by (simp add: slab_inv_def)
  have "\<exists>u. ((ss_pc s)(t := p)) u = Owns ((ss_slots s)[i := w] ! j) j" if j: "j < n" "(ss_slots s)[i := w] ! j \<noteq> 0" for j
  proof (cases "j = i")
    case True
    with j assms(5) len show ?thesis by (intro exI[of _ t]) auto
  next
    case False
    with j assms(1) obtain u where u: "ss_pc s u = Owns (ss_slots s ! j) j" unfolding slab_inv_def by fastforce
    with assms(4) False show ?thesis by (intro exI[of _ u]) auto
  qed
  moreover have "v \<noteq> 0" if "((ss_pc s)(t := p)) u = Scanning v st k" for u v st k
    using that assms(1,5) unfolding slab_inv_def by (auto split: if_splits; blast)
  moreover have "j < n \<and> v \<noteq> 0 \<and> (ss_slots s)[i := w] ! j = v" if "((ss_pc s)(t := p)) u = Owns v j" for u v j
    using old[OF that] assms(1,2) len by (auto simp: slab_inv_def)
  moreover have "u = u'" if "((ss_pc s)(t := p)) u = Owns v j" "((ss_pc s)(t := p)) u' = Owns v' j" for u u' v v' j
    using old[OF that(1)] old[OF that(2)] assms(1) unfolding slab_inv_def by blast
  ultimately show ?thesis using len by (simp add: slab_inv_def del: fun_upd_apply)
qed

lemma slab_step_inv:
  assumes n: "n < 2 ^ 64"
  shows "slab_step s t \<Longrightarrow> slab_inv n s \<Longrightarrow> slab_inv n t"
proof (induction rule: slab_step.induct)
  case (start_scan s t v)
  then show ?case unfolding slab_inv_def by (simp, metis slab_pc.distinct(3))
next
  case (cas_ok s t v st k i)
  then have i: "i < n" using ring_index_less[of n st k] n by (auto simp: slab_inv_def)
  have v: "v \<noteq> 0" using cas_ok(1,5) unfolding slab_inv_def by blast
  have "ss_pc s u \<noteq> Owns w i" for u w using cas_ok(4,5) unfolding slab_inv_def by metis
  with cas_ok i v show ?case by (intro slab_write_inv) auto
next
  case (cas_fail s t v st k)
  then show ?case unfolding slab_inv_def by (simp, metis slab_pc.distinct(5))
next
  case (give_up s t v st k)
  then show ?case unfolding slab_inv_def by (simp, metis slab_pc.distinct(5))
next
  case (drop_root s t v i)
  then have "i < n" "u \<noteq> t \<Longrightarrow> ss_pc s u \<noteq> Owns w i" for u w unfolding slab_inv_def by blast+
  with drop_root show ?case by (intro slab_write_inv) auto
qed

text \<open>The steps keep the slab's length below \<open>2 ^ 64\<close>, as an allocation is.\<close>

definition slab_start :: "slab_sys \<Rightarrow> bool" where
  "slab_start s \<longleftrightarrow> slab_init (length (ss_slots s)) s \<and> length (ss_slots s) < 2 ^ 64"

definition slab_ok :: "slab_sys \<Rightarrow> bool" where
  "slab_ok s \<longleftrightarrow> slab_inv (length (ss_slots s)) s \<and> length (ss_slots s) < 2 ^ 64"

interpretation slab_race: invariant_system slab_start slab_step slab_ok
proof
  show "slab_ok s" if "slab_start s" for s
    using that by (simp add: slab_start_def slab_init_def slab_ok_def slab_inv_def) (metis nth_replicate)
  show "slab_ok t" if "slab_step s t" "slab_ok s" for s t
    using slab_step_inv[OF _ that(1), of "length (ss_slots s)"] that(2)
    by (auto simp: slab_ok_def slab_inv_def)
qed

section \<open>Properties\<close>

text \<open>
  C14: however inserts and releases of any number of threads interleave, the values the GC
  mark hook passes on are exactly those some thread owns, no two owners share a slot, and
  each owner's slot holds its own value: a pinned string is neither overwritten nor left
  unmarked, and a dropped one is not kept.
\<close>

theorem concurrent_roots_are_owned:
  assumes "reach slab_start slab_step s"
  shows "set (mark_all \<lparr>ps_slots = ss_slots s, ps_cursor = ss_cursor s, ps_shareable_only = sh\<rparr>)
      = {v. \<exists>t i. ss_pc s t = Owns v i}
    \<and> (\<forall>t v i. ss_pc s t = Owns v i \<longrightarrow> i < length (ss_slots s) \<and> ss_slots s ! i = v)
    \<and> (\<forall>t t' v v' i. ss_pc s t = Owns v i \<longrightarrow> ss_pc s t' = Owns v' i \<longrightarrow> t = t')"
proof -
  from slab_race.reach_Inv[OF assms] have inv: "slab_inv (length (ss_slots s)) s"
    by (simp add: slab_ok_def)
  have "v \<in> set (ss_slots s) \<and> v \<noteq> 0 \<longleftrightarrow> (\<exists>t i. ss_pc s t = Owns v i)" for v
    using inv unfolding slab_inv_def in_set_conv_nth by (metis (no_types, lifting))
  with inv show ?thesis by (auto simp: mark_all_def slab_inv_def)
qed

definition slab_example :: slab_sys where
  "slab_example = \<lparr>ss_slots = [0, 9], ss_cursor = 2, ss_pc = (\<lambda>_. SlabIdle)(4 := Owns 9 1)\<rparr>"

lemma slab_example_reachable: "reach slab_start slab_step slab_example"
proof -
  let ?s0 = "\<lparr>ss_slots = [0, 0], ss_cursor = 1, ss_pc = (\<lambda>_. SlabIdle)\<rparr>"
  let ?s1 = "?s0\<lparr>ss_cursor := ss_cursor ?s0 + 1, ss_pc := (ss_pc ?s0)(4 := Scanning 9 (ss_cursor ?s0) 0)\<rparr>"
  have "reach slab_start slab_step ?s0"
  proof (rule reach_init)
    have "replicate (Suc (Suc 0)) (0 :: u64) = [0, 0]" by simp
    then show "slab_start ?s0" by (simp add: slab_start_def slab_init_def)
  qed
  then have "reach slab_start slab_step ?s1"
    by (rule reach_step) (rule slab_step.start_scan; simp)
  then have "reach slab_start slab_step
      (?s1\<lparr>ss_slots := (ss_slots ?s1)[1 := 9], ss_pc := (ss_pc ?s1)(4 := Owns 9 1)\<rparr>)"
    by (rule reach_step) (rule slab_step.cas_ok[of _ _ 9 1 0]; simp add: ring_index_def)
  then show ?thesis by (simp add: slab_example_def)
qed

theorem concurrent_roots_are_owned_witness:
  "reach slab_start slab_step slab_example
    \<and> set (mark_all \<lparr>ps_slots = ss_slots slab_example, ps_cursor = ss_cursor slab_example,
        ps_shareable_only = False\<rparr>) = {v. \<exists>t i. ss_pc slab_example t = Owns v i}"
  using concurrent_roots_are_owned[OF slab_example_reachable, of False] slab_example_reachable by simp

text \<open>
  While the cursor has not come within a scan of wrapping around, \<open>insert\<close> fails only
  on a slab that is full; when it succeeds it takes a slot that was free and leaves
  every other root alone; and releasing the slot it returned gives the roots back.
\<close>

theorem pin_insert_spec:
  assumes "pin_valid s" "pin_headroom s" "v \<noteq> 0"
  shows "case pin_insert s v of
      (s', None) \<Rightarrow> card (dom (pin_roots s)) = pin_capacity s \<and> pin_roots s' = pin_roots s
    | (s', Some i) \<Rightarrow> i < pin_capacity s \<and> pin_roots s i = None
        \<and> pin_roots s' = (pin_roots s)(i \<mapsto> v) \<and> pin_roots (pin_release s' i) = pin_roots s"
proof (cases "pin_insert s v")
  case (Pair s' r)
  show ?thesis
  proof (cases r)
    case None
    have "card (dom (pin_roots s)) \<le> pin_capacity s"
      using card_mono[OF _ pin.dom_roots[of s]] by simp
    then show ?thesis using Pair None pin.insert_room[OF assms(1,2), of v] pin.insert_None[of s v s'] by (auto simp: le_less)
  next
    case (Some i)
    with Pair pin.insert_Some[OF assms(1,3)] have
      "i < pin_capacity s \<and> pin_roots s i = None \<and> pin_roots s' = (pin_roots s)(i \<mapsto> v)" by simp
    then show ?thesis using Pair Some pin.release_roots[of s' i] by (auto simp: fun_eq_iff)
  qed
qed

theorem pin_insert_spec_witness:
  "pin_insert (with_capacity 2) 7 = (\<lparr>ps_slots = [7, 0], ps_cursor = 1, ps_shareable_only = False\<rparr>, Some 0)
    \<and> pin_roots (pin_release \<lparr>ps_slots = [7, 0], ps_cursor = 1, ps_shareable_only = False\<rparr> 0)
      = pin_roots (with_capacity 2)"
proof -
  have "pin_insert (with_capacity 2) 7
      = (\<lparr>ps_slots = [7, 0], ps_cursor = 1, ps_shareable_only = False\<rparr>, Some 0)"
    by (simp add: pin_insert_def with_capacity_def ring_index_def numeral_2_eq_2 upt_rec)
  moreover have "pin_valid (with_capacity 2)" "pin_headroom (with_capacity 2)"
    by (simp_all add: pin_valid_def pin_headroom_def with_capacity_def)
  ultimately show ?thesis using pin_insert_spec[of "with_capacity 2" 7] by simp
qed

text \<open>
  C20: a body that is pinned is at least \<open>ZERO_COPY_MIN\<close> bytes long, is read through a view
  with exactly its bytes, and is rooted; on a slab that takes only shareable strings it is
  flagged shareable; and dropping the buffer restores the roots.
\<close>

theorem pinned_bytes_faithful:
  assumes "pin_valid s" "acquire_stable R" "pinned_bytes R s body = (s', Some b)"
  shows "pb_view b = rb_bytes R body \<and> ZERO_COPY_MIN \<le> length (pb_view b)
    \<and> pin_roots s' = (pin_roots s)(pb_index b \<mapsto> rb_acquire R body)
    \<and> pin_roots (drop_pinned_buf s' b) = pin_roots s
    \<and> (ps_shareable_only s \<longrightarrow> rb_shareable R (rb_acquire R body))"
proof -
  have nz: "rb_acquire R body \<noteq> 0" and same: "rb_bytes R (rb_acquire R body) = rb_bytes R body"
    using assms(2) by (simp_all add: acquire_stable_def)
  from assms(3) have ins: "pin_insert s (rb_acquire R body) = (s', Some (pb_index b))"
    and len: "ZERO_COPY_MIN \<le> length (rb_bytes R body)"
    and sh: "ps_shareable_only s \<longrightarrow> rb_shareable R (rb_acquire R body)"
    and view: "pb_view b = rb_bytes R (rb_acquire R body)"
    by (auto simp: pinned_bytes_def Let_def split: if_splits prod.splits option.splits)
  from pin.insert_Some[OF assms(1) nz ins] have
    "pin_roots s (pb_index b) = None" "pin_roots s' = (pin_roots s)(pb_index b \<mapsto> rb_acquire R body)"
    by simp_all
  with same len sh view show ?thesis
    using pin.release_roots[of s' "pb_index b"] by (auto simp: drop_pinned_buf_def fun_eq_iff)
qed

definition example_strings :: ruby_strings where
  "example_strings = \<lparr>rb_bytes = (\<lambda>_. replicate 4096 CHR ''x''), rb_acquire = (\<lambda>_. 24),
     rb_shareable = (\<lambda>_. False)\<rparr>"

theorem pinned_bytes_faithful_witness:
  "\<exists>s' b. pinned_bytes example_strings (with_capacity 1) 16 = (s', Some b)
    \<and> pb_view b = replicate 4096 CHR ''x'' \<and> pin_roots s' (pb_index b) = Some 24
    \<and> pin_roots (drop_pinned_buf s' b) = pin_roots (with_capacity 1)"
proof -
  obtain s' b where r: "pinned_bytes example_strings (with_capacity 1) 16 = (s', Some b)"
    by (simp add: pinned_bytes_def example_strings_def ZERO_COPY_MIN_def with_capacity_def
        pin_insert_def ring_index_def)
  have "pin_valid (with_capacity 1)" "acquire_stable example_strings"
    by (simp_all add: pin_valid_def with_capacity_def acquire_stable_def example_strings_def)
  from pinned_bytes_faithful[OF this r] have
    "pb_view b = rb_bytes example_strings 16 \<and> pin_roots s' (pb_index b) = Some (rb_acquire example_strings 16)
      \<and> pin_roots (drop_pinned_buf s' b) = pin_roots (with_capacity 1)" by simp
  with r show ?thesis by (auto simp: example_strings_def)
qed

end
