(* ===== verification/Kino_Channel.thy ===== *)
theory Kino_Channel
  imports Kino_Prelude
begin

text \<open>
  The interfaces of the two channel libraries the crate is built on: \<open>flume\<close> (bounded
  MPMC queues: the request queue, the lanes, the body and response-frame channels, the log
  sink) and \<open>tokio::sync::oneshot\<close> (the response head). Neither is code of the
  repository, so both are parameters: a record of operations on an abstract channel state,
  and a locale with the documented laws. The definitions of every component take the record
  as an argument; the theorems take the locale predicate as a hypothesis.

  \<open>list_flume\<close> and \<open>cell_oneshot\<close> are reference channels that satisfy the laws. They
  show the laws consistent and let concrete runs be evaluated; no definition of a component
  depends on them. \<open>ch_drop_receiver\<close> drops the last receiver.
\<close>

section \<open>flume\<close>

datatype 'a send_result = Sent | SendFull 'a | SendDisconnected 'a

datatype 'a recv_result = Received 'a | RecvEmpty | RecvDisconnected

record ('a, 'c) flume =
  ch_bounded :: "nat \<Rightarrow> 'c"
  ch_try_send :: "'c \<Rightarrow> 'a \<Rightarrow> 'c \<times> 'a send_result"
  ch_try_recv :: "'c \<Rightarrow> 'c \<times> 'a recv_result"
  ch_len :: "'c \<Rightarrow> nat"
  ch_is_disconnected :: "'c \<Rightarrow> bool"
  ch_drop_sender :: "'c \<Rightarrow> 'c"
  ch_clone_sender :: "'c \<Rightarrow> 'c"
  ch_drop_receiver :: "'c \<Rightarrow> 'c"

text \<open>
  The laws: a bounded channel is a FIFO of at most \<open>cap\<close> items; a send fails only when
  the channel is full (or its receivers are gone); a receive from an empty channel tells
  \<open>Empty\<close> from \<open>Disconnected\<close> by whether a sender is left, and items already queued
  are delivered after the last sender is dropped. \<open>items\<close>, \<open>cap\<close>, \<open>senders\<close> and
  \<open>alive\<close> are the observations the laws are stated over. The laws are for channels of
  positive capacity; a zero-capacity flume channel is a rendezvous.
\<close>

locale flume_channel =
  fixes F :: "('a, 'c) flume"
    and items :: "'c \<Rightarrow> 'a list"
    and cap :: "'c \<Rightarrow> nat"
    and senders :: "'c \<Rightarrow> nat"
    and alive :: "'c \<Rightarrow> bool"
  assumes bounded_view:
      "0 < n \<Longrightarrow> items (ch_bounded F n) = [] \<and> cap (ch_bounded F n) = n
        \<and> senders (ch_bounded F n) = 1 \<and> alive (ch_bounded F n)"
    and send_room:
      "\<lbrakk>0 < cap c; alive c; length (items c) < cap c\<rbrakk>
        \<Longrightarrow> \<exists>c'. ch_try_send F c x = (c', Sent) \<and> items c' = items c @ [x]
          \<and> cap c' = cap c \<and> senders c' = senders c \<and> alive c' = alive c"
    and send_full:
      "\<lbrakk>0 < cap c; alive c; cap c \<le> length (items c)\<rbrakk> \<Longrightarrow> ch_try_send F c x = (c, SendFull x)"
    and send_dead: "\<not> alive c \<Longrightarrow> ch_try_send F c x = (c, SendDisconnected x)"
    and recv_item:
      "items c = x # xs
        \<Longrightarrow> \<exists>c'. ch_try_recv F c = (c', Received x) \<and> items c' = xs
          \<and> cap c' = cap c \<and> senders c' = senders c \<and> alive c' = alive c"
    and recv_empty: "\<lbrakk>items c = []; 0 < senders c\<rbrakk> \<Longrightarrow> ch_try_recv F c = (c, RecvEmpty)"
    and recv_gone: "\<lbrakk>items c = []; senders c = 0\<rbrakk> \<Longrightarrow> ch_try_recv F c = (c, RecvDisconnected)"
    and len_items: "ch_len F c = length (items c)"
    and disconnected_senders: "ch_is_disconnected F c \<longleftrightarrow> senders c = 0"
    and drop_view:
      "items (ch_drop_sender F c) = items c \<and> cap (ch_drop_sender F c) = cap c
        \<and> senders (ch_drop_sender F c) = senders c - 1 \<and> alive (ch_drop_sender F c) = alive c"
    and clone_view:
      "items (ch_clone_sender F c) = items c \<and> cap (ch_clone_sender F c) = cap c
        \<and> senders (ch_clone_sender F c) = senders c + 1 \<and> alive (ch_clone_sender F c) = alive c"
    and drop_receiver_view:
      "\<not> alive (ch_drop_receiver F c) \<and> cap (ch_drop_receiver F c) = cap c
        \<and> senders (ch_drop_receiver F c) = senders c"
begin

lemmas ch_view [simp] = bounded_view drop_view clone_view drop_receiver_view

text \<open>Every receive is one of three, told apart by the observations.\<close>

lemma recv_cases:
  obtains (item) x c' where "ch_try_recv F c = (c', Received x)" "items c = x # items c'"
      "cap c' = cap c" "senders c' = senders c" "alive c' = alive c"
  | (empty) "ch_try_recv F c = (c, RecvEmpty)" "items c = []" "0 < senders c"
  | (gone) "ch_try_recv F c = (c, RecvDisconnected)" "items c = []" "senders c = 0"
proof (cases "items c")
  case Nil
  then show ?thesis
    using recv_empty[of c] recv_gone[of c] that(2,3) by (cases "senders c = 0") auto
next
  case (Cons x xs)
  then show ?thesis using recv_item[OF Cons] that(1) by auto
qed

lemma recv_items:
  "ch_try_recv F c = (c', r) \<Longrightarrow>
     (case r of Received x \<Rightarrow> items c = x # items c' | _ \<Rightarrow> items c = [] \<and> c' = c)
     \<and> cap c' = cap c \<and> senders c' = senders c \<and> alive c' = alive c"
  by (cases rule: recv_cases[of c]) auto

lemma recv_ReceivedD: "ch_try_recv F c = (c', Received x) \<Longrightarrow> items c = x # items c'"
  using recv_items[of c c' "Received x"] by simp

lemma send_SentD:
  assumes "ch_try_send F c x = (c', Sent)" "0 < cap c"
  shows "items c' = items c @ [x] \<and> length (items c) < cap c \<and> alive c
    \<and> cap c' = cap c \<and> senders c' = senders c \<and> alive c' = alive c"
proof (cases "alive c \<and> length (items c) < cap c")
  case True
  then show ?thesis using send_room[of c x] assms by auto
next
  case False
  then show ?thesis using send_full[of c x] send_dead[of c x] assms by (cases "alive c") auto
qed

lemma send_not_Sent:
  assumes "ch_try_send F c x = (c', r)" "r \<noteq> Sent" "0 < cap c"
  shows "c' = c \<and> (r = SendFull x \<and> alive c \<and> cap c \<le> length (items c)
    \<or> r = SendDisconnected x \<and> \<not> alive c)"
proof (cases "alive c \<and> length (items c) < cap c")
  case True
  then show ?thesis using send_room[of c x] assms by auto
next
  case False
  then show ?thesis using send_full[of c x] send_dead[of c x] assms by (cases "alive c") auto
qed

lemma send_Sent_iff:
  "0 < cap c \<Longrightarrow> snd (ch_try_send F c x) = Sent \<longleftrightarrow> alive c \<and> length (items c) < cap c"
  using send_SentD[of c x] send_not_Sent[of c x] by (metis linorder_not_less prod.collapse)

end

text \<open>A reference channel: the queue as a list, with its capacity and its sender count.\<close>

record 'a list_chan =
  lc_items :: "'a list"
  lc_cap :: nat
  lc_senders :: nat
  lc_alive :: bool

definition list_flume :: "('a, 'a list_chan) flume" where
  "list_flume = \<lparr>
     ch_bounded = (\<lambda>n. \<lparr>lc_items = [], lc_cap = n, lc_senders = 1, lc_alive = True\<rparr>),
     ch_try_send = (\<lambda>c x. if \<not> lc_alive c then (c, SendDisconnected x)
        else if length (lc_items c) < lc_cap c then (c\<lparr>lc_items := lc_items c @ [x]\<rparr>, Sent)
        else (c, SendFull x)),
     ch_try_recv = (\<lambda>c. case lc_items c of
        x # xs \<Rightarrow> (c\<lparr>lc_items := xs\<rparr>, Received x)
      | [] \<Rightarrow> (c, if lc_senders c = 0 then RecvDisconnected else RecvEmpty)),
     ch_len = (\<lambda>c. length (lc_items c)),
     ch_is_disconnected = (\<lambda>c. lc_senders c = 0),
     ch_drop_sender = (\<lambda>c. c\<lparr>lc_senders := lc_senders c - 1\<rparr>),
     ch_clone_sender = (\<lambda>c. c\<lparr>lc_senders := lc_senders c + 1\<rparr>),
     ch_drop_receiver = (\<lambda>c. c\<lparr>lc_items := [], lc_alive := False\<rparr>)\<rparr>"

interpretation list_ch: flume_channel list_flume lc_items lc_cap lc_senders lc_alive
  by unfold_locales (auto simp: list_flume_def)

section \<open>tokio oneshot\<close>

text \<open>
  The receiver of a oneshot sees nothing yet, the one value sent, or \<open>Closed\<close> when the
  sender was dropped without sending; \<open>os_poll\<close> is what polling the receiver finds. A send
  after the receiver was dropped (\<open>os_drop_receiver\<close>) reports a failure.
\<close>

datatype 'r oneshot_view = Pending | Delivered 'r | Closed

record ('r, 'o) oneshot =
  os_new :: "'o"
  os_send :: "'o \<Rightarrow> 'r \<Rightarrow> 'o \<times> bool"
  os_drop_sender :: "'o \<Rightarrow> 'o"
  os_poll :: "'o \<Rightarrow> 'r oneshot_view"
  os_drop_receiver :: "'o \<Rightarrow> 'o"

locale oneshot_channel =
  fixes P :: "('r, 'o) oneshot"
    and view :: "'o \<Rightarrow> 'r oneshot_view"
    and listening :: "'o \<Rightarrow> bool"
  assumes new_view: "view (os_new P) = Pending \<and> listening (os_new P)"
    and send_view:
      "\<lbrakk>view h = Pending; listening h\<rbrakk>
        \<Longrightarrow> \<exists>h'. os_send P h r = (h', True) \<and> view h' = Delivered r \<and> listening h'"
    and send_unheard:
      "\<lbrakk>view h = Pending; \<not> listening h\<rbrakk>
        \<Longrightarrow> \<exists>h'. os_send P h r = (h', False) \<and> view h' = Closed \<and> \<not> listening h'"
    and drop_sender_view:
      "view h = Pending
        \<Longrightarrow> view (os_drop_sender P h) = Closed \<and> listening (os_drop_sender P h) = listening h"
    and poll_view: "os_poll P h = view h"
    and drop_receiver_view:
      "view (os_drop_receiver P h) = view h \<and> \<not> listening (os_drop_receiver P h)"
begin

lemma send_ok: "view h = Pending \<Longrightarrow> snd (os_send P h r) = listening h"
  using send_view[of h r] send_unheard[of h r] by (cases "listening h") auto

lemma send_not_pending: "view h = Pending \<Longrightarrow> view (fst (os_send P h r)) \<noteq> Pending"
  using send_view[of h r] send_unheard[of h r] by (cases "listening h") auto

lemma send_keeps_listening: "view h = Pending \<Longrightarrow> listening (fst (os_send P h r)) = listening h"
  using send_view[of h r] send_unheard[of h r] by (cases "listening h") auto

end

record 'r cell =
  cell_view :: "'r oneshot_view"
  cell_listening :: bool

definition cell_oneshot :: "('r, 'r cell) oneshot" where
  "cell_oneshot = \<lparr>
     os_new = \<lparr>cell_view = Pending, cell_listening = True\<rparr>,
     os_send = (\<lambda>h r. if cell_listening h then (h\<lparr>cell_view := Delivered r\<rparr>, True)
        else (h\<lparr>cell_view := Closed\<rparr>, False)),
     os_drop_sender = (\<lambda>h. h\<lparr>cell_view := Closed\<rparr>),
     os_poll = cell_view,
     os_drop_receiver = (\<lambda>h. h\<lparr>cell_listening := False\<rparr>)\<rparr>"

interpretation cell_os: oneshot_channel cell_oneshot cell_view cell_listening
  by unfold_locales (auto simp: cell_oneshot_def)

end
