(* ===== verification/Kino_Http.thy ===== *)
theory Kino_Http
  imports Kino_Channel
begin

text \<open>
  HTTP data as the crate handles it. \<open>http::HeaderMap\<close> is not code of the repository: it
  is a record of operations on an abstract header map, with its documented laws as a
  locale. \<open>list_headers\<close> is a reference header map on which concrete runs are evaluated.
\<close>

section \<open>Header maps\<close>

definition ascii_lower :: "char \<Rightarrow> char" where
  "ascii_lower c = (let v = of_char c :: nat in if 65 \<le> v \<and> v \<le> 90 then char_of (v + 32) else c)"

definition ascii_upper :: "char \<Rightarrow> char" where
  "ascii_upper c = (let v = of_char c :: nat in if 97 \<le> v \<and> v \<le> 122 then char_of (v - 32) else c)"

text \<open>
  \<open>hm_valid\<close> says whether a name and a value are accepted by \<open>HeaderName\<close> and
  \<open>HeaderValue\<close>, \<open>hm_status_ok\<close> whether \<open>StatusCode\<close> accepts a code,
  and \<open>hm_error\<close> is how the library words the refusal; \<open>hm_append\<close> adds a value under a name, which is stored in lower case;
  \<open>hm_or_insert\<close> is \<open>entry(name).or_insert(value)\<close>.
\<close>

record 'h header_ops =
  hm_empty :: 'h
  hm_valid :: "bytes \<Rightarrow> bytes \<Rightarrow> bool"
  hm_status_ok :: "u16 \<Rightarrow> bool"
  hm_error :: string
  hm_append :: "'h \<Rightarrow> bytes \<Rightarrow> bytes \<Rightarrow> 'h"
  hm_or_insert :: "'h \<Rightarrow> bytes \<Rightarrow> bytes \<Rightarrow> 'h"
  hm_keys :: "'h \<Rightarrow> bytes list"
  hm_get_all :: "'h \<Rightarrow> bytes \<Rightarrow> bytes list"

text \<open>\<open>HeaderMap::get\<close>: the first value of a name.\<close>

definition hm_get :: "'h header_ops \<Rightarrow> 'h \<Rightarrow> bytes \<Rightarrow> bytes option" where
  "hm_get H h n = (case hm_get_all H h n of [] \<Rightarrow> None | v # _ \<Rightarrow> Some v)"

locale header_map =
  fixes H :: "'h header_ops"
  assumes get_all_empty: "hm_get_all H (hm_empty H) n = []"
    and get_all_append:
      "hm_get_all H (hm_append H h n v) m =
        (if m = map ascii_lower n then hm_get_all H h m @ [v] else hm_get_all H h m)"
    and get_all_or_insert:
      "hm_get_all H (hm_or_insert H h n v) m =
        (if m = n \<and> hm_get_all H h n = [] then [v] else hm_get_all H h m)"
    and keys_get_all: "n \<in> set (hm_keys H h) \<longleftrightarrow> hm_get_all H h n \<noteq> []"
    and keys_distinct: "distinct (hm_keys H h)"
begin

lemma get_or_insert: "hm_get H (hm_or_insert H h n v) n = Some (case hm_get H h n of None \<Rightarrow> v | Some w \<Rightarrow> w)"
  by (auto simp: hm_get_def get_all_or_insert split: list.splits)

lemma get_or_insert_other: "m \<noteq> n \<Longrightarrow> hm_get_all H (hm_or_insert H h n v) m = hm_get_all H h m"
  by (simp add: get_all_or_insert)

end

type_synonym header_list = "(bytes \<times> bytes) list"

definition list_headers :: "header_list header_ops" where
  "list_headers = \<lparr>
     hm_empty = [],
     hm_valid = (\<lambda>n v. n \<noteq> [] \<and> (\<forall>c \<in> set (n @ v). (32 :: nat) \<le> of_char c \<and> of_char c \<noteq> (127 :: nat))),
     hm_status_ok = (\<lambda>s. 100 \<le> s \<and> s \<le> 999),
     hm_error = ''invalid HTTP header parsed'',
     hm_append = (\<lambda>h n v. h @ [(map ascii_lower n, v)]),
     hm_or_insert = (\<lambda>h n v. if n \<in> fst ` set h then h else h @ [(n, v)]),
     hm_keys = (\<lambda>h. remdups (map fst h)),
     hm_get_all = (\<lambda>h n. map snd (filter (\<lambda>p. fst p = n) h))\<rparr>"

interpretation list_hm: header_map list_headers
  by unfold_locales (auto simp: list_headers_def filter_empty_conv image_iff split: if_splits)

section \<open>Responses\<close>

text \<open>Durations are in nanoseconds.\<close>

type_synonym duration = nat

text \<open>\<open>access_log::Timing\<close>, which rides on a response as an extension.\<close>

record timing =
  tm_wait :: duration
  tm_ruby :: duration
  tm_gc :: "(duration \<times> u64) option"

text \<open>
  A response body is complete, or the receiving end of the frame channel that the
  responder holds the sending end of.
\<close>

datatype response_body = FullBody bytes | StreamBody

record 'h response =
  rs_status :: u16
  rs_headers :: 'h
  rs_timing :: "timing option"
  rs_body :: response_body

text \<open>
  \<open>http::response::Builder\<close>: the head built so far, or \<open>None\<close> once a part was invalid;
  later parts do not revive it.
\<close>

record 'h head =
  hd_status :: u16
  hd_headers :: 'h
  hd_timing :: "timing option"

type_synonym 'h builder = "'h head option"

definition builder_status :: "'h header_ops \<Rightarrow> u16 \<Rightarrow> 'h builder" where
  "builder_status H s =
     (if hm_status_ok H s
      then Some \<lparr>hd_status = s, hd_headers = hm_empty H, hd_timing = None\<rparr> else None)"

definition builder_header :: "'h header_ops \<Rightarrow> 'h builder \<Rightarrow> bytes \<Rightarrow> bytes \<Rightarrow> 'h builder" where
  "builder_header H b n v =
     (case b of None \<Rightarrow> None
      | Some h \<Rightarrow> if hm_valid H n v then Some (h\<lparr>hd_headers := hm_append H (hd_headers h) n v\<rparr>) else None)"

definition builder_extension :: "'h builder \<Rightarrow> timing \<Rightarrow> 'h builder" where
  "builder_extension b t = map_option (\<lambda>h. h\<lparr>hd_timing := Some t\<rparr>) b"

definition builder_body :: "'h builder \<Rightarrow> response_body \<Rightarrow> 'h response option" where
  "builder_body b body =
     map_option (\<lambda>h. \<lparr>rs_status = hd_status h, rs_headers = hd_headers h,
       rs_timing = hd_timing h, rs_body = body\<rparr>) b"

end
