(* ===== verification/Kino_Responder.thy ===== *)
theory Kino_Responder
  imports Kino_Http
begin

text \<open>
  The response half of a request (\<open>ext/kino/src/response.rs\<close>): the \<open>Responder\<close> record,
  its operations, the invariant every operation keeps, and the race between concurrent
  claimants as a step relation over the atomic actions of \<open>claim\<close>.

  A responder owns the sending ends of two channels: the oneshot that carries the response
  head to hyper and, once a stream is open, the bounded frame channel. \<open>rp_head_tx\<close> and
  \<open>rp_body_tx\<close> say whether the ends are still held; the states of the channels,
  which hyper sees from the other side, are \<open>rp_head\<close> and \<open>rp_frames\<close>.
\<close>

section \<open>Data\<close>

datatype body_abandon = Oversize | TimedOut

text \<open>\<open>FrameResult\<close>: a data frame, or the error that makes hyper abort the connection.\<close>

datatype frame_result = DataFrame bytes | ErrFrame string

definition STREAM_BUFFER :: nat where
  "STREAM_BUFFER = 8"

record ('o, 'c) responder =
  rp_responded :: bool
  rp_body_abandoned :: u8
  rp_head_tx :: bool
  rp_body_tx :: bool
  rp_head :: 'o
  rp_frames :: "'c option"

section \<open>Operations\<close>

definition responder_new :: "('h response, 'o) oneshot \<Rightarrow> ('o, 'c) responder" where
  "responder_new P = \<lparr>rp_responded = False, rp_body_abandoned = 0, rp_head_tx = True,
     rp_body_tx = False, rp_head = os_new P, rp_frames = None\<rparr>"

definition abandon_body :: "body_abandon \<Rightarrow> ('o, 'c) responder \<Rightarrow> ('o, 'c) responder" where
  "abandon_body why r =
     (let code = (case why of Oversize \<Rightarrow> 1 | TimedOut \<Rightarrow> 2) in r\<lparr>rp_body_abandoned := code\<rparr>)"

definition body_abandoned :: "('o, 'c) responder \<Rightarrow> body_abandon option" where
  "body_abandoned r =
     (if rp_body_abandoned r = 1 then Some Oversize
      else if rp_body_abandoned r = 2 then Some TimedOut else None)"

text \<open>
  \<open>claim\<close>: swap the flag, then take the head sender. The result says whether the caller
  now holds the sender.
\<close>

definition claim :: "('o, 'c) responder \<Rightarrow> ('o, 'c) responder \<times> bool" where
  "claim r =
     (if rp_responded r then (r, False)
      else (r\<lparr>rp_responded := True, rp_head_tx := False\<rparr>, rp_head_tx r))"

definition send_response ::
  "('h response, 'o) oneshot \<Rightarrow> 'h response \<Rightarrow> ('o, 'c) responder \<Rightarrow> ('o, 'c) responder \<times> bool" where
  "send_response P resp r =
     (case claim r of
        (r', False) \<Rightarrow> (r', False)
      | (r', True) \<Rightarrow> (case os_send P (rp_head r') resp of (h, ok) \<Rightarrow> (r'\<lparr>rp_head := h\<rparr>, ok)))"

text \<open>
  \<open>send_stream_head\<close>. The result is \<open>None\<close> for the \<open>http::Error\<close> of an invalid head:
  the head sender is dropped by the early return, after the claim. When hyper no longer
  listens, the response is dropped with the receiving end of the frame channel in it.
\<close>

definition send_stream_head ::
  "('h response, 'o) oneshot \<Rightarrow> (frame_result, 'c) flume \<Rightarrow> 'h builder \<Rightarrow> ('o, 'c) responder
     \<Rightarrow> ('o, 'c) responder \<times> bool option" where
  "send_stream_head P F b r =
     (case claim r of
        (r', False) \<Rightarrow> (r', Some False)
      | (r', True) \<Rightarrow>
          (case builder_body b StreamBody of
             None \<Rightarrow> (r'\<lparr>rp_head := os_drop_sender P (rp_head r')\<rparr>, None)
           | Some resp \<Rightarrow>
               (case os_send P (rp_head r') resp of
                  (h, ok) \<Rightarrow>
                    (let ch = ch_bounded F STREAM_BUFFER
                     in (r'\<lparr>rp_head := h, rp_body_tx := True,
                            rp_frames := Some (if ok then ch else ch_drop_receiver F ch)\<rparr>,
                         Some True)))))"

text \<open>\<open>body_sender\<close> clones the frame sender, when a stream is open.\<close>

definition body_sender ::
  "(frame_result, 'c) flume \<Rightarrow> ('o, 'c) responder \<Rightarrow> ('o, 'c) responder \<times> bool" where
  "body_sender F r =
     (if rp_body_tx r then (r\<lparr>rp_frames := map_option (ch_clone_sender F) (rp_frames r)\<rparr>, True)
      else (r, False))"

definition finish_stream :: "(frame_result, 'c) flume \<Rightarrow> ('o, 'c) responder \<Rightarrow> ('o, 'c) responder" where
  "finish_stream F r =
     (if rp_body_tx r
      then r\<lparr>rp_body_tx := False, rp_frames := map_option (ch_drop_sender F) (rp_frames r)\<rparr>
      else r)"

definition plain_response :: "'h header_ops \<Rightarrow> u16 \<Rightarrow> string \<Rightarrow> 'h response" where
  "plain_response H st msg =
     \<lparr>rs_status = st, rs_headers = hm_append H (hm_empty H) ''content-type'' ''text/plain'',
      rs_timing = None, rs_body = FullBody msg\<rparr>"

definition LF :: string where
  "LF = [CHR 0x0A]"

definition internal_server_error :: "'h header_ops \<Rightarrow> 'h response" where
  "internal_server_error H = plain_response H 500 (''Internal Server Error'' @ LF)"

text \<open>
  \<open>respond_500_if_unsent\<close>: the canned 500 before the head; after it, an error frame
  through the frame channel, whose sender is taken and dropped. The frame goes through
  flume's blocking \<open>send\<close>, so on a full channel the call does not return before hyper
  takes a frame: that outcome is \<open>Blocked\<close>.
\<close>

datatype 's outcome = Returns 's | Blocked 's

definition stream_abandoned :: frame_result where
  "stream_abandoned = ErrFrame ''Kino: response abandoned mid-stream''"

definition respond_500_if_unsent ::
  "'h header_ops \<Rightarrow> ('h response, 'o) oneshot \<Rightarrow> (frame_result, 'c) flume
     \<Rightarrow> ('o, 'c) responder \<Rightarrow> ('o, 'c) responder outcome" where
  "respond_500_if_unsent H P F r =
     (case claim r of
        (r', True) \<Rightarrow>
          Returns (r'\<lparr>rp_head := fst (os_send P (rp_head r') (internal_server_error H))\<rparr>)
      | (r', False) \<Rightarrow>
          (if rp_body_tx r'
           then (case rp_frames r' of
                   None \<Rightarrow> Returns (r'\<lparr>rp_body_tx := False\<rparr>)
                 | Some ch \<Rightarrow>
                     (case ch_try_send F ch stream_abandoned of
                        (ch', SendFull _) \<Rightarrow> Blocked (r'\<lparr>rp_body_tx := False, rp_frames := Some ch'\<rparr>)
                      | (ch', _) \<Rightarrow>
                          Returns (r'\<lparr>rp_body_tx := False, rp_frames := Some (ch_drop_sender F ch')\<rparr>)))
           else Returns r'))"

section \<open>The invariant\<close>

text \<open>
  The head sender is held exactly until the claim; an unclaimed head is pending; a claimed
  one never is again; and an open frame sender has a frame channel of capacity
  \<open>STREAM_BUFFER\<close> behind it.
\<close>

definition wf_responder ::
  "('o \<Rightarrow> 'r oneshot_view) \<Rightarrow> ('c \<Rightarrow> nat) \<Rightarrow> ('c \<Rightarrow> nat) \<Rightarrow> ('o, 'c) responder \<Rightarrow> bool" where
  "wf_responder view cap senders r \<longleftrightarrow>
     rp_head_tx r = (\<not> rp_responded r)
     \<and> (view (rp_head r) = Pending \<longleftrightarrow> \<not> rp_responded r)
     \<and> (rp_body_tx r \<longrightarrow> rp_responded r \<and> rp_frames r \<noteq> None)
     \<and> (\<forall>c. rp_frames r = Some c \<longrightarrow> cap c = STREAM_BUFFER \<and> (rp_body_tx r \<longrightarrow> 0 < senders c))"

definition outcome_state :: "'s outcome \<Rightarrow> 's" where
  "outcome_state x = (case x of Returns s \<Rightarrow> s | Blocked s \<Rightarrow> s)"

lemma outcome_state_simps [simp]:
  "outcome_state (Returns s) = s" "outcome_state (Blocked s) = s"
  by (simp_all add: outcome_state_def)

lemma claim_simps [simp]:
  "rp_responded r \<Longrightarrow> claim r = (r, False)"
  "\<not> rp_responded r \<Longrightarrow> claim r = (r\<lparr>rp_responded := True, rp_head_tx := False\<rparr>, rp_head_tx r)"
  by (simp_all add: claim_def)

text \<open>The channels a responder is given: one oneshot, one kind of frame channel.\<close>

locale responder_channels =
  os: oneshot_channel P view listening + fr: flume_channel F items cap senders alive
  for P :: "('h response, 'o) oneshot" and view listening
    and F :: "(frame_result, 'c) flume" and items cap senders alive
begin

abbreviation wf :: "('o, 'c) responder \<Rightarrow> bool" where
  "wf \<equiv> wf_responder view cap senders"

lemma wf_new: "wf (responder_new P)"
  using os.new_view by (auto simp: wf_responder_def responder_new_def)

lemma wf_abandon_body: "wf r \<Longrightarrow> wf (abandon_body why r)"
  by (auto simp: wf_responder_def abandon_body_def)

lemma wf_send_response: "wf r \<Longrightarrow> wf (fst (send_response P resp r))"
  using os.send_not_pending[of "rp_head r" resp]
  by (cases "rp_responded r") (auto simp: wf_responder_def send_response_def split: prod.splits bool.splits)

lemma wf_send_stream_head: "wf r \<Longrightarrow> wf (fst (send_stream_head P F b r))"
proof (cases "rp_responded r")
  case False
  assume wf: "wf r"
  then have p: "view (rp_head r) = Pending" using False by (simp add: wf_responder_def)
  have b: "cap (ch_bounded F STREAM_BUFFER) = STREAM_BUFFER" "senders (ch_bounded F STREAM_BUFFER) = 1"
    using fr.bounded_view[of STREAM_BUFFER] by (simp_all add: STREAM_BUFFER_def)
  show ?thesis
    using wf False p os.send_not_pending[OF p] os.drop_sender_view[OF p] b
    by (auto simp: wf_responder_def send_stream_head_def Let_def
        split: prod.splits option.splits) (metis fst_conv)+
qed (auto simp: send_stream_head_def)

lemma wf_body_sender: "wf r \<Longrightarrow> wf (fst (body_sender F r))"
  by (auto simp: wf_responder_def body_sender_def)

lemma wf_finish_stream: "wf r \<Longrightarrow> wf (finish_stream F r)"
  by (auto simp: wf_responder_def finish_stream_def)

lemma wf_respond_500: "wf r \<Longrightarrow> wf (outcome_state (respond_500_if_unsent H P F r))"
proof (cases "rp_responded r")
  case False
  assume wf: "wf r"
  then have p: "view (rp_head r) = Pending" using False by (simp add: wf_responder_def)
  show ?thesis
    using wf False os.send_not_pending[OF p]
    by (auto simp: wf_responder_def respond_500_if_unsent_def)
next
  case True
  assume wf: "wf r"
  have cap: "cap ch' = cap ch" if "ch_try_send F ch x = (ch', res)" "0 < cap ch" for ch x ch' res
    using fr.send_SentD[of ch x ch'] fr.send_not_Sent[of ch x ch' res] that by (cases "res = Sent") auto
  show ?thesis
    using wf True cap
    by (auto simp: wf_responder_def respond_500_if_unsent_def STREAM_BUFFER_def
        split: option.splits prod.splits send_result.splits)
qed

end

interpretation ref_responder:
  responder_channels cell_oneshot cell_view cell_listening list_flume lc_items lc_cap lc_senders lc_alive
  by unfold_locales

section \<open>Sequences of operations: the first answer wins\<close>

text \<open>
  Everything the parties that share a responder can do to it: the app (\<open>OpSend\<close>,
  \<open>OpStream\<close>, \<open>OpBodySender\<close>, \<open>OpFinish\<close>), the body forwarder (\<open>OpAbandon\<close>), and
  the supervisor or the drop backstop (\<open>OpAbort\<close>).
\<close>

datatype 'h responder_op =
  OpAbandon body_abandon
| OpSend "'h response"
| OpStream "'h builder"
| OpBodySender
| OpFinish
| OpAbort

fun responder_apply ::
  "'h header_ops \<Rightarrow> ('h response, 'o) oneshot \<Rightarrow> (frame_result, 'c) flume
     \<Rightarrow> 'h responder_op \<Rightarrow> ('o, 'c) responder \<Rightarrow> ('o, 'c) responder" where
  "responder_apply H P F (OpAbandon why) r = abandon_body why r"
| "responder_apply H P F (OpSend resp) r = fst (send_response P resp r)"
| "responder_apply H P F (OpStream b) r = fst (send_stream_head P F b r)"
| "responder_apply H P F OpBodySender r = fst (body_sender F r)"
| "responder_apply H P F OpFinish r = finish_stream F r"
| "responder_apply H P F OpAbort r = outcome_state (respond_500_if_unsent H P F r)"

definition responder_run ::
  "'h header_ops \<Rightarrow> ('h response, 'o) oneshot \<Rightarrow> (frame_result, 'c) flume
     \<Rightarrow> 'h responder_op list \<Rightarrow> ('o, 'c) responder \<Rightarrow> ('o, 'c) responder" where
  "responder_run H P F ops r = fold (responder_apply H P F) ops r"

text \<open>
  The abstract specification: what hyper receives is decided by the first operation that
  answers. An invalid stream head closes the oneshot without a value.
\<close>

fun first_answer :: "'h header_ops \<Rightarrow> 'h responder_op list \<Rightarrow> 'h response oneshot_view" where
  "first_answer H [] = Pending"
| "first_answer H (OpSend resp # ops) = Delivered resp"
| "first_answer H (OpStream b # ops) =
     (case builder_body b StreamBody of None \<Rightarrow> Closed | Some resp \<Rightarrow> Delivered resp)"
| "first_answer H (OpAbort # ops) = Delivered (internal_server_error H)"
| "first_answer H (OpAbandon why # ops) = first_answer H ops"
| "first_answer H (OpBodySender # ops) = first_answer H ops"
| "first_answer H (OpFinish # ops) = first_answer H ops"

lemma responder_run_simps [simp]:
  "responder_run H P F [] r = r"
  "responder_run H P F (x # xs) r = responder_run H P F xs (responder_apply H P F x r)"
  by (simp_all add: responder_run_def)

lemma apply_responded:
  "rp_responded r \<Longrightarrow>
     rp_responded (responder_apply H P F x r) \<and> rp_head (responder_apply H P F x r) = rp_head r"
  by (cases x) (auto simp: abandon_body_def send_response_def send_stream_head_def body_sender_def
      finish_stream_def respond_500_if_unsent_def Let_def
      split: option.splits prod.splits send_result.splits)

lemma run_responded:
  "rp_responded r \<Longrightarrow> rp_head (responder_run H P F ops r) = rp_head r"
  by (induction ops arbitrary: r) (auto simp: apply_responded)

context responder_channels
begin

lemma wf_apply: "wf r \<Longrightarrow> wf (responder_apply H P F x r)"
  by (cases x) (auto intro: wf_abandon_body wf_send_response wf_send_stream_head wf_body_sender
      wf_finish_stream wf_respond_500)

lemma wf_run: "wf r \<Longrightarrow> wf (responder_run H P F ops r)"
  by (induction ops arbitrary: r) (auto intro: wf_apply)

lemma fresh_sends:
  assumes "wf r" "\<not> rp_responded r" "listening (rp_head r)"
  obtains h where "os_send P (rp_head r) resp = (h, True)" "view h = Delivered resp"
  using assms os.send_view[of "rp_head r" resp] that by (auto simp: wf_responder_def)

lemma run_first_answer:
  "wf r \<Longrightarrow> \<not> rp_responded r \<Longrightarrow> listening (rp_head r)
    \<Longrightarrow> view (rp_head (responder_run H P F ops r)) = first_answer H ops"
proof (induction H ops arbitrary: r rule: first_answer.induct)
  case (2 H resp ops)
  obtain h where "os_send P (rp_head r) resp = (h, True)" "view h = Delivered resp" by (rule fresh_sends[OF 2])
  with 2 show ?case by (simp add: send_response_def run_responded wf_responder_def)
next
  case (3 H b ops)
  show ?case
  proof (cases "builder_body b StreamBody")
    case None
    with 3 show ?thesis
      using os.drop_sender_view[of "rp_head r"] by (simp add: send_stream_head_def run_responded wf_responder_def)
  next
    case (Some resp)
    obtain h where "os_send P (rp_head r) resp = (h, True)" "view h = Delivered resp" by (rule fresh_sends[OF 3])
    with 3 Some show ?thesis by (simp add: send_stream_head_def run_responded wf_responder_def Let_def)
  qed
next
  case (4 H ops)
  obtain h where "os_send P (rp_head r) (internal_server_error H) = (h, True)"
    "view h = Delivered (internal_server_error H)" by (rule fresh_sends[OF 4])
  with 4 show ?case by (simp add: respond_500_if_unsent_def run_responded wf_responder_def)
next
  case (5 H v ops)
  have "view (rp_head (responder_run H P F ops (abandon_body v r))) = first_answer H ops"
    by (rule "5.IH") (use "5.prems" in \<open>auto simp: abandon_body_def wf_responder_def\<close>)
  then show ?case by simp
qed (auto simp: wf_responder_def body_sender_def finish_stream_def)

lemma new_first_answer:
  "view (rp_head (responder_run H P F ops (responder_new P))) = first_answer H ops"
proof (rule run_first_answer)
  show "wf (responder_new P)" by (rule wf_new)
  show "\<not> rp_responded (responder_new P)" by (simp add: responder_new_def)
  show "listening (rp_head (responder_new P))" using os.new_view by (simp add: responder_new_def)
qed

text \<open>Aborting an open stream: the error frame is the last one, and a full channel blocks.\<close>

lemma abort_stream:
  assumes wf: "wf r" and tx: "rp_body_tx r" and ch: "rp_frames r = Some ch"
  shows "if alive ch \<and> STREAM_BUFFER \<le> length (items ch)
    then respond_500_if_unsent H P F r = Blocked (r\<lparr>rp_body_tx := False\<rparr>)
    else \<exists>ch'. respond_500_if_unsent H P F r = Returns (r\<lparr>rp_body_tx := False, rp_frames := Some ch'\<rparr>)
      \<and> senders ch' = senders ch - 1
      \<and> items ch' = (if alive ch then items ch @ [stream_abandoned] else items ch)"
proof -
  from assms have resp: "rp_responded r" and c8: "cap ch = STREAM_BUFFER"
    by (auto simp: wf_responder_def)
  then have pos: "0 < cap ch" by (simp add: STREAM_BUFFER_def)
  consider (full) "alive ch" "cap ch \<le> length (items ch)"
    | (room) "alive ch" "length (items ch) < cap ch" | (dead) "\<not> alive ch"
    by linarith
  then show ?thesis
  proof cases
    case full
    with fr.send_full[OF pos] resp tx ch c8 show ?thesis
      by (simp add: respond_500_if_unsent_def)
  next
    case room
    with fr.send_room[OF pos] obtain c' where
      "ch_try_send F ch stream_abandoned = (c', Sent)" "items c' = items ch @ [stream_abandoned]"
      "senders c' = senders ch" by blast
    with resp tx ch c8 room show ?thesis
      by (simp add: respond_500_if_unsent_def exI[of _ "ch_drop_sender F c'"])
  next
    case dead
    with fr.send_dead resp tx ch show ?thesis
      by (simp add: respond_500_if_unsent_def exI[of _ "ch_drop_sender F ch"])
  qed
qed

end

section \<open>Concurrent claimants\<close>

text \<open>
  \<open>claim\<close> is two atomic actions, the swap of \<open>responded\<close> and the locked take of \<open>head_tx\<close>;
  the winner then sends its response, or, for a streaming head, stores the frame sender
  and sends the head; an abort that loses takes the frame sender and sends an error frame
  with the lock held. Any number of threads (numbered by \<^typ>\<open>nat\<close>) run these calls, each
  with the response it wants to send (for a streaming head that does not build, none); a
  step is one atomic action of one thread.
\<close>

datatype 'r claimant = SendClaim 'r | StreamClaim "'r option" | AbortClaim 'r

text \<open>
  Where a caller is: before its swap; past a swap it won; holding the head sender; a streaming
  head with its frame sender stored; an abort that lost the claim and looks for a stream; an
  abort sending its error frame, with the lock of \<open>body_tx\<close> held until the frame is in; done,
  and whether it delivered a head.
\<close>

datatype 'r claim_pc =
  CallIdle | Swapped "'r claimant" | Holding "'r claimant" | Opened 'r | Cutting | Erring | CallDone bool

text \<open>\<open>cs_closed\<close>: the head sender was dropped unused. \<open>cs_stream\<close>: \<open>body_tx\<close> is there. \<open>cs_errors\<close>: error frames sent.\<close>

record 'r claim_sys =
  cs_responded :: bool
  cs_head_tx :: bool
  cs_stream :: bool
  cs_sent :: "'r list"
  cs_closed :: bool
  cs_errors :: nat
  cs_pc :: "nat \<Rightarrow> 'r claim_pc"

definition claim_init :: "'r claim_sys \<Rightarrow> bool" where
  "claim_init s \<longleftrightarrow> \<not> cs_responded s \<and> cs_head_tx s \<and> \<not> cs_stream s \<and> cs_sent s = [] \<and> \<not> cs_closed s
     \<and> cs_errors s = 0 \<and> (\<forall>i. cs_pc s i = CallIdle)"

definition body_unlocked :: "'r claim_sys \<Rightarrow> bool" where
  "body_unlocked s \<longleftrightarrow> (\<forall>i. cs_pc s i \<noteq> Erring)"

text \<open>\<open>finish\<close> is \<open>finish_stream\<close>, by anybody and at any time.\<close>

inductive claim_step :: "'r claim_sys \<Rightarrow> 'r claim_sys \<Rightarrow> bool" where
  swap_lost: "cs_pc s i = CallIdle \<Longrightarrow> cs_responded s
    \<Longrightarrow> claim_step s (s\<lparr>cs_pc := (cs_pc s)(i := CallDone False)\<rparr>)"
| abort_lost: "cs_pc s i = CallIdle \<Longrightarrow> cs_responded s
    \<Longrightarrow> claim_step s (s\<lparr>cs_pc := (cs_pc s)(i := Cutting)\<rparr>)"
| swap_won: "cs_pc s i = CallIdle \<Longrightarrow> \<not> cs_responded s
    \<Longrightarrow> claim_step s (s\<lparr>cs_responded := True, cs_pc := (cs_pc s)(i := Swapped a)\<rparr>)"
| take_none: "cs_pc s i = Swapped a \<Longrightarrow> \<not> cs_head_tx s
    \<Longrightarrow> claim_step s (s\<lparr>cs_pc := (cs_pc s)(i := case a of AbortClaim r \<Rightarrow> Cutting | _ \<Rightarrow> CallDone False)\<rparr>)"
| take_some: "cs_pc s i = Swapped a \<Longrightarrow> cs_head_tx s
    \<Longrightarrow> claim_step s (s\<lparr>cs_head_tx := False, cs_pc := (cs_pc s)(i := Holding a)\<rparr>)"
| deliver: "cs_pc s i \<in> {Holding (SendClaim r), Holding (AbortClaim r), Opened r}
    \<Longrightarrow> claim_step s (s\<lparr>cs_sent := cs_sent s @ [r], cs_pc := (cs_pc s)(i := CallDone True)\<rparr>)"
| build_error: "cs_pc s i = Holding (StreamClaim None)
    \<Longrightarrow> claim_step s (s\<lparr>cs_closed := True, cs_pc := (cs_pc s)(i := CallDone False)\<rparr>)"
| open_body: "cs_pc s i = Holding (StreamClaim (Some r)) \<Longrightarrow> body_unlocked s
    \<Longrightarrow> claim_step s (s\<lparr>cs_stream := True, cs_pc := (cs_pc s)(i := Opened r)\<rparr>)"
| cut_none: "cs_pc s i = Cutting \<Longrightarrow> body_unlocked s \<Longrightarrow> \<not> cs_stream s
    \<Longrightarrow> claim_step s (s\<lparr>cs_pc := (cs_pc s)(i := CallDone False)\<rparr>)"
| cut_some: "cs_pc s i = Cutting \<Longrightarrow> body_unlocked s \<Longrightarrow> cs_stream s
    \<Longrightarrow> claim_step s (s\<lparr>cs_stream := False, cs_pc := (cs_pc s)(i := Erring)\<rparr>)"
| send_error: "cs_pc s i = Erring
    \<Longrightarrow> claim_step s (s\<lparr>cs_errors := cs_errors s + 1, cs_pc := (cs_pc s)(i := CallDone False)\<rparr>)"
| finish: "body_unlocked s \<Longrightarrow> claim_step s (s\<lparr>cs_stream := False\<rparr>)"

text \<open>
  Before the first swap nobody has moved. After it there is one winner \<open>w\<close>, everybody else
  has not started, has lost or is cutting a stream, and the head sender and what was
  sent follow the winner's progress. A stream is cut once at most.
\<close>

definition unopened :: "'r claim_sys \<Rightarrow> bool" where
  "unopened s \<longleftrightarrow> \<not> cs_stream s \<and> cs_errors s = 0 \<and> body_unlocked s"

definition claim_phase :: "'r claim_sys \<Rightarrow> nat \<Rightarrow> bool" where
  "claim_phase s w \<longleftrightarrow>
     (\<forall>i. i \<noteq> w \<longrightarrow> cs_pc s i \<in> {CallIdle, Cutting, Erring, CallDone False})
     \<and> (case cs_pc s w of
          Swapped a \<Rightarrow> cs_head_tx s \<and> cs_sent s = [] \<and> \<not> cs_closed s \<and> unopened s
        | Holding a \<Rightarrow> \<not> cs_head_tx s \<and> cs_sent s = [] \<and> \<not> cs_closed s \<and> unopened s
        | Opened r \<Rightarrow> \<not> cs_head_tx s \<and> cs_sent s = [] \<and> \<not> cs_closed s
        | CallDone True \<Rightarrow> \<not> cs_head_tx s \<and> length (cs_sent s) = 1 \<and> \<not> cs_closed s
        | CallDone False \<Rightarrow> \<not> cs_head_tx s \<and> cs_sent s = [] \<and> cs_closed s \<and> unopened s
        | _ \<Rightarrow> False)"

definition cut_once :: "'r claim_sys \<Rightarrow> bool" where
  "cut_once s \<longleftrightarrow> cs_errors s \<le> 1 \<and> (cs_stream s \<longrightarrow> cs_errors s = 0 \<and> body_unlocked s)
     \<and> (\<forall>i. cs_pc s i = Erring \<longrightarrow> cs_errors s = 0 \<and> (\<forall>j. cs_pc s j = Erring \<longrightarrow> j = i))"

definition claim_inv :: "'r claim_sys \<Rightarrow> bool" where
  "claim_inv s \<longleftrightarrow> cut_once s \<and> (claim_init s \<or> cs_responded s \<and> (\<exists>w. claim_phase s w))"

lemma claim_inv_moving:
  assumes "claim_inv s" "cs_pc s i = Swapped a \<or> cs_pc s i = Holding a \<or> cs_pc s i = Opened r"
  shows "cs_responded s \<and> claim_phase s i"
proof -
  have "\<not> claim_init s" using assms(2) by (auto simp: claim_init_def)
  with assms(1) obtain w where "cs_responded s" "claim_phase s w" by (auto simp: claim_inv_def)
  moreover have "i = w" using assms(2) \<open>claim_phase s w\<close> by (auto simp: claim_phase_def)
  ultimately show ?thesis by simp
qed

lemma claim_responded: "claim_inv s \<Longrightarrow> cs_pc s i \<noteq> CallIdle \<Longrightarrow> cs_responded s"
  by (auto simp: claim_inv_def claim_init_def)

text \<open>A move of a caller that has lost the claim, and one of the winner.\<close>

lemma loser_inv:
  assumes "claim_inv s" "cs_responded s" "cs_pc s i \<in> {CallIdle, Cutting, Erring}"
    and "cs_pc s' = (cs_pc s)(i := pc)" "pc \<in> {Cutting, Erring, CallDone False}"
    "cs_responded s' = cs_responded s" "cs_head_tx s' = cs_head_tx s" "cs_sent s' = cs_sent s" "cs_closed s' = cs_closed s"
    and "unopened s \<Longrightarrow> unopened s'" "cut_once s'"
  shows "claim_inv s'"
proof -
  obtain w where w: "claim_phase s w" using assms(1,2) by (auto simp: claim_inv_def claim_init_def)
  have "w \<noteq> i" using assms(3) w by (auto simp: claim_phase_def)
  have "claim_phase s' w"
    unfolding claim_phase_def
  proof
    show "\<forall>j. j \<noteq> w \<longrightarrow> cs_pc s' j \<in> {CallIdle, Cutting, Erring, CallDone False}"
      using w assms(4,5) by (auto simp: claim_phase_def)
    have "cs_pc s' w = cs_pc s w" using assms(4) \<open>w \<noteq> i\<close> by simp
    with w assms(7-10) show "case cs_pc s' w of
        Swapped a \<Rightarrow> cs_head_tx s' \<and> cs_sent s' = [] \<and> \<not> cs_closed s' \<and> unopened s'
      | Holding a \<Rightarrow> \<not> cs_head_tx s' \<and> cs_sent s' = [] \<and> \<not> cs_closed s' \<and> unopened s'
      | Opened r \<Rightarrow> \<not> cs_head_tx s' \<and> cs_sent s' = [] \<and> \<not> cs_closed s'
      | CallDone True \<Rightarrow> \<not> cs_head_tx s' \<and> length (cs_sent s') = 1 \<and> \<not> cs_closed s'
      | CallDone False \<Rightarrow> \<not> cs_head_tx s' \<and> cs_sent s' = [] \<and> cs_closed s' \<and> unopened s'
      | _ \<Rightarrow> False"
      by (simp add: claim_phase_def split: claim_pc.splits bool.splits)
  qed
  with assms(2,6,11) show ?thesis by (auto simp: claim_inv_def)
qed

lemma winner_inv: "cs_responded s \<Longrightarrow> claim_phase s i \<Longrightarrow> cut_once s \<Longrightarrow> claim_inv s"
  by (auto simp: claim_inv_def)

text \<open>Steps that do not touch the stream.\<close>

lemma quiet_pc:
  assumes "cs_pc s' = (cs_pc s)(i := pc)" "pc \<noteq> Erring" "cs_pc s i \<noteq> Erring" "cs_errors s' = cs_errors s"
    "cs_stream s' = cs_stream s"
  shows "cut_once s' = cut_once s" "unopened s' = unopened s"
proof -
  have e: "(cs_pc s' j = Erring) = (cs_pc s j = Erring)" for j using assms(1-3) by simp
  show "cut_once s' = cut_once s" "unopened s' = unopened s"
    unfolding cut_once_def unopened_def body_unlocked_def e assms(4,5) by (rule refl)+
qed

text \<open>Closing the stream's sender, under the lock of the body, keeps every claimant's phase.\<close>

lemma finish_inv:
  fixes s :: "'a claim_sys"
  defines "t \<equiv> s\<lparr>cs_stream := False\<rparr>"
  assumes "claim_inv s" and "body_unlocked s"
  shows "claim_inv t"
proof -
  have "unopened s \<Longrightarrow> unopened t" by (simp add: t_def unopened_def body_unlocked_def)
  then have "claim_phase s w \<Longrightarrow> claim_phase t w" for w
    by (simp add: t_def claim_phase_def split: claim_pc.splits bool.splits)
  moreover have "cut_once t" using assms by (simp add: t_def claim_inv_def cut_once_def body_unlocked_def)
  moreover have "claim_init s \<Longrightarrow> claim_init t" by (simp add: t_def claim_init_def)
  ultimately show ?thesis using assms(2) by (auto simp: t_def claim_inv_def)
qed

lemma claim_step_inv: "claim_step s t \<Longrightarrow> claim_inv s \<Longrightarrow> claim_inv t"
proof (induction rule: claim_step.induct)
  case (swap_won s i a)
  then have "claim_init s" by (auto simp: claim_inv_def)
  then show ?case
    by (intro winner_inv[of _ i]) (auto simp: claim_phase_def claim_init_def unopened_def body_unlocked_def cut_once_def)
next
  case (swap_lost s i)
  let ?s = "s\<lparr>cs_pc := (cs_pc s)(i := CallDone False)\<rparr>"
  from swap_lost show ?case
    using quiet_pc[of ?s s i "CallDone False"] by (intro loser_inv[where s' = ?s, OF swap_lost(3,2)]) (auto simp: claim_inv_def)
next
  case (abort_lost s i)
  let ?s = "s\<lparr>cs_pc := (cs_pc s)(i := Cutting)\<rparr>"
  from abort_lost show ?case
    using quiet_pc[of ?s s i Cutting] by (intro loser_inv[where s' = ?s, OF abort_lost(3,2)]) (auto simp: claim_inv_def)
next
  case (take_none s i a)
  with claim_inv_moving[of s i a] show ?case by (auto simp: claim_phase_def)
next
  case (take_some s i a)
  let ?s = "s\<lparr>cs_head_tx := False, cs_pc := (cs_pc s)(i := Holding a)\<rparr>"
  from take_some claim_inv_moving[of s i a] show ?case
    using quiet_pc[of ?s s i "Holding a"] by (intro winner_inv[of _ i]) (auto simp: claim_inv_def claim_phase_def)
next
  case (deliver s i r)
  let ?s = "s\<lparr>cs_sent := cs_sent s @ [r], cs_pc := (cs_pc s)(i := CallDone True)\<rparr>"
  from deliver have "cs_responded s" "claim_phase s i" using claim_inv_moving[of s i _ r] by auto
  with deliver show ?case
    using quiet_pc[of ?s s i "CallDone True"] by (intro winner_inv[of _ i]) (auto simp: claim_inv_def claim_phase_def)
next
  case (build_error s i)
  let ?s = "s\<lparr>cs_closed := True, cs_pc := (cs_pc s)(i := CallDone False)\<rparr>"
  from build_error claim_inv_moving[of s i "StreamClaim None"] show ?case
    using quiet_pc[of ?s s i "CallDone False"] by (intro winner_inv[of _ i]) (auto simp: claim_inv_def claim_phase_def)
next
  case (open_body s i r)
  with claim_inv_moving[of s i "StreamClaim (Some r)"] show ?case
    by (intro winner_inv[of _ i]) (auto simp: claim_phase_def cut_once_def unopened_def body_unlocked_def)
next
  case (cut_none s i)
  let ?s = "s\<lparr>cs_pc := (cs_pc s)(i := CallDone False)\<rparr>"
  from cut_none claim_responded[of s i] show ?case
    using quiet_pc[of ?s s i "CallDone False"] by (intro loser_inv[where s' = ?s, OF cut_none(4)]) (auto simp: claim_inv_def)
next
  case (cut_some s i)
  with claim_responded[of s i] show ?case
    by (intro loser_inv[OF cut_some(4), of i]) (auto simp: claim_inv_def cut_once_def unopened_def body_unlocked_def)
next
  case (send_error s i)
  with claim_responded[of s i] show ?case
    by (intro loser_inv[OF send_error(2), of i]) (auto simp: claim_inv_def cut_once_def unopened_def body_unlocked_def)
next
  case (finish s)
  then show ?case by (rule finish_inv[rotated])
qed

interpretation claim_race: invariant_system claim_init claim_step claim_inv
proof
  show "claim_inv s" if "claim_init s" for s :: "'a claim_sys"
    using that by (simp add: claim_inv_def claim_init_def cut_once_def)
qed (rule claim_step_inv)

section \<open>Properties\<close>

text \<open>
  C2: whatever the app, the forwarder, the supervisor and the drop backstop do to a
  fresh responder, and in whatever order, hyper receives exactly the answer of the first
  operation that answers: the app's response, the streaming head, the canned 500 of an
  abort, or, for a streaming head that does not build, a closed oneshot.
\<close>

theorem responder_first_answer_wins:
  assumes "oneshot_channel P view listening"
    and "flume_channel F items cap senders alive"
  shows "view (rp_head (responder_run H P F ops (responder_new P))) = first_answer H ops"
  by (rule responder_channels.new_first_answer[OF responder_channels.intro[OF assms]])

theorem responder_first_answer_wins_witness:
  "cell_view (rp_head (responder_run list_headers cell_oneshot list_flume
      [OpAbandon TimedOut, OpSend (plain_response list_headers 200 ''ok''), OpAbort,
       OpSend (plain_response list_headers 201 ''late'')] (responder_new cell_oneshot)))
    = Delivered (plain_response list_headers 200 ''ok'')"
  using responder_first_answer_wins[OF cell_os.oneshot_channel_axioms list_ch.flume_channel_axioms,
      of list_headers "[OpAbandon TimedOut, OpSend (plain_response list_headers 200 ''ok''), OpAbort,
       OpSend (plain_response list_headers 201 ''late'')]"]
  by simp

text \<open>
  C12: with any number of concurrent claimants interleaved at their atomic actions, at
  most one head is ever sent and at most one caller is told that it answered; when nobody
  is inside a call but some call has finished, exactly one head was sent, or the one claimed
  did not build and the client's channel was closed; and a stream gets one error frame at most,
  after which it is no longer open.
\<close>

theorem concurrent_claim_exactly_once:
  assumes "reach claim_init claim_step s"
  shows "length (cs_sent s) + of_bool (cs_closed s) \<le> 1
    \<and> (\<forall>i j. cs_pc s i = CallDone True \<longrightarrow> cs_pc s j = CallDone True \<longrightarrow> i = j)
    \<and> ((\<forall>i. cs_pc s i = CallIdle \<or> (\<exists>b. cs_pc s i = CallDone b)) \<longrightarrow> (\<exists>i. cs_pc s i \<noteq> CallIdle)
        \<longrightarrow> length (cs_sent s) + of_bool (cs_closed s) = 1)
    \<and> cs_errors s \<le> 1 \<and> (cs_stream s \<longrightarrow> cs_errors s = 0)"
proof -
  note inv = claim_race.reach_Inv[OF assms]
  then have cut: "cs_errors s \<le> 1 \<and> (cs_stream s \<longrightarrow> cs_errors s = 0)" by (simp add: claim_inv_def cut_once_def)
  from inv consider "claim_init s" | w where "claim_phase s w" by (auto simp: claim_inv_def)
  then show ?thesis
  proof cases
    case 1
    with cut show ?thesis by (simp add: claim_init_def)
  next
    case (2 w)
    then have "i = w" if "cs_pc s i = CallDone True" for i
      using that by (auto simp: claim_phase_def)
    moreover have "length (cs_sent s) + of_bool (cs_closed s) \<le> 1"
      using 2 by (simp add: claim_phase_def split: claim_pc.splits bool.splits)
    moreover have "length (cs_sent s) + of_bool (cs_closed s) = 1"
      if "\<forall>i. cs_pc s i = CallIdle \<or> (\<exists>b. cs_pc s i = CallDone b)"
      using 2 that[rule_format, of w] by (auto simp: claim_phase_def split: bool.splits)
    ultimately show ?thesis using cut by blast
  qed
qed

text \<open>
  A streaming head and an abort: the abort loses the claim and looks for a stream before the
  head's call has stored the frame sender.
\<close>

definition claim_start :: "nat claim_sys" where
  "claim_start = \<lparr>cs_responded = False, cs_head_tx = True, cs_stream = False, cs_sent = [], cs_closed = False,
     cs_errors = 0, cs_pc = (\<lambda>_. CallIdle)\<rparr>"

definition claim_end :: "nat claim_sys" where
  "claim_end = \<lparr>cs_responded = True, cs_head_tx = False, cs_stream = True, cs_sent = [7], cs_closed = False,
     cs_errors = 0, cs_pc = (\<lambda>_. CallIdle)(0 := CallDone True, 1 := CallDone False)\<rparr>"

lemma claim_end_reachable: "reach claim_init claim_step claim_end"
proof -
  let ?a = "StreamClaim (Some (7 :: nat))"
  let ?s1 = "claim_start\<lparr>cs_responded := True, cs_pc := (cs_pc claim_start)(0 := Swapped ?a)\<rparr>"
  let ?s2 = "?s1\<lparr>cs_head_tx := False, cs_pc := (cs_pc ?s1)(0 := Holding ?a)\<rparr>"
  let ?s3 = "?s2\<lparr>cs_pc := (cs_pc ?s2)(1 := Cutting)\<rparr>"
  let ?s4 = "?s3\<lparr>cs_pc := (cs_pc ?s3)(1 := CallDone False)\<rparr>"
  let ?s5 = "?s4\<lparr>cs_stream := True, cs_pc := (cs_pc ?s4)(0 := Opened 7)\<rparr>"
  let ?s6 = "?s5\<lparr>cs_sent := cs_sent ?s5 @ [7], cs_pc := (cs_pc ?s5)(0 := CallDone True)\<rparr>"
  have "reach claim_init claim_step claim_start"
    by (rule reach_init) (simp add: claim_init_def claim_start_def)
  then have "reach claim_init claim_step ?s1"
    by (rule reach_step) (rule claim_step.swap_won; simp add: claim_start_def)
  then have "reach claim_init claim_step ?s2"
    by (rule reach_step) (rule claim_step.take_some[where a = ?a]; simp add: claim_start_def)
  then have "reach claim_init claim_step ?s3"
    by (rule reach_step) (rule claim_step.abort_lost; simp add: claim_start_def)
  then have "reach claim_init claim_step ?s4"
    by (rule reach_step) (rule claim_step.cut_none; simp add: claim_start_def body_unlocked_def)
  then have "reach claim_init claim_step ?s5"
    by (rule reach_step) (rule claim_step.open_body; simp add: claim_start_def body_unlocked_def)
  then have "reach claim_init claim_step ?s6"
    by (rule reach_step) (rule claim_step.deliver; simp add: claim_start_def)
  moreover have "?s6 = claim_end" by (simp add: claim_start_def claim_end_def fun_eq_iff)
  ultimately show ?thesis by simp
qed

theorem concurrent_claim_exactly_once_witness:
  "reach claim_init claim_step claim_end \<and> cs_pc claim_end 0 = CallDone True
     \<and> cs_pc claim_end 1 = CallDone False \<and> length (cs_sent claim_end) = 1"
proof -
  have "\<forall>i. cs_pc claim_end i = CallIdle \<or> (\<exists>b. cs_pc claim_end i = CallDone b)"
    by (simp add: claim_end_def) blast
  moreover have "cs_pc claim_end 0 \<noteq> CallIdle" by (simp add: claim_end_def)
  ultimately have "length (cs_sent claim_end) + of_bool (cs_closed claim_end) = 1"
    using concurrent_claim_exactly_once[OF claim_end_reachable] by blast
  with claim_end_reachable show ?thesis by (simp add: claim_end_def)
qed

text \<open>
  So an abort may return having done nothing while the stream it was to cut is opened after
  it, and stays open.
\<close>

lemma abort_misses_opening_stream:
  "\<exists>s :: nat claim_sys. reach claim_init claim_step s \<and> cs_pc s 1 = CallDone False \<and> cs_stream s
     \<and> cs_errors s = 0 \<and> (\<forall>i. cs_pc s i = CallIdle \<or> (\<exists>b. cs_pc s i = CallDone b))"
  using claim_end_reachable by (intro exI[of _ claim_end]) (simp add: claim_end_def, blast)



end
