(* ===== verification/Kino_Registry.thy ===== *)
theory Kino_Registry
  imports Kino_Pin Kino_Responder
begin

text \<open>
  The server registry (\<open>ext/kino/src/registry.rs\<close>): the queue-wait histogram, the worker
  slots with their lanes, the state of one server, the teardown of its I/O threads, and the
  table that resolves a server id.

  A slot's lane is one flume channel: \<open>sl_lane\<close> is the channel (the receiver is held for the
  slot's lifetime) and \<open>sl_lane_tx\<close> says whether the slot still holds its sender. The request
  queue of a server is modelled the same way by \<open>sv_req\<close> and \<open>sv_req_tx\<close>. A weak
  reference to a responder is its number in the store of responders.
\<close>

section \<open>The queue-wait histogram\<close>

definition QUEUE_BOUNDS_US :: "u64 list" where
  "QUEUE_BOUNDS_US = [500, 1000, 2500, 5000, 10000, 25000, 50000, 100000, 250000, 500000, 1000000,
     2500000, 5000000, 10000000]"

record queue_histogram =
  qh_buckets :: "u64 list"
  qh_overflow :: u64
  qh_sum_us :: u64
  qh_count :: u64

definition histogram_new :: queue_histogram where
  "histogram_new = \<lparr>qh_buckets = replicate (length QUEUE_BOUNDS_US) 0, qh_overflow = 0,
     qh_sum_us = 0, qh_count = 0\<rparr>"

text \<open>\<open>fetch_add\<close> on an \<open>AtomicU64\<close> wraps.\<close>

definition histogram_record :: "u64 \<Rightarrow> queue_histogram \<Rightarrow> queue_histogram" where
  "histogram_record wait_us h =
     (let h' = (case position (\<lambda>bound. wait_us \<le> bound) QUEUE_BOUNDS_US of
                  Some i \<Rightarrow> h\<lparr>qh_buckets := (qh_buckets h)[i := qh_buckets h ! i + 1]\<rparr>
                | None \<Rightarrow> h\<lparr>qh_overflow := qh_overflow h + 1\<rparr>)
      in h'\<lparr>qh_sum_us := qh_sum_us h' + wait_us, qh_count := qh_count h' + 1\<rparr>)"

text \<open>The snapshot reads each counter once; without concurrent records it is a copy.\<close>

definition histogram_snapshot :: "queue_histogram \<Rightarrow> queue_histogram" where
  "histogram_snapshot h =
     \<lparr>qh_buckets = map (\<lambda>i. qh_buckets h ! i) [0..<length QUEUE_BOUNDS_US],
      qh_overflow = qh_overflow h, qh_sum_us = qh_sum_us h, qh_count = qh_count h\<rparr>"

section \<open>Worker slots\<close>

definition LANE_DEPTH :: nat where
  "LANE_DEPTH = 4"

record 'c worker_slot =
  sl_interrupted :: bool
  sl_current :: "nat list"
  sl_lane_tx :: bool
  sl_lane :: "'c option"
  sl_parked :: bool
  sl_parked_at :: u64
  sl_served :: u64
  sl_in_flight :: usize
  sl_last_started_ms :: u64
  sl_quarantined :: bool
  sl_retired :: bool

definition worker_slot_new :: "('x, 'c) flume \<Rightarrow> bool \<Rightarrow> 'c worker_slot" where
  "worker_slot_new F lanes =
     \<lparr>sl_interrupted = False, sl_current = [], sl_lane_tx = lanes,
      sl_lane = (if lanes then Some (ch_bounded F LANE_DEPTH) else None),
      sl_parked = False, sl_parked_at = 0, sl_served = 0, sl_in_flight = 0,
      sl_last_started_ms = 0, sl_quarantined = False, sl_retired = False\<rparr>"

definition retire :: "'c worker_slot \<Rightarrow> 'c worker_slot" where
  "retire s = s\<lparr>sl_retired := True\<rparr>"

definition reset :: "'c worker_slot \<Rightarrow> 'c worker_slot" where
  "reset s = s\<lparr>sl_current := [], sl_retired := False, sl_parked := False, sl_parked_at := 0,
     sl_interrupted := False, sl_served := 0, sl_in_flight := 0, sl_last_started_ms := 0\<rparr>"

section \<open>The server\<close>

definition STATE_BOOTING :: u8 where "STATE_BOOTING = 0"
definition STATE_READY :: u8 where "STATE_READY = 1"
definition STATE_DRAINING :: u8 where "STATE_DRAINING = 2"

record topology =
  tp_mode :: string
  tp_workers :: usize
  tp_max_workers :: usize
  tp_threads :: usize
  tp_batch :: usize

text \<open>
  An I/O thread is described by the time at which it finishes once the teardown signal is
  sent, \<open>None\<close> for one that never does. A tokio runtime is not described further.
\<close>

type_synonym instant = nat
type_synonym io_thread = "instant option"

datatype runtime_handle = NoRuntime | MultiThread | Shards "io_thread list"

text \<open>
  \<open>sv_shutdown\<close> is the value of the watch channel that tells the accept loop to drain;
  \<open>sv_access_log\<close> says whether there is an access log sink.
\<close>

record 'c server_inner =
  sv_id :: u64
  sv_req_tx :: bool
  sv_req :: 'c
  sv_shutdown :: bool
  sv_runtime :: runtime_handle
  sv_slots :: "'c worker_slot list"
  sv_in_flight :: usize
  sv_served :: u64
  sv_rejected :: u64
  sv_queue_timeout_ms :: u64
  sv_request_timeout_ms :: u64
  sv_max_body_size :: usize
  sv_timeouts :: u64
  sv_state :: u8
  sv_respawns :: u64
  sv_quarantine_replacements :: u64
  sv_active_workers :: usize
  sv_scale_ups :: u64
  sv_scale_downs :: u64
  sv_topology :: topology
  sv_https :: bool
  sv_http2 :: bool
  sv_unix_path :: "string option"
  sv_access_log :: bool
  sv_lanes :: bool
  sv_lane_cursor :: usize
  sv_park_seq :: u64
  sv_pin_slab :: pin_slab
  sv_queue_histogram :: queue_histogram

text \<open>
  The boot configuration after \<open>server_start\<close> has read it, defaults filled in, and the
  server it makes of it.
\<close>

record server_config =
  sc_bind :: string
  sc_port :: u16
  sc_queue_depth :: usize
  sc_queue_timeout_ms :: u64
  sc_request_timeout_ms :: u64
  sc_max_body_size :: usize
  sc_max_connections :: usize
  sc_io_shards :: bool
  sc_io_threads :: usize
  sc_tokio_threads :: usize
  sc_tls_cert :: "string option"
  sc_tls_key :: "string option"
  sc_lanes :: bool
  sc_http2 :: bool
  sc_log_requests :: bool
  sc_mode :: string
  sc_workers :: usize
  sc_max_workers :: usize
  sc_threads :: usize
  sc_batch :: usize

definition server_inner_new ::
  "('x, 'c) flume \<Rightarrow> bool \<Rightarrow> server_config \<Rightarrow> bool \<Rightarrow> string option \<Rightarrow> u64 \<Rightarrow> 'c server_inner" where
  "server_inner_new F per_ractor_gc cf https unix_path i =
     \<lparr>sv_id = i, sv_req_tx = True, sv_req = ch_bounded F (unat (sc_queue_depth cf)),
      sv_shutdown = False, sv_runtime = NoRuntime, sv_slots = [], sv_in_flight = 0,
      sv_served = 0, sv_rejected = 0, sv_queue_timeout_ms = sc_queue_timeout_ms cf,
      sv_request_timeout_ms = sc_request_timeout_ms cf, sv_max_body_size = sc_max_body_size cf,
      sv_timeouts = 0, sv_state = STATE_BOOTING, sv_respawns = 0, sv_quarantine_replacements = 0,
      sv_active_workers = sc_workers cf, sv_scale_ups = 0, sv_scale_downs = 0,
      sv_topology = \<lparr>tp_mode = sc_mode cf, tp_workers = sc_workers cf,
        tp_max_workers = sc_max_workers cf, tp_threads = sc_threads cf, tp_batch = sc_batch cf\<rparr>,
      sv_https = https, sv_http2 = sc_http2 cf, sv_unix_path = unix_path,
      sv_access_log = sc_log_requests cf, sv_lanes = sc_lanes cf, sv_lane_cursor = 0,
      sv_park_seq = 0, sv_pin_slab = for_responses per_ractor_gc (sc_mode cf = ''ractor''),
      sv_queue_histogram = histogram_new\<rparr>"

definition lane_depths :: "('x, 'c) flume \<Rightarrow> 'c server_inner \<Rightarrow> nat list option" where
  "lane_depths F sv =
     (if \<not> sv_lanes sv then None
      else Some (List.map_filter (\<lambda>s. map_option (ch_len F) (sl_lane s)) (sv_slots sv)))"

definition queued :: "('x, 'c) flume \<Rightarrow> 'c server_inner \<Rightarrow> nat" where
  "queued F sv =
     ch_len F (sv_req sv) + (case lane_depths F sv of None \<Rightarrow> 0 | Some d \<Rightarrow> sum_list d)"

definition server_register_worker ::
  "('x, 'c) flume \<Rightarrow> 'c server_inner \<Rightarrow> 'c server_inner \<times> nat" where
  "server_register_worker F sv =
     (let slots = sv_slots sv @ [worker_slot_new F (sv_lanes sv)]
      in (sv\<lparr>sv_slots := slots\<rparr>, length slots - 1))"

text \<open>Ruby's \<open>ArgumentError\<close> with its message.\<close>

datatype kino_error = ArgError string | RubyError string

definition slot_ref :: "'c server_inner \<Rightarrow> nat \<Rightarrow> kino_error + 'c worker_slot" where
  "slot_ref sv w =
     (if w < length (sv_slots sv) then Inr (sv_slots sv ! w)
      else Inl (ArgError (''unknown worker '' @ show_nat w)))"

section \<open>Shutdown of the I/O threads\<close>

text \<open>
  The loop that waits for one thread. \<open>over\<close> is what the OS adds to the requested
  millisecond of sleep that starts at a given time; times are in nanoseconds.
\<close>

definition finished :: "io_thread \<Rightarrow> instant \<Rightarrow> bool" where
  "finished th now = (case th of None \<Rightarrow> False | Some f \<Rightarrow> f \<le> now)"

definition poll_sleep :: nat where
  "poll_sleep = 1000000"

function wait_thread :: "(instant \<Rightarrow> nat) \<Rightarrow> instant \<Rightarrow> io_thread \<Rightarrow> instant \<Rightarrow> instant" where
  "wait_thread over deadline th now =
     (if \<not> finished th now \<and> now < deadline
      then wait_thread over deadline th (now + poll_sleep + over now) else now)"
  by auto
termination
  by (relation "measure (\<lambda>(over, deadline, th, now). deadline - now)") (auto simp: poll_sleep_def)

declare wait_thread.simps [simp del]

text \<open>
  \<open>RuntimeHandle::shutdown\<close> for shards: the time at which it returns and, for each
  thread, whether it was joined. Joining a finished thread takes no time.
\<close>

fun join_threads ::
  "(instant \<Rightarrow> nat) \<Rightarrow> instant \<Rightarrow> io_thread list \<Rightarrow> instant \<Rightarrow> instant \<times> bool list" where
  "join_threads over deadline [] now = (now, [])"
| "join_threads over deadline (th # ths) now =
     (let now' = wait_thread over deadline th now;
          (last, joined) = join_threads over deadline ths now'
      in (last, finished th now' # joined))"

text \<open>
  The runtime's own \<open>shutdown_timeout\<close> is tokio's: \<open>rt_shutdown\<close> says when it returns.
\<close>

definition runtime_shutdown ::
  "(instant \<Rightarrow> duration \<Rightarrow> instant) \<Rightarrow> (instant \<Rightarrow> nat) \<Rightarrow> runtime_handle \<Rightarrow> duration \<Rightarrow> instant
     \<Rightarrow> instant \<times> bool list" where
  "runtime_shutdown rt_shutdown over h timeout now =
     (case h of
        NoRuntime \<Rightarrow> (now, [])
      | MultiThread \<Rightarrow> (rt_shutdown now timeout, [])
      | Shards ths \<Rightarrow> join_threads over (now + timeout) ths now)"

section \<open>The table of servers\<close>

record 's registry =
  rg_servers :: "u64 \<Rightarrow> 's option"
  rg_next_id :: u64

definition registry_empty :: "'s registry" where
  "registry_empty = \<lparr>rg_servers = (\<lambda>_. None), rg_next_id = 1\<rparr>"

definition next_server_id :: "'s registry \<Rightarrow> 's registry \<times> u64" where
  "next_server_id g = (g\<lparr>rg_next_id := rg_next_id g + 1\<rparr>, rg_next_id g)"

definition registry_insert :: "'c server_inner \<Rightarrow> 'c server_inner registry \<Rightarrow> 'c server_inner registry" where
  "registry_insert sv g = g\<lparr>rg_servers := (rg_servers g)(sv_id sv \<mapsto> sv)\<rparr>"

definition registry_remove :: "u64 \<Rightarrow> 's registry \<Rightarrow> 's registry \<times> 's option" where
  "registry_remove i g = (g\<lparr>rg_servers := (rg_servers g)(i := None)\<rparr>, rg_servers g i)"

definition try_get :: "u64 \<Rightarrow> 's registry \<Rightarrow> 's option" where
  "try_get i g = rg_servers g i"

definition registry_get :: "u64 \<Rightarrow> 's registry \<Rightarrow> kino_error + 's" where
  "registry_get i g =
     (case rg_servers g i of Some sv \<Rightarrow> Inr sv
      | None \<Rightarrow> Inl (ArgError (''unknown server '' @ show_nat (unat i))))"


text \<open>The contract of a keyed table, and what its clients conclude from it.\<close>

locale keyed_table =
  fixes ins :: "'s \<Rightarrow> 't \<Rightarrow> 't" and rem :: "'k \<Rightarrow> 't \<Rightarrow> 't" and look :: "'k \<Rightarrow> 't \<Rightarrow> 's option"
    and key :: "'s \<Rightarrow> 'k"
  assumes look_ins: "look k (ins x t) = (if k = key x then Some x else look k t)"
    and look_rem: "look k (rem j t) = (if k = j then None else look k t)"
begin

lemma look_ins_rem: "look k (rem (key x) (ins x t)) = (if k = key x then None else look k t)"
  by (simp add: look_ins look_rem)

lemma look_rems: "look k (fold rem js t) = (if k \<in> set js then None else look k t)"
  by (induction js arbitrary: t) (auto simp: look_rem)

text \<open>Writing a value back under its own key changes no other entry.\<close>

lemma look_update:
  "look j t = Some x \<Longrightarrow> key (f x) = j \<Longrightarrow> look k (ins (f x) t) = (if k = j then Some (f x) else look k t)"
  by (auto simp: look_ins)

end

interpretation servers:
  keyed_table registry_insert "\<lambda>i g. fst (registry_remove i g)" try_get sv_id
  by unfold_locales (auto simp: registry_insert_def registry_remove_def try_get_def)

section \<open>Lemmas\<close>

lemma bounds_length [simp]: "length QUEUE_BOUNDS_US = 14"
  by (simp add: QUEUE_BOUNDS_US_def)

definition in_bucket :: "nat \<Rightarrow> u64 \<Rightarrow> bool" where
  "in_bucket i w \<longleftrightarrow> w \<le> QUEUE_BOUNDS_US ! i \<and> (i = 0 \<or> QUEUE_BOUNDS_US ! (i - 1) < w)"

text \<open>The bounds ascend, so the first bound that is large enough delimits the bucket.\<close>

lemma bounds_sorted: "sorted_wrt (<) QUEUE_BOUNDS_US"
  by (simp add: QUEUE_BOUNDS_US_def)

lemma bounds_mono: "i \<le> j \<Longrightarrow> j < 14 \<Longrightarrow> QUEUE_BOUNDS_US ! i \<le> QUEUE_BOUNDS_US ! j"
  using bounds_sorted by (cases "i = j") (auto simp: sorted_wrt_iff_nth_less intro: less_imp_le)

lemma position_bucket:
  assumes "i < 14"
  shows "position (\<lambda>b. w \<le> b) QUEUE_BOUNDS_US = Some i \<longleftrightarrow> in_bucket i w"
proof
  assume "position (\<lambda>b. w \<le> b) QUEUE_BOUNDS_US = Some i"
  from position_SomeD[OF this] show "in_bucket i w"
    by (cases i) (auto simp: in_bucket_def not_le)
next
  assume b: "in_bucket i w"
  have "\<not> w \<le> QUEUE_BOUNDS_US ! j" if "j < i" for j
  proof -
    have "QUEUE_BOUNDS_US ! j \<le> QUEUE_BOUNDS_US ! (i - 1)" using assms that by (intro bounds_mono) auto
    then show ?thesis using b that by (auto simp: in_bucket_def)
  qed
  with b assms show "position (\<lambda>b. w \<le> b) QUEUE_BOUNDS_US = Some i"
    by (intro position_SomeI) (auto simp: in_bucket_def)
qed

lemma record_sum_count:
  "qh_sum_us (histogram_record w h) = qh_sum_us h + w"
  "qh_count (histogram_record w h) = qh_count h + 1"
  "length (qh_buckets (histogram_record w h)) = length (qh_buckets h)"
  by (auto simp: histogram_record_def Let_def split: option.splits)

lemma record_bucket:
  assumes "length (qh_buckets h) = 14" "i < 14"
  shows "qh_buckets (histogram_record w h) ! i = qh_buckets h ! i + of_bool (in_bucket i w)"
proof (cases "position (\<lambda>b. w \<le> b) QUEUE_BOUNDS_US")
  case None
  then show ?thesis
    using position_bucket[OF assms(2), of w] by (simp add: histogram_record_def Let_def del: position_None)
next
  case (Some j)
  then have "in_bucket i w \<longleftrightarrow> i = j"
    using position_bucket[OF assms(2), of w] by auto
  with Some assms show ?thesis
    by (auto simp: histogram_record_def Let_def nth_list_update)
qed

lemma record_overflow:
  "qh_overflow (histogram_record w h) = qh_overflow h + of_bool (QUEUE_BOUNDS_US ! 13 < w)"
proof (cases "QUEUE_BOUNDS_US ! 13 < w")
  case True
  have "\<not> w \<le> b" if b: "b \<in> set QUEUE_BOUNDS_US" for b
  proof -
    obtain i where "i < length QUEUE_BOUNDS_US" "QUEUE_BOUNDS_US ! i = b"
      using b unfolding in_set_conv_nth by blast
    then show ?thesis using bounds_mono[of i 13] True by auto
  qed
  then have "position (\<lambda>b. w \<le> b) QUEUE_BOUNDS_US = None" by simp
  with True show ?thesis by (simp add: histogram_record_def Let_def del: position_None)
next
  case False
  have "\<exists>b \<in> set QUEUE_BOUNDS_US. w \<le> b"
    using False by (intro bexI[of _ "QUEUE_BOUNDS_US ! 13"]) (auto simp: not_less)
  then obtain j where "position (\<lambda>b. w \<le> b) QUEUE_BOUNDS_US = Some j"
    by (cases "position (\<lambda>b. w \<le> b) QUEUE_BOUNDS_US") auto
  with False show ?thesis by (simp add: histogram_record_def Let_def)
qed

lemma histogram_fold:
  "length (qh_buckets h) = 14 \<Longrightarrow>
     length (qh_buckets (fold histogram_record ws h)) = 14
     \<and> (\<forall>i < 14. qh_buckets (fold histogram_record ws h) ! i
          = qh_buckets h ! i + of_nat (length (filter (in_bucket i) ws)))
     \<and> qh_overflow (fold histogram_record ws h)
          = qh_overflow h + of_nat (length (filter (\<lambda>w. QUEUE_BOUNDS_US ! 13 < w) ws))
     \<and> qh_sum_us (fold histogram_record ws h) = qh_sum_us h + sum_list ws
     \<and> qh_count (fold histogram_record ws h) = qh_count h + of_nat (length ws)"
  by (induction ws arbitrary: h) (simp_all add: record_sum_count record_bucket record_overflow)

lemma histogram_new_shape [simp]:
  "length (qh_buckets histogram_new) = 14" "i < 14 \<Longrightarrow> qh_buckets histogram_new ! i = 0"
  "qh_overflow histogram_new = 0" "qh_sum_us histogram_new = 0" "qh_count histogram_new = 0"
  by (simp_all add: histogram_new_def)

lemma snapshot_same: "length (qh_buckets h) = 14 \<Longrightarrow> histogram_snapshot h = h"
  by (simp add: histogram_snapshot_def list_eq_iff_nth_eq)

text \<open>The buckets up to a bound together hold the waits up to it.\<close>

lemma buckets_cumulative:
  "n < 14 \<Longrightarrow>
     (\<Sum>i \<leftarrow> [0..<Suc n]. of_nat (length (filter (in_bucket i) ws)) :: u64)
       = of_nat (length (filter (\<lambda>w. w \<le> QUEUE_BOUNDS_US ! n) ws))"
proof (induction n)
  case 0
  then show ?case by (simp add: in_bucket_def)
next
  case (Suc n)
  have "length (filter (\<lambda>w. w \<le> QUEUE_BOUNDS_US ! n) ws) + length (filter (in_bucket (Suc n)) ws)
      = length (filter (\<lambda>w. w \<le> QUEUE_BOUNDS_US ! Suc n) ws)"
    using bounds_mono[of n "Suc n"] Suc.prems
    by (induction ws) (auto simp: in_bucket_def)
  then have "(of_nat (length (filter (\<lambda>w. w \<le> QUEUE_BOUNDS_US ! n) ws)) :: u64)
      + of_nat (length (filter (in_bucket (Suc n)) ws))
      = of_nat (length (filter (\<lambda>w. w \<le> QUEUE_BOUNDS_US ! Suc n) ws))"
    by (metis of_nat_add)
  moreover have "(\<Sum>i \<leftarrow> [0..<Suc (Suc n)]. of_nat (length (filter (in_bucket i) ws)) :: u64)
      = (\<Sum>i \<leftarrow> [0..<Suc n]. of_nat (length (filter (in_bucket i) ws)))
        + of_nat (length (filter (in_bucket (Suc n)) ws))" by simp
  ultimately show ?case using Suc by (metis Suc_lessD)
qed


lemma wait_thread_bounds:
  assumes m: "\<And>t. over t \<le> m"
  shows "now \<le> wait_thread over d th now
    \<and> wait_thread over d th now \<le> max now (d + poll_sleep + m)
    \<and> (finished th (wait_thread over d th now) \<or> d \<le> wait_thread over d th now)"
  using m
proof (induction over d th now rule: wait_thread.induct)
  case (1 over d th now)
  show ?case
  proof (cases "\<not> finished th now \<and> now < d")
    case True
    let ?n = "now + poll_sleep + over now"
    have n: "?n \<le> d + poll_sleep + m" "now \<le> ?n" using True "1.prems"[of now] by simp_all
    have "?n \<le> wait_thread over d th ?n
        \<and> wait_thread over d th ?n \<le> max ?n (d + poll_sleep + m)
        \<and> (finished th (wait_thread over d th ?n) \<or> d \<le> wait_thread over d th ?n)"
      using "1.IH"[OF True] "1.prems" by blast
    moreover have "wait_thread over d th now = wait_thread over d th ?n"
      using True by (subst wait_thread.simps) simp
    ultimately show ?thesis using n by (auto simp: max_def split: if_splits)
  next
    case False
    then have "wait_thread over d th now = now" by (subst wait_thread.simps) auto
    with False show ?thesis by auto
  qed
qed

lemma finished_mono: "finished th t \<Longrightarrow> t \<le> u \<Longrightarrow> finished th u"
  by (auto simp: finished_def split: option.splits)

lemma join_threads_bounds:
  assumes m: "\<And>t. over t \<le> m"
  shows "join_threads over d ths now = (end, joined) \<Longrightarrow>
    now \<le> end \<and> end \<le> max now (d + poll_sleep + m)
    \<and> list_all2 (\<lambda>th j. (finished th d \<longrightarrow> j) \<and> (j \<longrightarrow> finished th end)) ths joined"
proof (induction ths arbitrary: now "end" joined)
  case Nil
  then show ?case by simp
next
  case (Cons th ths)
  let ?n = "wait_thread over d th now"
  obtain js where js: "join_threads over d ths ?n = (end, js)" "joined = finished th ?n # js"
    using Cons.prems by (auto simp: Let_def split: prod.splits)
  have w: "now \<le> ?n" "?n \<le> max now (d + poll_sleep + m)" "finished th ?n \<or> d \<le> ?n"
    using wait_thread_bounds[of over m now d th] m by auto
  from Cons.IH[OF js(1)] have ih: "?n \<le> end" "end \<le> max ?n (d + poll_sleep + m)"
    "list_all2 (\<lambda>th j. (finished th d \<longrightarrow> j) \<and> (j \<longrightarrow> finished th end)) ths js" by auto
  have "finished th d \<longrightarrow> finished th ?n" "finished th ?n \<longrightarrow> finished th end"
    using w(3) ih(1) finished_mono by blast+
  with w ih js(2) show ?case by (auto simp: max_def split: if_splits)
qed

text \<open>The running sums of the buckets are the cumulative counts, and the grand total the number of waits.\<close>

lemma histogram_cumulative:
  assumes "i < 14"
  shows "sum_list (take (Suc i) (qh_buckets (fold histogram_record ws histogram_new)))
    = of_nat (length (filter (\<lambda>w. w \<le> QUEUE_BOUNDS_US ! i) ws))"
proof -
  have b: "qh_buckets (fold histogram_record ws histogram_new)
      = map (\<lambda>i. of_nat (length (filter (in_bucket i) ws))) [0..<14]"
    using histogram_fold[of histogram_new ws, simplified] by (simp add: list_eq_iff_nth_eq)
  have "take (Suc i) [0..<14] = [0..<Suc i]" using assms by (simp add: take_upt)
  then show ?thesis using buckets_cumulative[OF assms, of ws] by (simp only: b take_map)
qed

lemma histogram_total:
  "sum_list (qh_buckets (fold histogram_record ws histogram_new)) + qh_overflow (fold histogram_record ws histogram_new)
    = of_nat (length ws)"
proof -
  let ?h = "fold histogram_record ws histogram_new" and ?b = "QUEUE_BOUNDS_US ! 13"
  note f = histogram_fold[of histogram_new ws, simplified]
  have "length (filter (\<lambda>w. w \<le> ?b) ws) + length (filter (\<lambda>w. ?b < w) ws) = length ws"
    using sum_length_filter_compl[of "\<lambda>w. w \<le> ?b" ws] by (simp add: not_le)
  moreover have "sum_list (qh_buckets ?h) = of_nat (length (filter (\<lambda>w. w \<le> ?b) ws))"
    using histogram_cumulative[of 13 ws] f by simp
  ultimately show ?thesis using f by (simp flip: of_nat_add)
qed

section \<open>Properties\<close>

text \<open>
  C19: after any sequence of recorded waits, bucket \<open>i\<close> counts the waits above the previous
  bound and up to its own, the overflow counts the waits above the last bound, the running
  sums of the buckets are the cumulative counts that the metrics endpoint reports, and sum
  and count are those of the waits, all modulo \<open>2 ^ 64\<close>. A snapshot of the histogram
  reports exactly that.
\<close>

theorem histogram_spec:
  "let h = histogram_snapshot (fold histogram_record ws histogram_new) in
     qh_buckets h = map (\<lambda>i. of_nat (length (filter (in_bucket i) ws))) [0..<14]
   \<and> map (\<lambda>i. sum_list (take (Suc i) (qh_buckets h))) [0..<14]
      = map (\<lambda>b. of_nat (length (filter (\<lambda>w. w \<le> b) ws))) QUEUE_BOUNDS_US
   \<and> qh_overflow h = of_nat (length (filter (\<lambda>w. 10000000 < w) ws))
   \<and> qh_sum_us h = sum_list ws
   \<and> qh_count h = of_nat (length ws)
   \<and> sum_list (qh_buckets h) + qh_overflow h = qh_count h"
proof -
  let ?h = "fold histogram_record ws histogram_new"
  note f = histogram_fold[of histogram_new ws, simplified]
  have b: "qh_buckets ?h = map (\<lambda>i. of_nat (length (filter (in_bucket i) ws))) [0..<14]"
    using f by (simp add: list_eq_iff_nth_eq)
  have last: "QUEUE_BOUNDS_US ! 13 = 10000000" by (simp add: QUEUE_BOUNDS_US_def)
  have "map (\<lambda>i. sum_list (take (Suc i) (qh_buckets ?h))) [0..<14]
      = map (\<lambda>b. of_nat (length (filter (\<lambda>w. w \<le> b) ws))) QUEUE_BOUNDS_US"
    by (rule nth_equalityI) (simp_all add: histogram_cumulative)
  moreover have "sum_list (qh_buckets ?h) + qh_overflow ?h = qh_count ?h"
    using histogram_total[of ws] f by simp
  moreover have "histogram_snapshot ?h = ?h" using f by (intro snapshot_same) simp
  ultimately show ?thesis using b f last by (simp add: Let_def)
qed

text \<open>
  C21: shutting down sharded I/O returns by its deadline plus one poll of the sleep loop,
  whatever the threads do: a thread that finishes by the deadline is joined, only finished
  threads are joined (so no join blocks), and a wedged thread is abandoned.
\<close>

theorem shards_shutdown_deadline:
  assumes "\<And>t. over t \<le> m"
    and "runtime_shutdown rt over (Shards ths) timeout now = (end, joined)"
  shows "now \<le> end \<and> end \<le> now + timeout + poll_sleep + m
    \<and> list_all2 (\<lambda>th j. (finished th (now + timeout) \<longrightarrow> j) \<and> (j \<longrightarrow> finished th end)) ths joined"
  using join_threads_bounds[OF assms(1), of "\<lambda>t. t" "now + timeout" ths now "end" joined] assms(2)
  by (auto simp: runtime_shutdown_def)

theorem shards_shutdown_deadline_witness:
  "runtime_shutdown (\<lambda>n t. n) (\<lambda>_. 5) (Shards [Some 1500000, None]) 2000000 0
      = (2000010, [True, False])
    \<and> (2000010 :: nat) \<le> 0 + 2000000 + poll_sleep + 5"
proof -
  have r: "runtime_shutdown (\<lambda>n t. n) (\<lambda>_. 5) (Shards [Some 1500000, None]) 2000000 0
      = (2000010, [True, False])"
    by (simp add: runtime_shutdown_def finished_def poll_sleep_def wait_thread.simps)
  from shards_shutdown_deadline[OF _ r, of 5] r show ?thesis by simp
qed

text \<open>Server ids are not reused before \<open>2 ^ 64\<close> of them were handed out.\<close>

fun take_ids :: "nat \<Rightarrow> 's registry \<Rightarrow> u64 list" where
  "take_ids 0 g = []"
| "take_ids (Suc n) g = (case next_server_id g of (g', i) \<Rightarrow> i # take_ids n g')"

lemma take_ids_map: "take_ids n g = map (\<lambda>k. rg_next_id g + of_nat k) [0..<n]"
proof (induction n arbitrary: g)
  case 0
  then show ?case by simp
next
  case (Suc n)
  have "map (\<lambda>k. rg_next_id g + of_nat k) [0..<Suc n]
      = rg_next_id g # map (\<lambda>k. rg_next_id g + 1 + of_nat k) [0..<n]"
    by (simp add: upt_conv_Cons map_Suc_upt[symmetric] ac_simps del: upt_Suc)
  then show ?case by (simp add: Suc next_server_id_def)
qed

lemma server_ids_distinct:
  assumes "n \<le> 2 ^ 64"
  shows "distinct (take_ids n registry_empty)"
proof -
  have "inj_on (\<lambda>k. 1 + of_nat k :: u64) {0..<n}"
  proof (rule inj_onI)
    fix j k
    assume "j \<in> {0..<n}" "k \<in> {0..<n}" "1 + of_nat j = (1 + of_nat k :: u64)"
    then have "unat (of_nat j :: u64) = unat (of_nat k :: u64)" "j < 2 ^ 64" "k < 2 ^ 64"
      using assms by simp_all
    then show "j = k" by simp
  qed
  then show ?thesis
    by (simp add: take_ids_map registry_empty_def distinct_map)
qed

end
