(* ===== verification/Kino_Dispatch.thy ===== *)
theory Kino_Dispatch
  imports Kino_Registry "HOL-Library.Sublist"
begin

text \<open>
  Lane dispatch (\<open>try_dispatch\<close> and \<open>dispatch_to_lane\<close> in \<open>ext/kino/src/server.rs\<close>):
  which worker's lane a request goes to, and the ordering between a dispatcher and the
  retirement of a worker (\<open>WorkerSlot::retire\<close>), which both take the lane lock.

  Requests are opaque here: the dispatcher only moves them.
\<close>

section \<open>One attempt\<close>

datatype 'x dispatch = DispatchSent | DispatchFull 'x | DispatchClosed

text \<open>
  \<open>try_lane\<close>: the slot afterwards, whether its lane was open, and the request when it was
  not taken.
\<close>

definition try_lane :: "('x, 'c) flume \<Rightarrow> 'c worker_slot \<Rightarrow> 'x \<Rightarrow> 'c worker_slot \<times> bool \<times> 'x option" where
  "try_lane F s ctx =
     (if \<not> sl_lane_tx s then (s, False, Some ctx)
      else if sl_retired s then (s, True, Some ctx)
      else case sl_lane s of
             None \<Rightarrow> (s, True, Some ctx)
           | Some c \<Rightarrow>
               (case ch_try_send F c ctx of
                  (c', Sent) \<Rightarrow> (s\<lparr>sl_lane := Some c'\<rparr>, True, None)
                | (c', SendFull x) \<Rightarrow> (s\<lparr>sl_lane := Some c'\<rparr>, True, Some x)
                | (c', SendDisconnected x) \<Rightarrow> (s\<lparr>sl_lane := Some c'\<rparr>, True, Some x)))"

text \<open>
  The scan over slots in a given order, leaving out those \<open>skip\<close> names. \<open>any_open\<close> is
  threaded through.
\<close>

fun scan_lanes ::
  "('x, 'c) flume \<Rightarrow> ('c worker_slot \<Rightarrow> bool) \<Rightarrow> nat list \<Rightarrow> 'c worker_slot list \<Rightarrow> bool \<Rightarrow> 'x
     \<Rightarrow> 'c worker_slot list \<times> bool \<times> 'x option" where
  "scan_lanes F skip [] slots any_open ctx = (slots, any_open, Some ctx)"
| "scan_lanes F skip (i # ixs) slots any_open ctx =
     (if skip (slots ! i) then scan_lanes F skip ixs slots any_open ctx
      else case try_lane F (slots ! i) ctx of
             (s, op, None) \<Rightarrow> (slots[i := s], any_open \<or> op, None)
           | (s, op, Some c) \<Rightarrow> scan_lanes F skip ixs (slots[i := s]) (any_open \<or> op) c)"

text \<open>The parked worker with an empty lane that parked last.\<close>

definition hottest :: "('x, 'c) flume \<Rightarrow> 'c worker_slot list \<Rightarrow> nat option" where
  "hottest F slots =
     max_by_key (\<lambda>i. sl_parked_at (slots ! i))
       (filter (\<lambda>i. case sl_lane (slots ! i) of None \<Rightarrow> False | Some c \<Rightarrow> ch_len F c = 0)
         (filter (\<lambda>i. sl_parked (slots ! i)) [0..<length slots]))"

definition ring_order :: "usize \<Rightarrow> nat \<Rightarrow> nat list" where
  "ring_order start n = map (ring_index start n) [0..<n]"

definition try_dispatch ::
  "('x, 'c) flume \<Rightarrow> 'c server_inner \<Rightarrow> 'x \<Rightarrow> 'c server_inner \<times> 'x dispatch" where
  "try_dispatch F sv ctx =
     (let n = length (sv_slots sv) in
      if n = 0 then (sv, DispatchFull ctx)
      else
        let start = sv_lane_cursor sv;
            sv = sv\<lparr>sv_lane_cursor := start + 1\<rparr>
        in case scan_lanes F sl_parked (ring_order start n) (sv_slots sv) False ctx of
             (slots, any_open, None) \<Rightarrow> (sv\<lparr>sv_slots := slots\<rparr>, DispatchSent)
           | (slots, any_open, Some ctx) \<Rightarrow>
               (case scan_lanes F (\<lambda>_. False) (case hottest F slots of None \<Rightarrow> [] | Some h \<Rightarrow> [h])
                       slots any_open ctx of
                  (slots, any_open, None) \<Rightarrow> (sv\<lparr>sv_slots := slots\<rparr>, DispatchSent)
                | (slots, any_open, Some ctx) \<Rightarrow>
                    (case scan_lanes F (\<lambda>_. False) (ring_order start n) slots any_open ctx of
                       (slots, any_open, None) \<Rightarrow> (sv\<lparr>sv_slots := slots\<rparr>, DispatchSent)
                     | (slots, any_open, Some ctx) \<Rightarrow>
                         (sv\<lparr>sv_slots := slots\<rparr>,
                          if any_open then DispatchFull ctx else DispatchClosed))))"

section \<open>Retrying until the queue timeout\<close>

text \<open>
  \<open>dispatch_to_lane\<close>: between two attempts the rest of the system moves the server on
  (\<open>others\<close>, by the time of the attempt) and the timer adds \<open>over\<close> to the 500
  microseconds asked for. The result is the server, whether the request was sent, and the
  time.
\<close>

definition retry_sleep :: nat where
  "retry_sleep = 500000"

function dispatch_loop ::
  "('x, 'c) flume \<Rightarrow> (instant \<Rightarrow> 'c server_inner \<Rightarrow> 'c server_inner) \<Rightarrow> (instant \<Rightarrow> nat) \<Rightarrow> instant
     \<Rightarrow> instant \<Rightarrow> 'c server_inner \<Rightarrow> 'x \<Rightarrow> 'c server_inner \<times> bool \<times> instant" where
  "dispatch_loop F others over deadline now sv pending =
     (case try_dispatch F (others now sv) pending of
        (sv', DispatchSent) \<Rightarrow> (sv', True, now)
      | (sv', DispatchClosed) \<Rightarrow> (sv', False, now)
      | (sv', DispatchFull ctx) \<Rightarrow>
          if deadline \<le> now then (sv', False, now)
          else dispatch_loop F others over deadline (now + retry_sleep + over now) sv' ctx)"
  by auto
termination
  by (relation "measure (\<lambda>(F, others, over, deadline, now, sv, ctx). deadline - now)")
    (auto simp: retry_sleep_def)

declare dispatch_loop.simps [simp del]

definition millis :: "u64 \<Rightarrow> duration" where
  "millis ms = unat ms * 1000000"

definition dispatch_to_lane ::
  "('x, 'c) flume \<Rightarrow> (instant \<Rightarrow> 'c server_inner \<Rightarrow> 'c server_inner) \<Rightarrow> (instant \<Rightarrow> nat) \<Rightarrow> instant
     \<Rightarrow> 'c server_inner \<Rightarrow> 'x \<Rightarrow> 'c server_inner \<times> bool \<times> instant" where
  "dispatch_to_lane F others over now sv ctx =
     dispatch_loop F others over (now + millis (sv_queue_timeout_ms sv)) now sv ctx"

section \<open>What a dispatch chooses\<close>

text \<open>
  A slot of a server in lane mode has a lane of depth \<open>LANE_DEPTH\<close>, whose receiver is
  alive; in shared-queue mode it has neither lane nor sender.
\<close>

definition wf_slot ::
  "('c \<Rightarrow> nat) \<Rightarrow> ('c \<Rightarrow> nat) \<Rightarrow> ('c \<Rightarrow> bool) \<Rightarrow> bool \<Rightarrow> 'c worker_slot \<Rightarrow> bool" where
  "wf_slot cap senders alive lanes s \<longleftrightarrow>
     (case sl_lane s of
        None \<Rightarrow> \<not> lanes \<and> \<not> sl_lane_tx s
      | Some c \<Rightarrow> lanes \<and> cap c = LANE_DEPTH \<and> alive c \<and> senders c = of_bool (sl_lane_tx s))"

definition wf_slots ::
  "('c \<Rightarrow> nat) \<Rightarrow> ('c \<Rightarrow> nat) \<Rightarrow> ('c \<Rightarrow> bool) \<Rightarrow> 'c server_inner \<Rightarrow> bool" where
  "wf_slots cap senders alive sv \<longleftrightarrow>
     list_all (wf_slot cap senders alive (sv_lanes sv)) (sv_slots sv) \<and> length (sv_slots sv) < 2 ^ 64"

text \<open>An open lane of a worker that stays, with room.\<close>

definition accepts :: "('x, 'c) flume \<Rightarrow> 'c worker_slot \<Rightarrow> bool" where
  "accepts F s \<longleftrightarrow> sl_lane_tx s \<and> \<not> sl_retired s
     \<and> (case sl_lane s of None \<Rightarrow> False | Some c \<Rightarrow> ch_len F c < LANE_DEPTH)"

text \<open>
  The specification of the choice: the first awake slot in ring order that accepts; else
  the hottest idle one, if it accepts; else the first in ring order that accepts.
\<close>

definition choose_lane :: "('x, 'c) flume \<Rightarrow> usize \<Rightarrow> 'c worker_slot list \<Rightarrow> nat option" where
  "choose_lane F start slots =
     (let ring = ring_order start (length slots) in
      case find (\<lambda>i. \<not> sl_parked (slots ! i) \<and> accepts F (slots ! i)) ring of
        Some i \<Rightarrow> Some i
      | None \<Rightarrow>
          (case hottest F slots of
             Some h \<Rightarrow> if accepts F (slots ! h) then Some h
                       else find (\<lambda>i. accepts F (slots ! i)) ring
           | None \<Rightarrow> find (\<lambda>i. accepts F (slots ! i)) ring))"

definition push_lane :: "('x, 'c) flume \<Rightarrow> 'x \<Rightarrow> 'c worker_slot \<Rightarrow> 'c worker_slot" where
  "push_lane F ctx s =
     s\<lparr>sl_lane := map_option (\<lambda>c. fst (ch_try_send F c ctx)) (sl_lane s)\<rparr>"

definition dispatch_spec ::
  "('x, 'c) flume \<Rightarrow> 'c server_inner \<Rightarrow> 'x \<Rightarrow> 'c server_inner \<times> 'x dispatch" where
  "dispatch_spec F sv ctx =
     (if sv_slots sv = [] then (sv, DispatchFull ctx)
      else let sv' = sv\<lparr>sv_lane_cursor := sv_lane_cursor sv + 1\<rparr>;
               slots = sv_slots sv
           in case choose_lane F (sv_lane_cursor sv) slots of
                Some i \<Rightarrow> (sv'\<lparr>sv_slots := slots[i := push_lane F ctx (slots ! i)]\<rparr>, DispatchSent)
              | None \<Rightarrow>
                  (sv', if \<exists>s \<in> set slots. sl_lane_tx s
                        then DispatchFull ctx else DispatchClosed))"

lemma ring_order_less: "n < 2 ^ 64 \<Longrightarrow> i \<in> set (ring_order start n) \<Longrightarrow> i < n"
  by (auto simp: ring_order_def ring_index_less)

lemma ring_order_set:
  "unat start + n \<le> 2 ^ 64 \<Longrightarrow> n < 2 ^ 64 \<Longrightarrow> set (ring_order start n) = {..<n}"
  using ring_index_hits[of _ n start] by (fastforce simp: ring_order_def ring_index_less)

lemma find_NoneD: "find P xs = None \<Longrightarrow> x \<in> set xs \<Longrightarrow> \<not> P x"
  by (simp add: find_None_iff)

lemma find_SomeD: "find P xs = Some x \<Longrightarrow> x \<in> set xs \<and> P x"
  by (metis find_Some_iff nth_mem)

lemma hottest_SomeD:
  assumes "hottest F slots = Some h"
  shows "h < length slots \<and> sl_parked (slots ! h)
    \<and> (\<forall>i < length slots. sl_parked (slots ! i) \<and> (\<exists>c. sl_lane (slots ! i) = Some c \<and> ch_len F c = 0)
        \<longrightarrow> sl_parked_at (slots ! i) \<le> sl_parked_at (slots ! h))"
  using max_by_key_SomeD[OF assms[unfolded hottest_def]]
  by (auto split: option.splits)

context flume_channel
begin

abbreviation slot_ok :: "bool \<Rightarrow> 'c worker_slot \<Rightarrow> bool" where
  "slot_ok \<equiv> wf_slot cap senders alive"

lemma try_lane_accepts:
  "slot_ok lanes s \<Longrightarrow> accepts F s \<Longrightarrow> try_lane F s ctx = (push_lane F ctx s, True, None)"
  using send_room[of "the (sl_lane s)" ctx]
  by (auto simp: try_lane_def accepts_def push_lane_def wf_slot_def len_items LANE_DEPTH_def
      split: option.splits prod.splits)

lemma try_lane_rejects:
  assumes "slot_ok lanes s" "\<not> accepts F s"
  shows "try_lane F s ctx = (s, sl_lane_tx s, Some ctx)"
proof (cases "sl_lane_tx s \<and> \<not> sl_retired s")
  case True
  with assms(1) obtain c where "sl_lane s = Some c" "cap c = LANE_DEPTH" "alive c"
    by (auto simp: wf_slot_def split: option.splits)
  with assms(2) True show ?thesis
    using send_full[of c ctx] by (auto simp: try_lane_def accepts_def len_items LANE_DEPTH_def)
qed (auto simp: try_lane_def)

text \<open>A scan takes the first slot that is not skipped and accepts, and else changes nothing.\<close>

lemma scan_lanes_find:
  assumes "list_all (slot_ok lanes) slots" "set ixs \<subseteq> {..<length slots}"
  shows "scan_lanes F skip ixs slots op ctx =
     (case find (\<lambda>i. \<not> skip (slots ! i) \<and> accepts F (slots ! i)) ixs of
        Some i \<Rightarrow> (slots[i := push_lane F ctx (slots ! i)], True, None)
      | None \<Rightarrow> (slots, op \<or> (\<exists>i \<in> set ixs. \<not> skip (slots ! i) \<and> sl_lane_tx (slots ! i)), Some ctx))"
  using assms(2)
proof (induction ixs arbitrary: op)
  case Nil
  then show ?case by simp
next
  case (Cons i ixs)
  have ok: "slot_ok lanes (slots ! i)" using assms(1) Cons.prems by (simp add: list_all_length)
  show ?case
  proof (cases "skip (slots ! i)")
    case True
    with Cons.IH[of op] Cons.prems show ?thesis by (simp split: option.splits)
  next
    case False
    then show ?thesis
      using Cons.IH[of "op \<or> sl_lane_tx (slots ! i)"] Cons.prems
        try_lane_accepts[OF ok, of ctx] try_lane_rejects[OF ok, of ctx]
      by (cases "accepts F (slots ! i)") (auto split: option.splits)
  qed
qed

lemma push_lane_items:
  assumes "slot_ok lanes s" "accepts F s"
  shows "map_option items (sl_lane (push_lane F ctx s)) = map_option (\<lambda>c. items c @ [ctx]) (sl_lane s)
    \<and> slot_ok lanes (push_lane F ctx s)"
proof -
  from assms obtain c where c: "sl_lane s = Some c" "cap c = LANE_DEPTH" "alive c"
      "length (items c) < LANE_DEPTH" "senders c = of_bool (sl_lane_tx s)" lanes
    by (auto simp: accepts_def wf_slot_def len_items split: option.splits)
  from send_room[of c ctx] c obtain c' where
    "ch_try_send F c ctx = (c', Sent)" "items c' = items c @ [ctx]" "cap c' = cap c"
    "senders c' = senders c" "alive c' = alive c" by (auto simp: LANE_DEPTH_def)
  with c show ?thesis by (simp add: push_lane_def wf_slot_def)
qed

lemma dispatch_scans:
  assumes "wf_slots cap senders alive sv"
  shows "list_all (slot_ok (sv_lanes sv)) (sv_slots sv)"
    and "set (ring_order k (length (sv_slots sv))) \<subseteq> {..<length (sv_slots sv)}"
    and "set (case hottest F (sv_slots sv) of None \<Rightarrow> [] | Some h \<Rightarrow> [h]) \<subseteq> {..<length (sv_slots sv)}"
  using assms ring_order_less hottest_SomeD[of F "sv_slots sv"] by (auto simp: wf_slots_def split: option.splits)

text \<open>The three passes of the code make the choice of the specification.\<close>

lemma try_dispatch_refines:
  assumes "wf_slots cap senders alive sv" "unat (sv_lane_cursor sv) + length (sv_slots sv) \<le> 2 ^ 64"
  shows "try_dispatch F sv ctx = dispatch_spec F sv ctx"
proof (cases "sv_slots sv = []")
  case True
  then show ?thesis by (simp add: try_dispatch_def dispatch_spec_def)
next
  case False
  let ?slots = "sv_slots sv" and ?ring = "ring_order (sv_lane_cursor sv) (length (sv_slots sv))"
  note scan = scan_lanes_find[OF dispatch_scans(1)[OF assms(1)]]
  note scan1 = scan[where skip = sl_parked, OF dispatch_scans(2)[OF assms(1)]]
    and scan2 = scan[where skip = "\<lambda>_. False", OF dispatch_scans(3)[OF assms(1)]]
    and scan3 = scan[where skip = "\<lambda>_. False", OF dispatch_scans(2)[OF assms(1)]]
  have n: "length ?slots < 2 ^ 64" using assms(1) by (simp add: wf_slots_def)
  have open_ring: "(\<exists>i \<in> set ?ring. sl_lane_tx (?slots ! i)) \<longleftrightarrow> (\<exists>s \<in> set ?slots. sl_lane_tx s)"
    using ring_order_set[OF assms(2) n] by (metis in_set_conv_nth lessThan_iff)
  have open1: "\<exists>s \<in> set ?slots. sl_lane_tx s" if "i \<in> set ?ring" "sl_lane_tx (?slots ! i)" for i
    using that open_ring by blast
  have open2: "\<exists>s \<in> set ?slots. sl_lane_tx s" if "hottest F ?slots = Some i" "sl_lane_tx (?slots ! i)" for i
    using that hottest_SomeD by (meson nth_mem)
  show ?thesis
  proof (cases "find (\<lambda>i. \<not> sl_parked (?slots ! i) \<and> accepts F (?slots ! i)) ?ring")
    case (Some i)
    with False scan1[of _ False ctx] show ?thesis
      by (auto simp: try_dispatch_def dispatch_spec_def choose_lane_def Let_def)
  next
    case None
    with False scan1[of _ False ctx] scan2[of _ ctx] scan3[of _ _ ctx] show ?thesis
      by (auto simp: try_dispatch_def dispatch_spec_def choose_lane_def Let_def open_ring
          simp del: scan_lanes.simps split: option.splits dest: open1 open2)
  qed
qed

end


context flume_channel
begin

text \<open>What the choice guarantees.\<close>

lemma choose_lane_Some:
  assumes "choose_lane F st slots = Some i" "length slots < 2 ^ 64"
  shows "i < length slots \<and> accepts F (slots ! i)"
  using assms ring_order_less[OF assms(2)] hottest_SomeD[of F slots]
  by (auto simp: choose_lane_def Let_def split: option.splits if_splits dest!: find_SomeD)

lemma choose_lane_None:
  assumes "choose_lane F st slots = None" "length slots < 2 ^ 64" "unat st + length slots \<le> 2 ^ 64"
    and "s \<in> set slots"
  shows "\<not> accepts F s"
proof -
  obtain j where "j < length slots" "slots ! j = s" using assms(4) by (auto simp: in_set_conv_nth)
  then show ?thesis
    using assms(1) ring_order_set[OF assms(3,2)]
    by (auto simp: choose_lane_def Let_def find_None_iff split: option.splits if_splits)
qed

lemma choose_lane_awake:
  assumes "choose_lane F st slots = Some i" "length slots < 2 ^ 64" "unat st + length slots \<le> 2 ^ 64"
    and "s \<in> set slots" "\<not> sl_parked s" "accepts F s"
  shows "\<not> sl_parked (slots ! i)"
proof -
  obtain j where "j < length slots" "slots ! j = s" using assms(4) by (auto simp: in_set_conv_nth)
  then have "find (\<lambda>i. \<not> sl_parked (slots ! i) \<and> accepts F (slots ! i)) (ring_order st (length slots)) \<noteq> None"
    using ring_order_set[OF assms(3,2)] assms(5,6) by (auto simp: find_None_iff)
  then show ?thesis using assms(1) find_SomeD by (fastforce simp: choose_lane_def Let_def)
qed

end

section \<open>Dispatching against retirement\<close>

text \<open>
  One lane seen by its worker, the scaler that retires it, and any number of dispatchers.
  A dispatcher holds the lane lock from before its check of \<open>retired\<close> to after its send;
  \<open>retire\<close> raises the flag under the same lock; the worker reads the flag without it,
  then empties the lane one receive at a time and leaves when it finds it empty
  (\<open>after_timeout\<close>).
\<close>

datatype 'x dispatcher_pc = DOut | DLocked 'x | DChecked 'x
datatype retirer_pc = ROut | RLocked | RRaised
datatype worker_pc = WServing | WDraining | WLeft

record 'x lane_sys =
  ls_lock :: "nat option option"
  ls_retired :: bool
  ls_lane :: "'x list"
  ls_disp :: "nat \<Rightarrow> 'x dispatcher_pc"
  ls_retirer :: retirer_pc
  ls_worker :: worker_pc

text \<open>\<open>Some (Some d)\<close> in \<open>ls_lock\<close>: dispatcher \<open>d\<close> holds it; \<open>Some None\<close>: the retirer does.\<close>

definition lane_start :: "'x lane_sys \<Rightarrow> bool" where
  "lane_start s \<longleftrightarrow> ls_lock s = None \<and> \<not> ls_retired s \<and> ls_lane s = [] \<and> (\<forall>d. ls_disp s d = DOut)
     \<and> ls_retirer s = ROut \<and> ls_worker s = WServing"

inductive lane_step :: "'x lane_sys \<Rightarrow> 'x lane_sys \<Rightarrow> bool" where
  d_lock: "ls_lock s = None \<Longrightarrow> ls_disp s d = DOut
    \<Longrightarrow> lane_step s (s\<lparr>ls_lock := Some (Some d), ls_disp := (ls_disp s)(d := DLocked x)\<rparr>)"
| d_check: "ls_disp s d = DLocked x \<Longrightarrow> \<not> ls_retired s
    \<Longrightarrow> lane_step s (s\<lparr>ls_disp := (ls_disp s)(d := DChecked x)\<rparr>)"
| d_skip: "ls_disp s d = DLocked x \<Longrightarrow> ls_retired s
    \<Longrightarrow> lane_step s (s\<lparr>ls_lock := None, ls_disp := (ls_disp s)(d := DOut)\<rparr>)"
| d_send: "ls_disp s d = DChecked x \<Longrightarrow> length (ls_lane s) < LANE_DEPTH
    \<Longrightarrow> lane_step s (s\<lparr>ls_lock := None, ls_lane := ls_lane s @ [x], ls_disp := (ls_disp s)(d := DOut)\<rparr>)"
| d_full: "ls_disp s d = DChecked x \<Longrightarrow> LANE_DEPTH \<le> length (ls_lane s)
    \<Longrightarrow> lane_step s (s\<lparr>ls_lock := None, ls_disp := (ls_disp s)(d := DOut)\<rparr>)"
| r_lock: "ls_lock s = None \<Longrightarrow> ls_retirer s = ROut
    \<Longrightarrow> lane_step s (s\<lparr>ls_lock := Some None, ls_retirer := RLocked\<rparr>)"
| r_raise: "ls_retirer s = RLocked
    \<Longrightarrow> lane_step s (s\<lparr>ls_retired := True, ls_retirer := RRaised\<rparr>)"
| r_unlock: "ls_retirer s = RRaised \<Longrightarrow> ls_lock s = Some None
    \<Longrightarrow> lane_step s (s\<lparr>ls_lock := None\<rparr>)"
| w_take: "ls_worker s = WServing \<Longrightarrow> ls_lane s = x # xs
    \<Longrightarrow> lane_step s (s\<lparr>ls_lane := xs\<rparr>)"
| w_see: "ls_worker s = WServing \<Longrightarrow> ls_retired s
    \<Longrightarrow> lane_step s (s\<lparr>ls_worker := WDraining\<rparr>)"
| w_drain: "ls_worker s = WDraining \<Longrightarrow> ls_lane s = x # xs
    \<Longrightarrow> lane_step s (s\<lparr>ls_lane := xs, ls_worker := WServing\<rparr>)"
| w_leave: "ls_worker s = WDraining \<Longrightarrow> ls_lane s = []
    \<Longrightarrow> lane_step s (s\<lparr>ls_worker := WLeft\<rparr>)"
| steal: "ls_lane s = x # xs \<Longrightarrow> lane_step s (s\<lparr>ls_lane := xs\<rparr>)"

text \<open>
  The lock is held by whoever is in a critical section; a dispatcher that saw \<open>not
  retired\<close> keeps the flag down; and a worker that left stays with an empty lane.
\<close>

definition lane_inv :: "'x lane_sys \<Rightarrow> bool" where
  "lane_inv s \<longleftrightarrow>
     (\<forall>d. ls_disp s d \<noteq> DOut \<longrightarrow> ls_lock s = Some (Some d))
     \<and> (ls_retirer s = RLocked \<longrightarrow> ls_lock s = Some None)
     \<and> (ls_retired s \<longrightarrow> (\<forall>d x. ls_disp s d \<noteq> DChecked x))
     \<and> (ls_worker s \<noteq> WServing \<longrightarrow> ls_retired s)
     \<and> (ls_worker s = WLeft \<longrightarrow> ls_lane s = [])
     \<and> length (ls_lane s) \<le> LANE_DEPTH"

lemma lane_mutex:
  "lane_inv s \<Longrightarrow> ls_disp s d \<noteq> DOut \<Longrightarrow> d' \<noteq> d \<Longrightarrow> ls_disp s d' = DOut"
  unfolding lane_inv_def by (metis option.inject)

lemma lane_inv_step: "lane_step s t \<Longrightarrow> lane_inv s \<Longrightarrow> lane_inv t"
proof (induction rule: lane_step.induct)
  case (d_skip s d x)
  then have "\<And>d'. d' \<noteq> d \<Longrightarrow> ls_disp s d' = DOut" using lane_mutex[of s d] by simp
  with d_skip show ?case by (auto simp: lane_inv_def)
next
  case (d_send s d x)
  then have "\<And>d'. d' \<noteq> d \<Longrightarrow> ls_disp s d' = DOut" using lane_mutex[of s d] by simp
  moreover have "\<not> ls_retired s" using d_send unfolding lane_inv_def by metis
  ultimately show ?case using d_send by (auto simp: lane_inv_def)
next
  case (d_full s d x)
  then have "\<And>d'. d' \<noteq> d \<Longrightarrow> ls_disp s d' = DOut" using lane_mutex[of s d] by simp
  with d_full show ?case by (auto simp: lane_inv_def)
qed (auto simp: lane_inv_def)

interpretation lane_race: invariant_system lane_start lane_step lane_inv
  by unfold_locales (simp add: lane_start_def lane_inv_def, rule lane_inv_step)


text \<open>No step adds to a lane whose worker was told to go.\<close>

lemma retired_lane_shrinks:
  "lane_step s t \<Longrightarrow> lane_inv s \<Longrightarrow> ls_retired s
    \<Longrightarrow> ls_retired t \<and> (ls_lane t = ls_lane s \<or> (\<exists>x. ls_lane s = x # ls_lane t))"
  by (induction rule: lane_step.induct) (auto simp: lane_inv_def)

context flume_channel
begin

lemma scan_lanes_moves:
  assumes "list_all (slot_ok lanes) slots" "set ixs \<subseteq> {..<length slots}"
    and "scan_lanes F skip ixs slots op ctx = (slots', op', res)"
  obtains (sent) i where "res = None" "i < length slots" "accepts F (slots ! i)"
      "slots' = slots[i := push_lane F ctx (slots ! i)]"
  | (kept) "res = Some ctx" "slots' = slots"
  using scan_lanes_find[of lanes slots ixs skip op ctx] assms
  by (auto split: option.splits dest!: find_SomeD)

lemma wf_pushed:
  assumes "wf_slots cap senders alive sv" "i < length (sv_slots sv)" "accepts F (sv_slots sv ! i)"
  shows "wf_slots cap senders alive
    (sv\<lparr>sv_lane_cursor := k, sv_slots := (sv_slots sv)[i := push_lane F ctx (sv_slots sv ! i)]\<rparr>)"
  using assms push_lane_items[of "sv_lanes sv" "sv_slots sv ! i" ctx]
  by (auto simp: wf_slots_def list_all_length nth_list_update)

text \<open>Whether or not the cursor wraps, an attempt moves the request to one lane or hands it back.\<close>

lemma try_dispatch_moves:
  assumes "wf_slots cap senders alive sv" "try_dispatch F sv ctx = (sv', r)"
  shows "wf_slots cap senders alive sv' \<and>
    (case r of
       DispatchSent \<Rightarrow> \<exists>i < length (sv_slots sv). accepts F (sv_slots sv ! i)
         \<and> sv_slots sv' = (sv_slots sv)[i := push_lane F ctx (sv_slots sv ! i)]
     | DispatchFull c \<Rightarrow> c = ctx \<and> sv_slots sv' = sv_slots sv
     | DispatchClosed \<Rightarrow> sv_slots sv' = sv_slots sv)"
proof (cases "sv_slots sv = []")
  case True
  with assms show ?thesis by (auto simp: try_dispatch_def)
next
  case False
  let ?slots = "sv_slots sv" and ?ring = "ring_order (sv_lane_cursor sv) (length (sv_slots sv))"
  let ?hot = "case hottest F ?slots of None \<Rightarrow> [] | Some h \<Rightarrow> [h]"
  note moves = scan_lanes_moves[OF dispatch_scans(1)[OF assms(1)]] and pushed = wf_pushed[OF assms(1)]
  note ring = dispatch_scans(2)[OF assms(1)] and hot = dispatch_scans(3)[OF assms(1)]
  have same: "wf_slots cap senders alive (sv\<lparr>sv_lane_cursor := k\<rparr>)" for k
    using assms(1) by (simp add: wf_slots_def)
  obtain s1 o1 r1 where e1: "scan_lanes F sl_parked ?ring ?slots False ctx = (s1, o1, r1)" by (metis prod_cases3)
  obtain s2 o2 r2 where e2: "scan_lanes F (\<lambda>_. False) ?hot ?slots o1 ctx = (s2, o2, r2)" by (metis prod_cases3)
  obtain s3 o3 r3 where e3: "scan_lanes F (\<lambda>_. False) ?ring ?slots o2 ctx = (s3, o3, r3)" by (metis prod_cases3)
  show ?thesis
  proof (cases rule: moves[OF ring e1])
    case (1 i)
    with assms(2) e1 False pushed show ?thesis by (auto simp: try_dispatch_def Let_def)
  next
    case kept1: 2
    show ?thesis
    proof (cases rule: moves[OF hot e2])
      case (1 i)
      with assms(2) False e1 e2 kept1 pushed show ?thesis
        by (auto simp: try_dispatch_def Let_def simp del: scan_lanes.simps)
    next
      case kept2: 2
      show ?thesis
        by (cases rule: moves[OF ring e3])
          (use assms(2) False e1 e2 e3 kept1 kept2 pushed same in \<open>auto simp: try_dispatch_def Let_def simp del: scan_lanes.simps\<close>)
    qed
  qed
qed

lemma dispatch_loop_bounds:
  assumes "\<And>t. over t \<le> m"
    and "\<And>t sv. wf_slots cap senders alive sv \<Longrightarrow> wf_slots cap senders alive (others t sv)"
  shows "dispatch_loop F others over d now sv ctx = (sv', sent, end) \<Longrightarrow> wf_slots cap senders alive sv
    \<Longrightarrow> now \<le> end \<and> end \<le> max now (d + retry_sleep + m)
    \<and> (\<exists>sv0. wf_slots cap senders alive sv0 \<and>
         (case try_dispatch F sv0 ctx of
            (sv1, DispatchSent) \<Rightarrow> sent \<and> sv' = sv1
          | (sv1, DispatchClosed) \<Rightarrow> \<not> sent \<and> sv' = sv1
          | (sv1, DispatchFull _) \<Rightarrow> \<not> sent \<and> sv' = sv1 \<and> d \<le> end))"
proof (induction "d - now" arbitrary: now sv rule: less_induct)
  case less
  obtain sv1 r where r: "try_dispatch F (others now sv) ctx = (sv1, r)" by force
  note wf = assms(2)[OF less.prems(2), of now]
  show ?case
  proof (cases "\<exists>c. r = DispatchFull c \<and> now < d")
    case True
    then have c: "r = DispatchFull ctx" "now < d" "wf_slots cap senders alive sv1"
      using try_dispatch_moves[OF wf r] by auto
    let ?n = "now + retry_sleep + over now"
    have "dispatch_loop F others over d ?n sv1 ctx = (sv', sent, end)"
      using r c less.prems(1) by (subst (asm) dispatch_loop.simps) simp
    from less.hyps[OF _ this c(3)] c(2) have
      "?n \<le> end \<and> end \<le> max ?n (d + retry_sleep + m)
      \<and> (\<exists>sv0. wf_slots cap senders alive sv0 \<and>
         (case try_dispatch F sv0 ctx of
            (sv1, DispatchSent) \<Rightarrow> sent \<and> sv' = sv1
          | (sv1, DispatchClosed) \<Rightarrow> \<not> sent \<and> sv' = sv1
          | (sv1, DispatchFull _) \<Rightarrow> \<not> sent \<and> sv' = sv1 \<and> d \<le> end))"
      by (simp add: retry_sleep_def)
    moreover have "now \<le> ?n" "?n \<le> d + retry_sleep + m" using c assms(1)[of now] by simp_all
    ultimately show ?thesis by (auto simp: max_def split: if_splits)
  next
    case False
    then have "end = now \<and> (case r of DispatchSent \<Rightarrow> sent \<and> sv' = sv1
        | DispatchClosed \<Rightarrow> \<not> sent \<and> sv' = sv1
        | DispatchFull _ \<Rightarrow> \<not> sent \<and> sv' = sv1 \<and> d \<le> now)"
      using less.prems(1) r by (subst (asm) dispatch_loop.simps) (auto simp: not_less split: dispatch.splits if_splits)
    with r wf show ?thesis
      by (intro conjI exI[of _ "others now sv"]) (auto split: dispatch.splits)
  qed
qed

end

section \<open>Properties\<close>


definition example_config :: server_config where
  "example_config = \<lparr>sc_bind = ''127.0.0.1'', sc_port = 9292, sc_queue_depth = 2, sc_queue_timeout_ms = 1,
     sc_request_timeout_ms = 0, sc_max_body_size = 0, sc_max_connections = 1024, sc_io_shards = False,
     sc_io_threads = 0, sc_tokio_threads = 0, sc_tls_cert = None, sc_tls_key = None, sc_lanes = True,
     sc_http2 = True, sc_log_requests = False, sc_mode = ''threaded'', sc_workers = 2,
     sc_max_workers = 2, sc_threads = 1, sc_batch = 1\<rparr>"

definition example_lane :: "nat list \<Rightarrow> bool \<Rightarrow> nat list_chan" where
  "example_lane q tx = \<lparr>lc_items = q, lc_cap = 4, lc_senders = of_bool tx, lc_alive = True\<rparr>"

definition example_slot :: "nat list \<Rightarrow> bool \<Rightarrow> bool \<Rightarrow> u64 \<Rightarrow> nat list_chan worker_slot" where
  "example_slot q tx parked at =
     (worker_slot_new (list_flume :: (nat, nat list_chan) flume) True)
       \<lparr>sl_lane := Some (example_lane q tx), sl_lane_tx := tx, sl_parked := parked, sl_parked_at := at\<rparr>"

definition example_server :: "nat list_chan worker_slot list \<Rightarrow> nat list_chan server_inner" where
  "example_server slots =
     (server_inner_new (list_flume :: (nat, nat list_chan) flume) False example_config False None 1)
       \<lparr>sv_slots := slots\<rparr>"

lemma example_server_wf: "set slots \<subseteq> {example_slot q tx p a | q tx p a. True} \<Longrightarrow> length slots < 100
    \<Longrightarrow> wf_slots lc_cap lc_senders lc_alive (example_server slots)"
  by (auto simp: wf_slots_def example_server_def server_inner_new_def example_config_def list_all_iff
      wf_slot_def example_slot_def worker_slot_new_def example_lane_def LANE_DEPTH_def)


text \<open>
  An attempt loses and duplicates nothing. When the request is sent, it is appended to
  one lane that was open, not retired and had room, no other slot changes, and it goes to
  an awake worker whenever one accepts; when it comes back, it is the same request, no lane
  changed, and every lane is closed, retired or full; and the attempt reports that the
  server is draining only when every lane is closed.
\<close>

theorem try_dispatch_delivers:
  assumes "flume_channel F items cap senders alive" "wf_slots cap senders alive sv"
    and "unat (sv_lane_cursor sv) + length (sv_slots sv) \<le> 2 ^ 64"
    and "try_dispatch F sv ctx = (sv', r)"
  shows "case r of
      DispatchSent \<Rightarrow> \<exists>i < length (sv_slots sv). accepts F (sv_slots sv ! i)
        \<and> (\<exists>s. sv_slots sv' = (sv_slots sv)[i := s]
            \<and> map_option items (sl_lane s) = map_option (\<lambda>c. items c @ [ctx]) (sl_lane (sv_slots sv ! i)))
        \<and> ((\<exists>s \<in> set (sv_slots sv). \<not> sl_parked s \<and> accepts F s) \<longrightarrow> \<not> sl_parked (sv_slots sv ! i))
    | DispatchFull c \<Rightarrow> c = ctx \<and> sv_slots sv' = sv_slots sv \<and> (\<forall>s \<in> set (sv_slots sv). \<not> accepts F s)
        \<and> (sv_slots sv = [] \<or> (\<exists>s \<in> set (sv_slots sv). sl_lane_tx s))
    | DispatchClosed \<Rightarrow> sv_slots sv' = sv_slots sv \<and> (\<forall>s \<in> set (sv_slots sv). \<not> sl_lane_tx s)"
proof -
  let ?slots = "sv_slots sv" and ?st = "sv_lane_cursor sv"
  have n: "length ?slots < 2 ^ 64" and ok: "list_all (wf_slot cap senders alive (sv_lanes sv)) ?slots"
    using assms(2) by (simp_all add: wf_slots_def)
  have eq: "dispatch_spec F sv ctx = (sv', r)"
    using flume_channel.try_dispatch_refines[OF assms(1-3)] assms(4) by simp
  show ?thesis
  proof (cases "?slots = []")
    case True
    with eq show ?thesis by (auto simp: dispatch_spec_def)
  next
    case False
    show ?thesis
    proof (cases "choose_lane F ?st ?slots")
      case None
      with eq False flume_channel.choose_lane_None[OF assms(1) None n assms(3)] show ?thesis
        by (auto simp: dispatch_spec_def Let_def split: if_splits)
    next
      case (Some i)
      note i = flume_channel.choose_lane_Some[OF assms(1) Some n]
      have "map_option items (sl_lane (push_lane F ctx (?slots ! i)))
          = map_option (\<lambda>c. items c @ [ctx]) (sl_lane (?slots ! i))"
        using flume_channel.push_lane_items[OF assms(1), of "sv_lanes sv" "?slots ! i" ctx] i ok
        by (simp add: list_all_length)
      moreover have "\<not> sl_parked (?slots ! i)" if "\<exists>s \<in> set ?slots. \<not> sl_parked s \<and> accepts F s"
        using that flume_channel.choose_lane_awake[OF assms(1) Some n assms(3)] by blast
      moreover have "r = DispatchSent" "sv_slots sv' = ?slots[i := push_lane F ctx (?slots ! i)]"
        using eq False Some by (auto simp: dispatch_spec_def Let_def)
      ultimately show ?thesis using i by auto
    qed
  qed
qed

theorem try_dispatch_delivers_witness:
  "\<exists>sv'. try_dispatch list_flume (example_server [example_slot [1, 2, 3, 4] True False 0]) 77
      = (sv', DispatchFull 77)
    \<and> sv_slots sv' = [example_slot [1, 2, 3, 4] True False 0]"
proof -
  let ?sv = "example_server [example_slot [1, 2, 3, 4] True False 0]"
  have full: "snd (try_dispatch list_flume ?sv 77) = DispatchFull 77" by code_simp
  obtain sv' where r: "try_dispatch list_flume ?sv 77 = (sv', DispatchFull 77)"
    using full by (metis prod.collapse)
  have "wf_slots lc_cap lc_senders lc_alive ?sv" by (rule example_server_wf) auto
  from try_dispatch_delivers[OF list_ch.flume_channel_axioms this _ r] r show ?thesis
    by (simp add: example_server_def server_inner_new_def)
qed


definition lane_example :: "nat lane_sys" where
  "lane_example = \<lparr>ls_lock = Some None, ls_retired = True, ls_lane = [], ls_disp = (\<lambda>_. DOut),
     ls_retirer = RRaised, ls_worker = WServing\<rparr>"

lemma lane_example_reachable: "reach lane_start lane_step lane_example"
proof -
  let ?s = "\<lparr>ls_lock = None, ls_retired = False, ls_lane = [], ls_disp = (\<lambda>_. DOut),
     ls_retirer = ROut, ls_worker = WServing\<rparr> :: nat lane_sys"
  have "reach lane_start lane_step ?s" by (rule reach_init) (simp add: lane_start_def)
  then have "reach lane_start lane_step (?s\<lparr>ls_lock := Some None, ls_retirer := RLocked\<rparr>)"
    by (rule reach_step) (rule r_lock; simp)
  then have "reach lane_start lane_step ((?s\<lparr>ls_lock := Some None, ls_retirer := RLocked\<rparr>)
      \<lparr>ls_retired := True, ls_retirer := RRaised\<rparr>)"
    by (rule reach_step) (rule r_raise; simp)
  then show ?thesis by (simp add: lane_example_def)
qed


text \<open>
  C22: dispatching with retries returns by the queue timeout plus one retry interval; it
  answers yes only when its last attempt sent the request, and no only when that attempt
  found every lane closed or the timeout was over.
\<close>

theorem dispatch_to_lane_bounded:
  assumes "flume_channel F items cap senders alive" "wf_slots cap senders alive sv"
    and "\<And>t sv. wf_slots cap senders alive sv \<Longrightarrow> wf_slots cap senders alive (others t sv)"
    and "\<And>t. over t \<le> m"
    and "dispatch_to_lane F others over now sv ctx = (sv', sent, end)"
  shows "now \<le> end \<and> end \<le> now + millis (sv_queue_timeout_ms sv) + retry_sleep + m
    \<and> (\<exists>sv0. wf_slots cap senders alive sv0 \<and>
         (case try_dispatch F sv0 ctx of
            (sv1, DispatchSent) \<Rightarrow> sent \<and> sv' = sv1
          | (sv1, DispatchClosed) \<Rightarrow> \<not> sent \<and> sv' = sv1
          | (sv1, DispatchFull _) \<Rightarrow> \<not> sent \<and> sv' = sv1 \<and> now + millis (sv_queue_timeout_ms sv) \<le> end))"
  using flume_channel.dispatch_loop_bounds[OF assms(1,4,3) assms(5)[unfolded dispatch_to_lane_def] assms(2)]
  by (auto simp: max_def split: if_splits)

theorem dispatch_to_lane_bounded_witness:
  "\<exists>sv'. dispatch_to_lane list_flume (\<lambda>_ sv. sv) (\<lambda>_. 0) 5
        (example_server [example_slot [1, 2] True False 0]) 77 = (sv', True, 5)
    \<and> (\<exists>sv0. try_dispatch list_flume sv0 77 = (sv', DispatchSent))"
proof -
  let ?sv = "example_server [example_slot [1, 2] True False 0]"
  have "snd (try_dispatch list_flume ?sv 77) = DispatchSent" by code_simp
  then obtain sv' where s: "try_dispatch list_flume ?sv 77 = (sv', DispatchSent)"
    by (metis prod.collapse)
  then have r: "dispatch_to_lane list_flume (\<lambda>_ sv. sv) (\<lambda>_. 0) 5 ?sv 77 = (sv', True, 5)"
    unfolding dispatch_to_lane_def by (subst dispatch_loop.simps) simp
  have wf: "wf_slots lc_cap lc_senders lc_alive ?sv" by (rule example_server_wf) auto
  have "sv_queue_timeout_ms ?sv = 1"
    by (simp add: example_server_def server_inner_new_def example_config_def)
  with dispatch_to_lane_bounded[OF list_ch.flume_channel_axioms wf _ _ r, of 0] r s show ?thesis by auto
qed

text \<open>
  The preference for the idle worker that parked last is lost while a dead worker's
  slot, which is marked parked and keeps its stamp, has the latest stamp: the request goes
  to the next idle worker in ring order, here one that parked earlier.
\<close>

theorem dead_slot_hides_hottest:
  "map (\<lambda>s. lc_items (the (sl_lane s)))
      (sv_slots (fst (try_dispatch list_flume
        (example_server [example_slot [] False True 9, example_slot [] True True 3,
           example_slot [] True True 8]) 77))) = [[], [77], []]"
  by code_simp

end
