(* ===== verification/Kino_Request.thy ===== *)
theory Kino_Request
  imports Kino_Registry "HOL-Library.Sublist"
begin

text \<open>
  The per-request handle (\<open>ext/kino/src/request.rs\<close>), but for the Rack environment: the
  request context, reading the body, answering in one piece or as a stream; the crate's
  blocking idiom (\<open>gvl::interruptible\<close>); and the task of
  \<open>handle_request\<close> that forwards body frames (\<open>ext/kino/src/server.rs\<close>).

  A blocking call is a loop of bounded waits. What the rest of the system does to the state
  before the \<open>k\<close>-th check and during the \<open>k\<close>-th wait is an argument, and so is the number of
  waits: the result is \<open>None\<close> while the call is still blocked.
\<close>

section \<open>Blocking with the VM lock released\<close>

datatype 'a attempt = Tick | Done 'a | Panicked string

definition panic_error :: "string \<Rightarrow> kino_error" where
  "panic_error msg = RubyError (''Kino: panic in native blocking call: '' @ msg)"

text \<open>\<open>Inr None\<close> is an interruption, by the VM or by \<open>interrupt_all_workers\<close>.\<close>

fun interruptible ::
  "nat \<Rightarrow> (nat \<Rightarrow> 's \<Rightarrow> 's) \<Rightarrow> ('s \<Rightarrow> bool) \<Rightarrow> (nat \<Rightarrow> 's \<Rightarrow> 's \<times> 'a attempt) \<Rightarrow> nat \<Rightarrow> 's
     \<Rightarrow> ('s \<times> (kino_error + 'a option)) option" where
  "interruptible 0 env flag attempt k s = None"
| "interruptible (Suc n) env flag attempt k s =
     (let s = env k s in
      if flag s then Some (s, Inr None)
      else case attempt k s of
             (s', Done r) \<Rightarrow> Some (s', Inr (Some r))
           | (s', Panicked msg) \<Rightarrow> Some (s', Inl (panic_error msg))
           | (s', Tick) \<Rightarrow> interruptible n env flag attempt (Suc k) s')"

text \<open>More waits never change an answer.\<close>

lemma interruptible_mono:
  "interruptible n env flag attempt k s = Some r \<Longrightarrow> n \<le> m \<Longrightarrow> interruptible m env flag attempt k s = Some r"
proof (induction n arbitrary: k s m)
  case 0
  then show ?case by simp
next
  case (Suc n)
  then obtain m' where m: "m = Suc m'" "n \<le> m'" by (cases m) auto
  obtain s' t where at: "attempt k (env k s) = (s', t)" by force
  show ?case
    using Suc.prems Suc.IH[of "Suc k" s' m'] m at by (cases t) (auto simp: Let_def split: if_splits)
qed

text \<open>
  A blocking call returns by the check at which the flag is up or the attempt ends, in the
  states that \<open>I\<close> describes.
\<close>

lemma interruptible_returns:
  assumes "\<And>k s. I s \<Longrightarrow> I (env k s)" "\<And>k s s'. I s \<Longrightarrow> attempt k s = (s', Tick) \<Longrightarrow> I s'"
    and "\<And>s. I s \<Longrightarrow> flag (env j s) \<or> snd (attempt j (env j s)) \<noteq> Tick" "k \<le> j" "I s"
  shows "\<exists>r. interruptible (Suc (j - k)) env flag attempt k s = Some r"
  using assms(4,5)
proof (induction "j - k" arbitrary: k s)
  case 0
  then have "k = j" by simp
  obtain s' t where at: "attempt j (env j s) = (s', t)" by force
  with assms(3)[of s] 0 \<open>k = j\<close> show ?case by (cases t) (simp_all add: Let_def)
next
  case (Suc d)
  then have d: "d = j - Suc k" "Suc k \<le> j" by auto
  have jk: "j - k = Suc (j - Suc k)" using Suc.hyps(2) by simp
  obtain s' t where at: "attempt k (env k s) = (s', t)" by force
  show ?case
    using Suc.hyps(1)[OF d, of s'] at assms(1)[OF Suc.prems(2), of k] assms(2)[of "env k s" k s']
    by (cases t) (simp_all only: jk interruptible.simps Let_def, simp_all)
qed

text \<open>
  Once the flag is up at a check the call returns at that check, having done nothing more,
  unless it returned before.
\<close>

lemma interruptible_flag:
  assumes "\<And>s. flag (env j s)" "k \<le> j"
  shows "\<exists>r. interruptible (Suc (j - k)) env flag attempt k s = Some r"
  by (rule interruptible_returns[where I = "\<lambda>_. True", OF _ _ _ assms(2)]) (simp_all add: assms(1))

section \<open>The request context\<close>

text \<open>An IPv6 address is given by its eight segments.\<close>

datatype ip_addr = V4 u8 u8 u8 u8 | V6 "u16 list"

record socket_addr =
  sa_ip :: ip_addr
  sa_port :: u16

text \<open>
  \<open>http::Uri\<close> is given by what its accessors return: path, query, and the authority as
  written with the host and port the library finds in it.
\<close>

record authority =
  au_str :: string
  au_host :: string
  au_port :: "u16 option"

record uri =
  ur_path :: bytes
  ur_query :: "bytes option"
  ur_authority :: "authority option"

datatype http_version = HTTP_09 | HTTP_10 | HTTP_11 | HTTP_2 | HTTP_3

text \<open>
  \<open>cx_body_rx\<close> is the body channel, \<open>cx_responder\<close> the responder's number, \<open>cx_slot\<close> the
  index of the owning slot.
\<close>

record ('h, 'b) request_ctx =
  cx_method :: string
  cx_uri :: uri
  cx_version :: http_version
  cx_headers :: 'h
  cx_remote_addr :: socket_addr
  cx_local_addr :: socket_addr
  cx_https :: bool
  cx_body_rx :: "'b option"
  cx_leftover :: "bytes option"
  cx_slot :: "nat option"
  cx_responder :: nat
  cx_enqueued_at :: instant
  cx_timed :: bool
  cx_wait :: duration
  cx_admitted_at :: instant
  cx_gc :: "(duration \<times> u64) option"

definition ctx_timing :: "instant \<Rightarrow> ('h, 'b) request_ctx \<Rightarrow> timing" where
  "ctx_timing now ctx = \<lparr>tm_wait = cx_wait ctx, tm_ruby = now - cx_admitted_at ctx, tm_gc = cx_gc ctx\<rparr>"

definition timed :: "instant \<Rightarrow> ('h, 'b) request_ctx \<Rightarrow> 'h builder \<Rightarrow> 'h builder" where
  "timed now ctx b = (if cx_timed ctx then builder_extension b (ctx_timing now ctx) else b)"

definition body_possible :: "(bytes, 'b) flume \<Rightarrow> ('h, 'b) request_ctx \<Rightarrow> bool" where
  "body_possible B ctx \<longleftrightarrow>
     cx_leftover ctx \<noteq> None
     \<or> (case cx_body_rx ctx of None \<Rightarrow> False
        | Some rx \<Rightarrow> \<not> (ch_len B rx = 0 \<and> ch_is_disconnected B rx))"

definition split_host_port :: "string \<Rightarrow> u16 \<Rightarrow> string \<times> u16" where
  "split_host_port host default_port =
     (case rsplit_once (CHR '':'') host of
        Some (name, port) \<Rightarrow>
          if name \<noteq> [] then
            (case parse_uint 65535 port of
               Some p \<Rightarrow> (name, of_nat p)
             | None \<Rightarrow> (host, default_port))
          else (host, default_port)
      | None \<Rightarrow> (host, default_port))"

section \<open>Response heads from Rack headers\<close>

text \<open>
  A Ruby value as header names and values see it: a String, an Array with its elements and
  what its \<open>to_s\<close> gives, or another object with what its \<open>to_s\<close> gives or raises.
\<close>

datatype rb_value = RStr bytes | RArr "rb_value list" "kino_error + bytes" | RObj "kino_error + bytes"

definition coerce_str :: "rb_value \<Rightarrow> kino_error + bytes" where
  "coerce_str v = (case v of RStr s \<Rightarrow> Inr s | RArr _ s \<Rightarrow> s | RObj s \<Rightarrow> s)"

fun add_values ::
  "'h header_ops \<Rightarrow> bytes \<Rightarrow> rb_value list \<Rightarrow> 'h builder \<Rightarrow> kino_error + 'h builder" where
  "add_values H name [] b = Inr b"
| "add_values H name (v # vs) b =
     (case coerce_str v of Inl e \<Rightarrow> Inl e
      | Inr s \<Rightarrow> add_values H name vs (builder_header H b name s))"

fun add_headers ::
  "'h header_ops \<Rightarrow> (rb_value \<times> rb_value) list \<Rightarrow> 'h builder \<Rightarrow> kino_error + 'h builder" where
  "add_headers H [] b = Inr b"
| "add_headers H ((n, v) # hs) b =
     (case coerce_str n of Inl e \<Rightarrow> Inl e
      | Inr name \<Rightarrow>
          (case add_values H name (case v of RArr vs _ \<Rightarrow> vs | _ \<Rightarrow> [v]) b of
             Inl e \<Rightarrow> Inl e
           | Inr b' \<Rightarrow> add_headers H hs b'))"

definition build_head ::
  "'h header_ops \<Rightarrow> u16 \<Rightarrow> (rb_value \<times> rb_value) list \<Rightarrow> kino_error + 'h builder" where
  "build_head H st hs = add_headers H hs (builder_status H st)"

definition invalid_response :: "'h header_ops \<Rightarrow> kino_error" where
  "invalid_response H = RubyError (''invalid response: '' @ hm_error H)"

section \<open>The handle\<close>

text \<open>
  What a Ruby request handle reaches: its context, its responder, the interrupt flag of its
  slot and the server's pin slab.
\<close>

record ('h, 'b, 'o, 'c) req_state =
  rq_ctx :: "('h, 'b) request_ctx"
  rq_responder :: "('o, 'c) responder"
  rq_interrupted :: bool
  rq_slab :: pin_slab

definition interrupted_error :: kino_error where
  "interrupted_error = RubyError ''Kino: request interrupted during shutdown''"
definition body_too_large_error :: kino_error where
  "body_too_large_error = RubyError ''Kino: request body exceeded max_body_size''"
definition body_timeout_error :: kino_error where
  "body_timeout_error = RubyError ''Kino: request body read timed out''"
definition stream_closed_error :: kino_error where
  "stream_closed_error = RubyError ''Kino: response stream not started or already finished''"

text \<open>\<open>body_bytes\<close>: the bytes for hyper, and the pinned buffer they come from, if any.\<close>

definition body_bytes ::
  "ruby_strings \<Rightarrow> pin_slab \<Rightarrow> u64 \<Rightarrow> pin_slab \<times> bytes \<times> pinned_buf option" where
  "body_bytes R slab body =
     (case pinned_bytes R slab body of
        (slab', Some b) \<Rightarrow> (slab', pb_view b, Some b)
      | (slab', None) \<Rightarrow> (slab', rb_bytes R body, None))"

text \<open>Dropping bytes releases the slot they were pinned in.\<close>

definition drop_bytes :: "pinned_buf option \<Rightarrow> pin_slab \<Rightarrow> pin_slab" where
  "drop_bytes b slab = (case b of None \<Rightarrow> slab | Some p \<Rightarrow> drop_pinned_buf slab p)"

definition respond_simple ::
  "'h header_ops \<Rightarrow> ('h response, 'o) oneshot \<Rightarrow> ruby_strings \<Rightarrow> instant \<Rightarrow> u16
     \<Rightarrow> (rb_value \<times> rb_value) list \<Rightarrow> u64 \<Rightarrow> ('h, 'b, 'o, 'c) req_state
     \<Rightarrow> ('h, 'b, 'o, 'c) req_state \<times> (kino_error + bool)" where
  "respond_simple H P R now st hs body q =
     (case build_head H st hs of
        Inl e \<Rightarrow> (q, Inl e)
      | Inr b \<Rightarrow>
          (case body_bytes R (rq_slab q) body of
             (slab, bs, pinned) \<Rightarrow>
               (case builder_body (timed now (rq_ctx q) b) (FullBody bs) of
                  None \<Rightarrow> (q\<lparr>rq_slab := drop_bytes pinned slab\<rparr>, Inl (invalid_response H))
                | Some resp \<Rightarrow>
                    (case send_response P resp (rq_responder q) of
                       (r, ok) \<Rightarrow>
                         (q\<lparr>rq_responder := r, rq_slab := (if ok then slab else drop_bytes pinned slab)\<rparr>,
                          Inr ok)))))"

definition set_timing :: "u64 \<Rightarrow> u64 \<Rightarrow> ('h, 'b, 'o, 'c) req_state \<Rightarrow> ('h, 'b, 'o, 'c) req_state" where
  "set_timing gc_nanos allocs q = q\<lparr>rq_ctx := (rq_ctx q)\<lparr>cx_gc := Some (unat gc_nanos, allocs)\<rparr>\<rparr>"

definition send_headers ::
  "'h header_ops \<Rightarrow> ('h response, 'o) oneshot \<Rightarrow> (frame_result, 'c) flume \<Rightarrow> instant \<Rightarrow> u16
     \<Rightarrow> (rb_value \<times> rb_value) list \<Rightarrow> ('h, 'b, 'o, 'c) req_state
     \<Rightarrow> ('h, 'b, 'o, 'c) req_state \<times> (kino_error + bool)" where
  "send_headers H P F now st hs q =
     (case build_head H st hs of
        Inl e \<Rightarrow> (q, Inl e)
      | Inr b \<Rightarrow>
          (case send_stream_head P F (timed now (rq_ctx q) b) (rq_responder q) of
             (r, None) \<Rightarrow> (q\<lparr>rq_responder := r\<rparr>, Inl (invalid_response H))
           | (r, Some ok) \<Rightarrow> (q\<lparr>rq_responder := r\<rparr>, Inr ok)))"

section \<open>Reading the body\<close>

text \<open>\<open>recv_timeout(TICK)\<close>: a receive, and one more after the wait when nothing was there.\<close>

definition on_body ::
  "('b \<Rightarrow> 'b \<times> 'r) \<Rightarrow> 'r \<Rightarrow> ('h, 'b, 'o, 'c) req_state \<Rightarrow> ('h, 'b, 'o, 'c) req_state \<times> 'r" where
  "on_body f dflt q =
     (case cx_body_rx (rq_ctx q) of
        None \<Rightarrow> (q, dflt)
      | Some rx \<Rightarrow> (case f rx of (rx', r) \<Rightarrow> (q\<lparr>rq_ctx := (rq_ctx q)\<lparr>cx_body_rx := Some rx'\<rparr>\<rparr>, r)))"

definition recv_timeout :: "('s \<Rightarrow> 's \<times> 'a recv_result) \<Rightarrow> ('s \<Rightarrow> 's) \<Rightarrow> 's \<Rightarrow> 's \<times> 'a recv_result" where
  "recv_timeout recv wait s =
     (case recv s of
        (s', RecvEmpty) \<Rightarrow> recv (wait s')
      | (s', r) \<Rightarrow> (s', r))"

definition body_recv ::
  "(bytes, 'b) flume \<Rightarrow> ('h, 'b, 'o, 'c) req_state \<Rightarrow> ('h, 'b, 'o, 'c) req_state \<times> bytes recv_result" where
  "body_recv B q = on_body (ch_try_recv B) RecvDisconnected q"

definition read_attempt ::
  "(bytes, 'b) flume \<Rightarrow> (nat \<Rightarrow> ('h, 'b, 'o, 'c) req_state \<Rightarrow> ('h, 'b, 'o, 'c) req_state) \<Rightarrow> nat
     \<Rightarrow> ('h, 'b, 'o, 'c) req_state \<Rightarrow> ('h, 'b, 'o, 'c) req_state \<times> bytes option attempt" where
  "read_attempt B wait k q =
     (case recv_timeout (body_recv B) (wait k) q of
        (q', Received bs) \<Rightarrow> (q', Done (Some bs))
      | (q', RecvEmpty) \<Rightarrow> (q', Tick)
      | (q', RecvDisconnected) \<Rightarrow> (q', Done None))"

text \<open>
  The greedy drain: \<open>n\<close> bounds the receives by what is queued; \<open>out\<close> is what is
  assembled so far.
\<close>

definition set_leftover :: "bytes \<Rightarrow> ('h, 'b, 'o, 'c) req_state \<Rightarrow> ('h, 'b, 'o, 'c) req_state" where
  "set_leftover bs q = q\<lparr>rq_ctx := (rq_ctx q)\<lparr>cx_leftover := Some bs\<rparr>\<rparr>"

fun greedy_drain ::
  "nat \<Rightarrow> (bytes, 'b) flume \<Rightarrow> nat \<Rightarrow> bytes \<Rightarrow> ('h, 'b, 'o, 'c) req_state
     \<Rightarrow> ('h, 'b, 'o, 'c) req_state \<times> bytes" where
  "greedy_drain 0 B max_len out q = (q, out)"
| "greedy_drain (Suc n) B max_len out q =
     (if length out < max_len then
        (case body_recv B q of
           (q', Received frame) \<Rightarrow>
             (let room = max_len - length out;
                  q'' = (if room < length frame then set_leftover (drop room frame) q' else q')
              in greedy_drain n B max_len (out @ take room frame) q'')
         | (q', _) \<Rightarrow> (q', out))
      else (q, out))"

definition finish_read ::
  "(bytes, 'b) flume \<Rightarrow> nat \<Rightarrow> bytes \<Rightarrow> ('h, 'b, 'o, 'c) req_state
     \<Rightarrow> ('h, 'b, 'o, 'c) req_state \<times> (kino_error + bytes option)" where
  "finish_read B max_len chunk q =
     (if max_len < length chunk
      then (set_leftover (drop max_len chunk) q, Inr (Some (take max_len chunk)))
      else (case cx_body_rx (rq_ctx q) of
              None \<Rightarrow> (q, Inr (Some chunk))
            | Some rx \<Rightarrow>
                (case greedy_drain (ch_len B rx) B max_len chunk q of
                   (q', out) \<Rightarrow> (q', Inr (Some out)))))"

definition read_body ::
  "nat \<Rightarrow> (nat \<Rightarrow> ('h, 'b, 'o, 'c) req_state \<Rightarrow> ('h, 'b, 'o, 'c) req_state)
     \<Rightarrow> (nat \<Rightarrow> ('h, 'b, 'o, 'c) req_state \<Rightarrow> ('h, 'b, 'o, 'c) req_state)
     \<Rightarrow> (bytes, 'b) flume \<Rightarrow> nat \<Rightarrow> ('h, 'b, 'o, 'c) req_state
     \<Rightarrow> (('h, 'b, 'o, 'c) req_state \<times> (kino_error + bytes option)) option" where
  "read_body ticks env wait B max_len q =
     (let max_len = max max_len 1 in
      case cx_leftover (rq_ctx q) of
        Some bs \<Rightarrow> Some (finish_read B max_len bs (q\<lparr>rq_ctx := (rq_ctx q)\<lparr>cx_leftover := None\<rparr>\<rparr>))
      | None \<Rightarrow>
          (if cx_body_rx (rq_ctx q) = None then Some (q, Inr None)
           else case interruptible ticks env rq_interrupted (read_attempt B wait) 0 q of
                  None \<Rightarrow> None
                | Some (q', Inl e) \<Rightarrow> Some (q', Inl e)
                | Some (q', Inr None) \<Rightarrow> Some (q', Inl interrupted_error)
                | Some (q', Inr (Some (Some bs))) \<Rightarrow> Some (finish_read B max_len bs q')
                | Some (q', Inr (Some None)) \<Rightarrow>
                    Some (q', case body_abandoned (rq_responder q') of
                                Some Oversize \<Rightarrow> Inl body_too_large_error
                              | Some TimedOut \<Rightarrow> Inl body_timeout_error
                              | None \<Rightarrow> Inr None)))"

section \<open>Streaming\<close>

text \<open>
  \<open>write_chunk\<close>: the frame goes out when the channel has room; a client that is gone
  swallows it. The cloned sender is dropped on return. Bytes that were not handed to hyper
  are dropped.
\<close>

definition on_frames ::
  "('c \<Rightarrow> 'c \<times> 'r) \<Rightarrow> 'r \<Rightarrow> ('h, 'b, 'o, 'c) req_state \<Rightarrow> ('h, 'b, 'o, 'c) req_state \<times> 'r" where
  "on_frames f dflt q =
     (case rp_frames (rq_responder q) of
        None \<Rightarrow> (q, dflt)
      | Some c \<Rightarrow>
          (case f c of (c', r) \<Rightarrow> (q\<lparr>rq_responder := (rq_responder q)\<lparr>rp_frames := Some c'\<rparr>\<rparr>, r)))"

definition write_attempt ::
  "(frame_result, 'c) flume \<Rightarrow> frame_result
     \<Rightarrow> (nat \<Rightarrow> ('h, 'b, 'o, 'c) req_state \<Rightarrow> ('h, 'b, 'o, 'c) req_state) \<Rightarrow> nat
     \<Rightarrow> ('h, 'b, 'o, 'c) req_state \<Rightarrow> ('h, 'b, 'o, 'c) req_state \<times> bool attempt" where
  "write_attempt F frame wait k q =
     (let send = on_frames (\<lambda>c. ch_try_send F c frame) (SendDisconnected frame)
      in case (case send q of (q', SendFull _) \<Rightarrow> send (wait k q') | r \<Rightarrow> r) of
           (q', Sent) \<Rightarrow> (q', Done True)
         | (q', SendFull _) \<Rightarrow> (q', Tick)
         | (q', SendDisconnected _) \<Rightarrow> (q', Done False))"

definition drop_frame_sender ::
  "(frame_result, 'c) flume \<Rightarrow> ('h, 'b, 'o, 'c) req_state \<Rightarrow> ('h, 'b, 'o, 'c) req_state" where
  "drop_frame_sender F q = fst (on_frames (\<lambda>c. (ch_drop_sender F c, ())) () q)"

definition write_chunk ::
  "nat \<Rightarrow> (nat \<Rightarrow> ('h, 'b, 'o, 'c) req_state \<Rightarrow> ('h, 'b, 'o, 'c) req_state)
     \<Rightarrow> (nat \<Rightarrow> ('h, 'b, 'o, 'c) req_state \<Rightarrow> ('h, 'b, 'o, 'c) req_state)
     \<Rightarrow> (frame_result, 'c) flume \<Rightarrow> ruby_strings \<Rightarrow> u64 \<Rightarrow> ('h, 'b, 'o, 'c) req_state
     \<Rightarrow> (('h, 'b, 'o, 'c) req_state \<times> (kino_error + unit)) option" where
  "write_chunk ticks env wait F R chunk q =
     (case body_sender F (rq_responder q) of
        (r, False) \<Rightarrow> Some (q\<lparr>rq_responder := r\<rparr>, Inl stream_closed_error)
      | (r, True) \<Rightarrow>
          (case body_bytes R (rq_slab q) chunk of
             (slab, bs, pinned) \<Rightarrow>
               (case interruptible ticks env rq_interrupted (write_attempt F (DataFrame bs) wait) 0
                       (q\<lparr>rq_responder := r, rq_slab := slab\<rparr>) of
                  None \<Rightarrow> None
                | Some (q', res) \<Rightarrow>
                    let unsent = q'\<lparr>rq_slab := drop_bytes pinned (rq_slab q')\<rparr>
                    in Some (case res of
                         Inl e \<Rightarrow> (drop_frame_sender F unsent, Inl e)
                       | Inr None \<Rightarrow> (drop_frame_sender F unsent, Inl interrupted_error)
                       | Inr (Some True) \<Rightarrow> (drop_frame_sender F q', Inr ())
                       | Inr (Some False) \<Rightarrow> (drop_frame_sender F unsent, Inr ())))))"

definition request_finish ::
  "(frame_result, 'c) flume \<Rightarrow> ('h, 'b, 'o, 'c) req_state \<Rightarrow> ('h, 'b, 'o, 'c) req_state" where
  "request_finish F q = q\<lparr>rq_responder := finish_stream F (rq_responder q)\<rparr>"

definition request_abort ::
  "'h header_ops \<Rightarrow> ('h response, 'o) oneshot \<Rightarrow> (frame_result, 'c) flume
     \<Rightarrow> ('h, 'b, 'o, 'c) req_state \<Rightarrow> ('h, 'b, 'o, 'c) req_state outcome" where
  "request_abort H P F q =
     (case respond_500_if_unsent H P F (rq_responder q) of
        Returns r \<Rightarrow> Returns (q\<lparr>rq_responder := r\<rparr>)
      | Blocked r \<Rightarrow> Blocked (q\<lparr>rq_responder := r\<rparr>))"

section \<open>Forwarding body frames\<close>

text \<open>
  What \<open>body.frame()\<close> gives under the idle deadline: a data frame, another frame (trailers), an
  error, the end of the body, or the deadline itself.
\<close>

datatype body_event = DataEv bytes | OtherEv | ErrorEv | EndEv | StalledEv

datatype forward = ForwardData bytes u64 | ForwardSkip | ForwardStop "body_abandon option"

text \<open>One turn of the forwarder's loop, with the running total.\<close>

definition forward_frame :: "usize \<Rightarrow> u64 \<Rightarrow> body_event \<Rightarrow> forward" where
  "forward_frame max_body sofar ev =
     (case ev of
        DataEv bs \<Rightarrow>
          (let total' = sofar + of_nat (length bs)
           in if 0 < max_body \<and> max_body < total' then ForwardStop (Some Oversize)
              else ForwardData bs total')
      | OtherEv \<Rightarrow> ForwardSkip
      | ErrorEv \<Rightarrow> ForwardStop None
      | EndEv \<Rightarrow> ForwardStop None
      | StalledEv \<Rightarrow> ForwardStop (Some TimedOut))"


section \<open>One request body end to end\<close>

text \<open>
  The forwarder and the app share the body channel and the abandonment flag. The forwarder
  takes events from hyper, waits for room, raises the flag before it drops its sender; the
  app reads at will. \<open>bs_sent\<close> and \<open>bs_read\<close> record what was put in and what the app
  got; \<open>bs_eof\<close> that the app was told the body is over.
\<close>

datatype forwarder_pc = FRunning | FHolding bytes | FStopping | FDone

record ('h, 'b, 'o, 'c) body_sys =
  bs_req :: "('h, 'b, 'o, 'c) req_state"
  bs_fwd :: forwarder_pc
  bs_total :: u64
  bs_sent :: bytes
  bs_read :: bytes
  bs_eof :: bool

definition set_body :: "'b \<Rightarrow> ('h, 'b, 'o, 'c) req_state \<Rightarrow> ('h, 'b, 'o, 'c) req_state" where
  "set_body rx q = q\<lparr>rq_ctx := (rq_ctx q)\<lparr>cx_body_rx := Some rx\<rparr>\<rparr>"

definition abandon_with :: "body_abandon option \<Rightarrow> ('h, 'b, 'o, 'c) req_state \<Rightarrow> ('h, 'b, 'o, 'c) req_state" where
  "abandon_with why q =
     (case why of None \<Rightarrow> q | Some w \<Rightarrow> q\<lparr>rq_responder := abandon_body w (rq_responder q)\<rparr>)"

abbreviation quiet :: "nat \<Rightarrow> 's \<Rightarrow> 's" where
  "quiet \<equiv> \<lambda>_ s. s"

inductive body_step ::
  "(bytes, 'b) flume \<Rightarrow> usize \<Rightarrow> ('h, 'b, 'o, 'c) body_sys \<Rightarrow> ('h, 'b, 'o, 'c) body_sys \<Rightarrow> bool"
  for B :: "(bytes, 'b) flume" and max_body :: usize where
  fwd_data: "bs_fwd s = FRunning \<Longrightarrow> length bs < 2 ^ 63
    \<Longrightarrow> forward_frame max_body (bs_total s) (DataEv bs) = ForwardData bs t
    \<Longrightarrow> body_step B max_body s (s\<lparr>bs_fwd := FHolding bs, bs_total := t\<rparr>)"
| fwd_send: "bs_fwd s = FHolding bs \<Longrightarrow> cx_body_rx (rq_ctx (bs_req s)) = Some rx
    \<Longrightarrow> ch_try_send B rx bs = (rx', Sent)
    \<Longrightarrow> body_step B max_body s
          (s\<lparr>bs_fwd := FRunning, bs_req := set_body rx' (bs_req s), bs_sent := bs_sent s @ bs\<rparr>)"
| fwd_gone: "bs_fwd s = FHolding bs \<Longrightarrow> cx_body_rx (rq_ctx (bs_req s)) = Some rx
    \<Longrightarrow> ch_try_send B rx bs = (rx', SendDisconnected bs)
    \<Longrightarrow> body_step B max_body s (s\<lparr>bs_fwd := FStopping\<rparr>)"
| fwd_stop: "bs_fwd s = FRunning \<Longrightarrow> length bs < 2 ^ 63
    \<Longrightarrow> ev \<in> {DataEv bs, ErrorEv, EndEv, StalledEv}
    \<Longrightarrow> forward_frame max_body (bs_total s) ev = ForwardStop why
    \<Longrightarrow> body_step B max_body s (s\<lparr>bs_fwd := FStopping, bs_req := abandon_with why (bs_req s)\<rparr>)"
| fwd_drop: "bs_fwd s = FStopping \<Longrightarrow> cx_body_rx (rq_ctx (bs_req s)) = Some rx
    \<Longrightarrow> body_step B max_body s (s\<lparr>bs_fwd := FDone, bs_req := set_body (ch_drop_sender B rx) (bs_req s)\<rparr>)"
| app_read: "read_body 1 quiet quiet B m (bs_req s) = Some (q, Inr (Some out))
    \<Longrightarrow> body_step B max_body s (s\<lparr>bs_req := q, bs_read := bs_read s @ out\<rparr>)"
| app_eof: "read_body 1 quiet quiet B m (bs_req s) = Some (q, Inr None)
    \<Longrightarrow> body_step B max_body s (s\<lparr>bs_req := q, bs_eof := True\<rparr>)"
| app_err: "read_body 1 quiet quiet B m (bs_req s) = Some (q, Inl e)
    \<Longrightarrow> body_step B max_body s (s\<lparr>bs_req := q\<rparr>)"

definition BODY_BUFFER :: nat where
  "BODY_BUFFER = 8"

text \<open>The state in which \<open>handle_request\<close> leaves a request that has a body.\<close>

definition body_start :: "(bytes, 'b) flume \<Rightarrow> ('h, 'b, 'o, 'c) body_sys \<Rightarrow> bool" where
  "body_start B s \<longleftrightarrow>
     cx_body_rx (rq_ctx (bs_req s)) = Some (ch_bounded B BODY_BUFFER)
     \<and> cx_leftover (rq_ctx (bs_req s)) = None
     \<and> rp_body_abandoned (rq_responder (bs_req s)) = 0
     \<and> bs_fwd s = FRunning \<and> bs_total s = 0 \<and> bs_sent s = [] \<and> bs_read s = [] \<and> \<not> bs_eof s"

definition pending_body :: "('b \<Rightarrow> bytes list) \<Rightarrow> ('h, 'b, 'o, 'c) req_state \<Rightarrow> bytes" where
  "pending_body items q =
     (case cx_leftover (rq_ctx q) of None \<Rightarrow> [] | Some bs \<Rightarrow> bs)
     @ (case cx_body_rx (rq_ctx q) of None \<Rightarrow> [] | Some rx \<Rightarrow> concat (items rx))"

locale body_channel = flume_channel B items cap senders alive
  for B :: "(bytes, 'b) flume" and items cap senders alive
begin

abbreviation pending :: "('h, 'b, 'o, 'c) req_state \<Rightarrow> bytes" where
  "pending \<equiv> pending_body items"

text \<open>
  Reading touches only the queued items: the responder, the flag and the channel's other
  observations stay.
\<close>

definition same_channel :: "('h, 'b, 'o, 'c) req_state \<Rightarrow> ('h, 'b, 'o, 'c) req_state \<Rightarrow> bool" where
  "same_channel q q' \<longleftrightarrow>
     rq_responder q' = rq_responder q \<and> rq_interrupted q' = rq_interrupted q \<and> rq_slab q' = rq_slab q
     \<and> (\<forall>rx. cx_body_rx (rq_ctx q) = Some rx \<longrightarrow>
          (\<exists>rx'. cx_body_rx (rq_ctx q') = Some rx' \<and> cap rx' = cap rx \<and> senders rx' = senders rx
            \<and> alive rx' = alive rx \<and> length (items rx') \<le> length (items rx)))"

lemma same_channel_refl [simp]: "same_channel q q"
  by (simp add: same_channel_def)

lemma same_channel_trans: "same_channel p q \<Longrightarrow> same_channel q r \<Longrightarrow> same_channel p r"
proof (cases "cx_body_rx (rq_ctx p)")
  case (Some rx)
  assume pq: "same_channel p q" and qr: "same_channel q r"
  from pq Some obtain rq where "cx_body_rx (rq_ctx q) = Some rq" "cap rq = cap rx"
    "senders rq = senders rx" "alive rq = alive rx" "length (items rq) \<le> length (items rx)"
    by (auto simp: same_channel_def)
  moreover from this qr obtain rr where "cx_body_rx (rq_ctx r) = Some rr" "cap rr = cap rq"
    "senders rr = senders rq" "alive rr = alive rq" "length (items rr) \<le> length (items rq)"
    by (auto simp: same_channel_def)
  ultimately show ?thesis using pq qr Some by (simp add: same_channel_def)
qed (simp add: same_channel_def)

lemma same_channel_leftover [simp]: "same_channel p (set_leftover bs q) = same_channel p q"
  by (simp add: same_channel_def set_leftover_def)

lemma body_recv_cases:
  assumes "cx_body_rx (rq_ctx q) = Some rx"
  obtains (item) x q' rx' where "body_recv B q = (q', Received x)" "same_channel q q'"
      "cx_leftover (rq_ctx q') = cx_leftover (rq_ctx q)" "cx_body_rx (rq_ctx q') = Some rx'"
      "items rx = x # items rx'"
  | (empty) "body_recv B q = (q, RecvEmpty)" "items rx = []" "0 < senders rx"
  | (gone) "body_recv B q = (q, RecvDisconnected)" "items rx = []" "senders rx = 0"
proof (cases rule: recv_cases[of rx])
  case (item x c')
  then show ?thesis
    using assms that(1)[of "q\<lparr>rq_ctx := (rq_ctx q)\<lparr>cx_body_rx := Some c'\<rparr>\<rparr>" x c']
    by (simp add: body_recv_def on_body_def same_channel_def)
next
  case empty
  then show ?thesis using assms that(2) by (simp add: body_recv_def on_body_def)
next
  case gone
  then show ?thesis using assms that(3) by (simp add: body_recv_def on_body_def)
qed

lemma greedy_drain_spec:
  assumes "greedy_drain n B m out q = (q', out')" "cx_body_rx (rq_ctx q) = Some rx"
    and "cx_leftover (rq_ctx q) = None \<or> length out = m" "length out \<le> m"
  shows "out' @ pending q' = out @ pending q \<and> length out' \<le> m \<and> same_channel q q'
    \<and> (length (items rx) \<le> n \<longrightarrow> length out' = m \<or> pending q' = [])"
  using assms
proof (induction n arbitrary: out q rx)
  case 0
  then show ?case by (auto simp: pending_body_def)
next
  case (Suc n)
  show ?case
  proof (cases "length out < m")
    case False
    with Suc.prems show ?thesis by auto
  next
    case True
    then have lo: "cx_leftover (rq_ctx q) = None" using Suc.prems by auto
    show ?thesis
    proof (cases rule: body_recv_cases[OF Suc.prems(2)])
      case (1 x q1 rx1)
      let ?room = "m - length out"
      let ?q = "if ?room < length x then set_leftover (drop ?room x) q1 else q1"
      have step: "greedy_drain n B m (out @ take ?room x) ?q = (q', out')"
        using Suc.prems(1) True 1(1) by (simp add: Let_def)
      have rx: "cx_body_rx (rq_ctx ?q) = Some rx1" using 1(4) by (simp add: set_leftover_def)
      have same: "same_channel q ?q" using 1(2) by simp
      have pend: "(out @ take ?room x) @ pending ?q = out @ pending q"
        using 1 lo Suc.prems(2) by (auto simp: pending_body_def set_leftover_def)
      have "out' @ pending q' = (out @ take ?room x) @ pending ?q \<and> length out' \<le> m \<and> same_channel ?q q'
        \<and> (length (items rx1) \<le> n \<longrightarrow> length out' = m \<or> pending q' = [])"
        by (rule Suc.IH[OF step rx]) (use 1(3) lo True in \<open>auto simp: set_leftover_def\<close>)
      then show ?thesis using pend 1(5) same same_channel_trans by auto
    next
      case 2
      with Suc.prems True lo show ?thesis by (auto simp: pending_body_def)
    next
      case 3
      with Suc.prems True lo show ?thesis by (auto simp: pending_body_def)
    qed
  qed
qed

text \<open>A read that has its first chunk in hand loses no byte and keeps to its limit.\<close>

lemma finish_read_spec:
  assumes "finish_read B m chunk q = (q', res)" "cx_leftover (rq_ctx q) = None" "0 < m"
  shows "\<exists>out. res = Inr (Some out) \<and> out @ pending q' = chunk @ pending q \<and> length out \<le> m
    \<and> same_channel q q' \<and> (length out = m \<or> pending q' = [])"
proof (cases "m < length chunk")
  case True
  with assms show ?thesis
    by (auto simp: finish_read_def set_leftover_def pending_body_def same_channel_def)
next
  case False
  show ?thesis
  proof (cases "cx_body_rx (rq_ctx q)")
    case None
    with assms False show ?thesis by (auto simp: finish_read_def pending_body_def)
  next
    case (Some rx)
    obtain q1 out where g: "greedy_drain (ch_len B rx) B m chunk q = (q1, out)" by force
    from greedy_drain_spec[OF g Some] assms False Some g show ?thesis
      by (auto simp: finish_read_def len_items)
  qed
qed

text \<open>A read at a moment when no one else acts.\<close>

lemma read_body_quiet:
  assumes "read_body 1 quiet quiet B m q = Some (q', res)" "cx_body_rx (rq_ctx q) = Some rx"
  shows "(case res of
       Inr (Some out) \<Rightarrow> out @ pending q' = pending q \<and> length out \<le> max m 1
         \<and> (length out = max m 1 \<or> pending q' = []) \<and> same_channel q q'
     | Inr None \<Rightarrow> q' = q \<and> pending q = [] \<and> senders rx = 0 \<and> body_abandoned (rq_responder q) = None
     | Inl e \<Rightarrow> q' = q \<and> (rq_interrupted q \<or> pending q = [] \<and> senders rx = 0
         \<and> body_abandoned (rq_responder q) \<noteq> None))"
proof (cases "cx_leftover (rq_ctx q)")
  case (Some bs)
  let ?q = "q\<lparr>rq_ctx := (rq_ctx q)\<lparr>cx_leftover := None\<rparr>\<rparr>"
  have f: "finish_read B (max m 1) bs ?q = (q', res)"
    using assms(1) Some by (simp add: read_body_def)
  have "same_channel ?q q' \<Longrightarrow> same_channel q q'" by (simp add: same_channel_def)
  moreover have "bs @ pending ?q = pending q" using Some by (simp add: pending_body_def)
  ultimately show ?thesis using finish_read_spec[OF f] by fastforce
next
  case None
  show ?thesis
  proof (cases "rq_interrupted q")
    case True
    with assms None show ?thesis by (auto simp: read_body_def Let_def)
  next
    case False
    show ?thesis
    proof (cases rule: body_recv_cases[OF assms(2)])
      case (1 x q1 rx1)
      then have f: "finish_read B (max m 1) x q1 = (q', res)"
        using assms None False by (simp add: read_body_def read_attempt_def recv_timeout_def Let_def)
      have "x @ pending q1 = pending q" using 1 None assms(2) by (simp add: pending_body_def)
      moreover have "cx_leftover (rq_ctx q1) = None" using 1(3) None by simp
      ultimately show ?thesis using finish_read_spec[OF f] same_channel_trans[OF 1(2), of q'] by fastforce
    next
      case 2
      with assms None False show ?thesis
        by (simp add: read_body_def read_attempt_def recv_timeout_def Let_def)
    next
      case 3
      with assms None False show ?thesis
        by (auto simp: read_body_def read_attempt_def recv_timeout_def Let_def pending_body_def
            split: option.splits body_abandon.splits)
    qed
  qed
qed

text \<open>
  The invariant: bytes read, pending and forwarded agree; the forwarder holds the only
  sender until it is done; the app is told of the end only when all was read and
  nothing was abandoned; and the running total is what was forwarded or is held.
\<close>

definition held :: "forwarder_pc \<Rightarrow> bytes" where
  "held pc = (case pc of FHolding bs \<Rightarrow> bs | _ \<Rightarrow> [])"

definition body_inv :: "usize \<Rightarrow> ('h, 'b, 'o, 'c) body_sys \<Rightarrow> bool" where
  "body_inv max_body s \<longleftrightarrow>
     bs_read s @ pending (bs_req s) = bs_sent s
     \<and> (\<exists>rx. cx_body_rx (rq_ctx (bs_req s)) = Some rx \<and> cap rx = BODY_BUFFER
          \<and> senders rx = (if bs_fwd s = FDone then 0 else 1))
     \<and> (bs_fwd s \<in> {FStopping, FDone}
          \<or> body_abandoned (rq_responder (bs_req s)) = None)
     \<and> (bs_eof s \<longrightarrow> bs_fwd s = FDone \<and> bs_read s = bs_sent s
          \<and> body_abandoned (rq_responder (bs_req s)) = None)
     \<and> (0 < max_body \<longrightarrow> length (bs_sent s @ held (bs_fwd s)) \<le> unat max_body
          \<and> (bs_fwd s \<in> {FStopping, FDone} \<or> unat (bs_total s) = length (bs_sent s @ held (bs_fwd s))))"

lemma pending_set_body:
  "cx_body_rx (rq_ctx q) = Some rx \<Longrightarrow> items rx' = items rx @ [bs] \<Longrightarrow> pending (set_body rx' q) = pending q @ bs"
  by (simp add: pending_body_def set_body_def)

lemma forward_total:
  assumes "forward_frame max_body sofar (DataEv bs) = ForwardData bs n"
    and "unat sofar \<le> unat max_body" "unat max_body < 2 ^ 63" "length bs < 2 ^ 63"
  shows "unat n = unat sofar + length bs"
proof -
  have "unat sofar + unat (of_nat (length bs) :: u64) < 2 ^ 64" using assms(2-4) by simp
  then have "unat (sofar + of_nat (length bs)) = unat sofar + length bs"
    using assms(4) by (subst unat_add_lem[THEN iffD1]) simp_all
  then show ?thesis using assms(1) by (simp add: forward_frame_def Let_def split: if_splits)
qed

lemma body_inv_step:
  assumes cap: "unat max_body < 2 ^ 63"
  shows "body_step B max_body s t \<Longrightarrow> body_inv max_body s \<Longrightarrow> body_inv max_body t"
proof (induction rule: body_step.induct)
  case (fwd_data s bs n)
  have "unat n = unat (bs_total s) + length bs" if "0 < max_body"
    using fwd_data that cap by (intro forward_total[OF fwd_data(3)]) (auto simp: body_inv_def)
  then show ?case
    using fwd_data by (auto simp: body_inv_def held_def forward_frame_def Let_def word_le_nat_alt
        word_less_nat_alt not_less split: if_splits)
next
  case (fwd_send s bs rx rx')
  then have "cap rx = BODY_BUFFER" by (auto simp: body_inv_def)
  then have "items rx' = items rx @ [bs]" "cap rx' = cap rx" "senders rx' = senders rx"
    using send_SentD[OF fwd_send(3)] by (simp_all add: BODY_BUFFER_def)
  then show ?case
    using fwd_send pending_set_body[OF fwd_send(2)] by (auto simp: body_inv_def held_def set_body_def)
next
  case (fwd_gone s bs rx rx')
  then show ?case by (auto simp: body_inv_def held_def)
next
  case (fwd_stop s bs ev why)
  then show ?case
    by (cases why) (auto simp: body_inv_def held_def abandon_with_def pending_body_def)
next
  case (fwd_drop s rx)
  then show ?case by (auto simp: body_inv_def held_def set_body_def pending_body_def)
next
  case (app_read m s q out)
  then obtain rx where rx: "cx_body_rx (rq_ctx (bs_req s)) = Some rx" by (auto simp: body_inv_def)
  from read_body_quiet[OF app_read(1) rx] have
    r: "out @ pending q = pending (bs_req s)" and same: "same_channel (bs_req s) q" by simp_all
  from same rx obtain rx' where "cx_body_rx (rq_ctx q) = Some rx'" "cap rx' = cap rx"
    "senders rx' = senders rx" "rq_responder q = rq_responder (bs_req s)"
    by (auto simp: same_channel_def)
  moreover have "bs_eof s \<longrightarrow> out = []" using r app_read(2) by (auto simp: body_inv_def)
  ultimately show ?case using app_read(2) r rx by (auto simp: body_inv_def)
next
  case (app_eof m s q)
  then obtain rx where rx: "cx_body_rx (rq_ctx (bs_req s)) = Some rx" by (auto simp: body_inv_def)
  from read_body_quiet[OF app_eof(1) rx] app_eof(2) rx show ?case
    by (auto simp: body_inv_def split: if_splits)
next
  case (app_err m s q e)
  then obtain rx where rx: "cx_body_rx (rq_ctx (bs_req s)) = Some rx" by (auto simp: body_inv_def)
  from read_body_quiet[OF app_err(1) rx] app_err(2) rx show ?case by simp
qed

lemma body_inv_start: "body_start B s \<Longrightarrow> body_inv max_body s"
  using bounded_view[of BODY_BUFFER]
  by (auto simp: body_start_def body_inv_def pending_body_def held_def body_abandoned_def BODY_BUFFER_def)

lemma body_system:
  "unat max_body < 2 ^ 63 \<Longrightarrow> invariant_system (body_start B) (body_step B max_body) (body_inv max_body)"
  using body_inv_step body_inv_start by unfold_locales blast+

end

interpretation list_body: body_channel list_flume lc_items lc_cap lc_senders lc_alive
  by unfold_locales


section \<open>Header lists\<close>

text \<open>
  The specification of a head: the name and value pairs a Rack headers Hash stands for, in
  order, or the first error a \<open>to_s\<close> raises.
\<close>

fun coerce_all :: "rb_value list \<Rightarrow> kino_error + bytes list" where
  "coerce_all [] = Inr []"
| "coerce_all (v # vs) =
     (case coerce_str v of Inl e \<Rightarrow> Inl e
      | Inr s \<Rightarrow> (case coerce_all vs of Inl e \<Rightarrow> Inl e | Inr ss \<Rightarrow> Inr (s # ss)))"

fun flatten_headers :: "(rb_value \<times> rb_value) list \<Rightarrow> kino_error + header_list" where
  "flatten_headers [] = Inr []"
| "flatten_headers ((n, v) # hs) =
     (case coerce_str n of Inl e \<Rightarrow> Inl e
      | Inr name \<Rightarrow>
          (case coerce_all (case v of RArr vs _ \<Rightarrow> vs | _ \<Rightarrow> [v]) of Inl e \<Rightarrow> Inl e
           | Inr ss \<Rightarrow>
               (case flatten_headers hs of Inl e \<Rightarrow> Inl e
                | Inr ps \<Rightarrow> Inr (map (Pair name) ss @ ps))))"

definition add_all :: "'h header_ops \<Rightarrow> header_list \<Rightarrow> 'h builder \<Rightarrow> 'h builder" where
  "add_all H ps b = fold (\<lambda>(n, v) b. builder_header H b n v) ps b"

lemma add_values_all:
  "add_values H name vs b =
     (case coerce_all vs of Inl e \<Rightarrow> Inl e | Inr ss \<Rightarrow> Inr (add_all H (map (Pair name) ss) b))"
  by (induction vs arbitrary: b) (auto simp: add_all_def split: sum.splits)

lemma add_headers_all:
  "add_headers H hs b =
     (case flatten_headers hs of Inl e \<Rightarrow> Inl e | Inr ps \<Rightarrow> Inr (add_all H ps b))"
  by (induction hs arbitrary: b rule: flatten_headers.induct)
    (auto simp: add_values_all add_all_def split: sum.splits)

lemma add_all_None [simp]: "add_all H ps None = None"
  by (induction ps) (auto simp: add_all_def builder_header_def)

lemma add_all_Cons [simp]: "add_all H ((n, v) # ps) b = add_all H ps (builder_header H b n v)"
  by (simp add: add_all_def)

lemma add_all_Nil [simp]: "add_all H [] b = b"
  by (simp add: add_all_def)

lemma add_all_Some:
  assumes "header_map H"
  shows "add_all H ps (Some h) = Some h' \<Longrightarrow>
    hd_status h' = hd_status h \<and> hd_timing h' = hd_timing h
    \<and> (\<forall>p \<in> set ps. hm_valid H (fst p) (snd p))
    \<and> hm_get_all H (hd_headers h') n
        = hm_get_all H (hd_headers h) n @ map snd (filter (\<lambda>p. map ascii_lower (fst p) = n) ps)"
proof (induction ps arbitrary: h)
  case Nil
  then show ?case by simp
next
  case (Cons p ps)
  obtain k v where p: "p = (k, v)" by force
  let ?h = "h\<lparr>hd_headers := hm_append H (hd_headers h) k v\<rparr>"
  have valid: "hm_valid H k v" and step: "add_all H ps (Some ?h) = Some h'"
    using Cons.prems p by (auto simp: builder_header_def split: if_splits)
  from Cons.IH[OF step] valid p show ?case
    using header_map.get_all_append[OF assms, of "hd_headers h" k v n] by auto
qed

section \<open>Properties\<close>

definition example_ctx :: "bytes list_chan option \<Rightarrow> (header_list, bytes list_chan) request_ctx" where
  "example_ctx body = \<lparr>cx_method = ''POST'', cx_uri = \<lparr>ur_path = ''/'', ur_query = None, ur_authority = None\<rparr>,
     cx_version = HTTP_11, cx_headers = [], cx_remote_addr = \<lparr>sa_ip = V4 127 0 0 1, sa_port = 40000\<rparr>,
     cx_local_addr = \<lparr>sa_ip = V4 127 0 0 1, sa_port = 9292\<rparr>, cx_https = False, cx_body_rx = body,
     cx_leftover = None, cx_slot = None, cx_responder = 0, cx_enqueued_at = 0, cx_timed = False,
     cx_wait = 0, cx_admitted_at = 0, cx_gc = None\<rparr>"

type_synonym example_req =
  "(header_list, bytes list_chan, header_list response cell, frame_result list_chan) req_state"

definition example_req :: "bytes list \<Rightarrow> bool \<Rightarrow> example_req" where
  "example_req frames intr =
     \<lparr>rq_ctx = example_ctx (Some \<lparr>lc_items = frames, lc_cap = 8, lc_senders = 1, lc_alive = True\<rparr>),
      rq_responder = responder_new cell_oneshot, rq_interrupted = intr, rq_slab = with_capacity 1\<rparr>"


definition body_example :: "(header_list, bytes list_chan, header_list response cell, frame_result list_chan) body_sys" where
  "body_example = \<lparr>bs_req = example_req [] False, bs_fwd = FRunning, bs_total = 2, bs_sent = ''hi'',
     bs_read = ''hi'', bs_eof = False\<rparr>"

lemma body_example_reachable: "reach (body_start list_flume) (body_step list_flume 5) body_example"
proof -
  let ?s0 = "body_example\<lparr>bs_total := 0, bs_sent := [], bs_read := []\<rparr>"
  let ?s1 = "?s0\<lparr>bs_fwd := FHolding ''hi'', bs_total := 2\<rparr>"
  let ?s2 = "?s1\<lparr>bs_fwd := FRunning, bs_req := set_body (\<lparr>lc_items = [''hi''], lc_cap = 8, lc_senders = 1,
      lc_alive = True\<rparr>) (bs_req ?s1), bs_sent := bs_sent ?s1 @ ''hi''\<rparr>"
  have "reach (body_start list_flume) (body_step list_flume 5) ?s0"
    by (rule reach_init) (simp add: body_start_def body_example_def example_req_def example_ctx_def
        list_flume_def BODY_BUFFER_def responder_new_def)
  then have "reach (body_start list_flume) (body_step list_flume 5) ?s1"
    by (rule reach_step) (rule fwd_data; simp add: body_example_def forward_frame_def Let_def)
  then have "reach (body_start list_flume) (body_step list_flume 5) ?s2"
    by (rule reach_step) (rule fwd_send[where rx = "\<lparr>lc_items = [], lc_cap = 8, lc_senders = 1, lc_alive = True\<rparr>"];
        simp add: body_example_def example_req_def example_ctx_def list_flume_def)
  then have "reach (body_start list_flume) (body_step list_flume 5)
      (?s2\<lparr>bs_req := example_req [] False, bs_read := bs_read ?s2 @ ''hi''\<rparr>)"
    by (rule reach_step) (rule app_read[where m = 10]; simp add: body_example_def example_req_def example_ctx_def
        set_body_def read_body_def read_attempt_def recv_timeout_def body_recv_def on_body_def
        list_flume_def finish_read_def Let_def)
  then show ?thesis by (simp add: body_example_def)
qed


text \<open>
  C24: a blocked read or write returns at the first check that finds the interrupt flag
  raised, whatever the channels do.
\<close>

theorem blocked_calls_interruptible:
  assumes "\<And>q. rq_interrupted (env j q)"
  shows "(\<exists>r. read_body (Suc j) env wait B m q = Some r)
    \<and> (\<exists>r. write_chunk (Suc j) env wait F R chunk q = Some r)"
proof
  show "\<exists>r. read_body (Suc j) env wait B m q = Some r"
    using interruptible_flag[of rq_interrupted env j 0 "read_attempt B wait" q] assms
    by (auto simp: read_body_def Let_def simp del: interruptible.simps split: option.splits sum.splits)
  obtain slab bs pinned where b: "body_bytes R (rq_slab q) chunk = (slab, bs, pinned)"
    by (metis prod_cases3)
  obtain r ok where r: "body_sender F (rq_responder q) = (r, ok)" by force
  show "\<exists>r. write_chunk (Suc j) env wait F R chunk q = Some r"
    using interruptible_flag[of rq_interrupted env j 0 "write_attempt F (DataFrame bs) wait"
        "q\<lparr>rq_responder := r, rq_slab := slab\<rparr>"] assms b r
    by (cases ok) (auto simp: write_chunk_def Let_def simp del: interruptible.simps)
qed

theorem blocked_calls_interruptible_witness:
  "read_body (Suc 0) (\<lambda>k q. q\<lparr>rq_interrupted := True\<rparr>) quiet list_flume 10 (example_req [] False)
      = Some (example_req [] True, Inl interrupted_error)
    \<and> (\<exists>r. write_chunk (Suc 0) (\<lambda>k q. q\<lparr>rq_interrupted := True\<rparr>) quiet list_flume example_strings 16
          (example_req [] False) = Some r)"
  using blocked_calls_interruptible[of "\<lambda>k q. q\<lparr>rq_interrupted := True\<rparr>" 0 quiet list_flume 10
      "example_req [] False" list_flume example_strings 16]
  by (simp add: read_body_def example_req_def example_ctx_def Let_def)



text \<open>
  A host with a port comes apart into exactly the host and the port, whatever colons
  the host itself contains (a bracketed IPv6 address does), and every other input is taken
  whole with the default port.
\<close>

theorem split_host_port_roundtrip:
  assumes "name \<noteq> []"
  shows "split_host_port (name @ CHR '':'' # show_nat (unat p)) d = (name, p)
    \<and> (CHR '':'' \<notin> set name \<longrightarrow> split_host_port name d = (name, d))
    \<and> (case split_host_port h d of (n, q) \<Rightarrow>
         n = h \<and> q = d \<or> (\<exists>port. h = n @ CHR '':'' # port \<and> parse_uint 65535 port = Some (unat q)))"
proof (intro conjI)
  have "unat p < 2 ^ LENGTH(16)" by (rule unsigned_less)
  then have p: "unat p \<le> 65535" by simp
  have "CHR '':'' \<notin> set (show_nat (unat p))"
    by (metis show_nat_chars digit_neq(2))
  then show "split_host_port (name @ CHR '':'' # show_nat (unat p)) d = (name, p)"
    using assms parse_uint_show_nat[OF p] by (simp add: split_host_port_def rsplit_once_last)
  show "CHR '':'' \<notin> set name \<longrightarrow> split_host_port name d = (name, d)"
    by (auto simp: split_host_port_def split: option.splits dest: rsplit_once_SomeD)
  have w: "unat (of_nat k :: u16) = k" if "parse_uint 65535 s = Some k" for k s
    using parse_uint_bound[OF that] by (simp add: unat_of_nat)
  show "case split_host_port h d of (n, q) \<Rightarrow>
      n = h \<and> q = d \<or> (\<exists>port. h = n @ CHR '':'' # port \<and> parse_uint 65535 port = Some (unat q))"
    using w by (auto simp: split_host_port_def split: option.splits dest!: rsplit_once_SomeD)
qed

theorem split_host_port_roundtrip_witness:
  "split_host_port ''[::1]:8080'' 80 = (''[::1]'', 8080) \<and> split_host_port ''a.org'' 80 = (''a.org'', 80)"
proof -
  have p: "show_nat (unat (8080 :: u16)) = ''8080''"
    by (simp add: show_nat.simps)
  have "split_host_port (''[::1]'' @ CHR '':'' # ''8080'') 80 = (''[::1]'', 8080)"
    using split_host_port_roundtrip[of "''[::1]''" 8080 80 "[]", THEN conjunct1] unfolding p by simp
  moreover have "split_host_port ''a.org'' 80 = (''a.org'', 80)"
    using split_host_port_roundtrip[of "''a.org''" 0 80 "[]", THEN conjunct2, THEN conjunct1] by simp
  ultimately show ?thesis by simp
qed

end
