(* ===== verification/Kino_Env_Cache.thy ===== *)
theory Kino_Env_Cache
  imports Kino_Request "HOL-Library.Multiset" "HOL-Library.AList"
begin

text \<open>
  The shared cache of Ruby strings for request environments
  (\<open>ext/kino/src/env_strings.rs\<close>): three LRU caches (hosts, peer addresses, header values)
  whose strings are kept alive by slots of one pin slab.

  The \<open>lru\<close> crate is a parameter: a record of operations with its documented laws as a
  locale. So is the Ruby VM's allocation: the \<open>n\<close>-th string allocated is the object
  \<open>lib_value n\<close>. What other ractors do to the caches while no lock is held is the argument
  \<open>race\<close>. Setting a key of a fresh environment Hash does not raise, so an environment is a
  map from keys to values.
\<close>

section \<open>LRU caches\<close>

text \<open>
  \<open>lr_get\<close> promotes the entry; \<open>lr_put\<close> returns the values dropped for it;
  \<open>lr_set\<close> writes through \<open>get_mut\<close>.
\<close>

record ('k, 'v, 'l) lru =
  lr_new :: "nat \<Rightarrow> 'l"
  lr_get :: "'l \<Rightarrow> 'k \<Rightarrow> 'l \<times> 'v option"
  lr_put :: "'l \<Rightarrow> 'k \<Rightarrow> 'v \<Rightarrow> 'l \<times> 'v list"
  lr_set :: "'l \<Rightarrow> 'k \<Rightarrow> 'v \<Rightarrow> 'l"

locale lru_cache =
  fixes L :: "('k, 'v, 'l) lru"
    and entries :: "'l \<Rightarrow> ('k \<times> 'v) list"
    and lcap :: "'l \<Rightarrow> nat"
  assumes new_entries: "entries (lr_new L n) = [] \<and> lcap (lr_new L n) = n"
    and keys_distinct: "distinct (map fst (entries c))"
    and within_cap: "length (entries c) \<le> lcap c"
    and get_result: "snd (lr_get L c k) = map_of (entries c) k"
    and get_entries: "mset (entries (fst (lr_get L c k))) = mset (entries c)
      \<and> lcap (fst (lr_get L c k)) = lcap c"
    and put_absent: "map_of (entries c) k = None \<Longrightarrow> 0 < lcap c \<Longrightarrow>
      \<exists>gone. mset (entries (fst (lr_put L c k v))) + mset gone = add_mset (k, v) (mset (entries c))
        \<and> snd (lr_put L c k v) = map snd gone
        \<and> map_of (entries (fst (lr_put L c k v))) k = Some v \<and> lcap (fst (lr_put L c k v)) = lcap c"
    and set_present: "map_of (entries c) k = Some old \<Longrightarrow>
      add_mset (k, old) (mset (entries (lr_set L c k v))) = add_mset (k, v) (mset (entries c))
        \<and> lcap (lr_set L c k v) = lcap c"
begin

lemma get_view:
  "lr_get L c k = (c', r) \<Longrightarrow> r = map_of (entries c) k \<and> mset (entries c') = mset (entries c) \<and> lcap c' = lcap c"
  using get_result[of c k] get_entries[of c k] by simp

lemma map_of_mset: "mset (entries c) = mset (entries c') \<Longrightarrow> map_of (entries c) = map_of (entries c')"
  using map_of_inject_set[OF keys_distinct keys_distinct] by (metis set_mset_mset)

end

text \<open>A reference cache that drops its oldest insertions.\<close>

definition list_lru_view :: "nat \<times> ('k \<times> 'v) list \<Rightarrow> ('k \<times> 'v) list" where
  "list_lru_view c = take (fst c) (AList.clearjunk (snd c))"

definition list_lru :: "('k, 'v, nat \<times> ('k \<times> 'v) list) lru" where
  "list_lru = \<lparr>
     lr_new = (\<lambda>n. (n, [])),
     lr_get = (\<lambda>c k. (c, map_of (list_lru_view c) k)),
     lr_put = (\<lambda>c k v. let es = (k, v) # AList.delete k (list_lru_view c)
        in ((fst c, take (fst c) es), map snd (drop (fst c) es))),
     lr_set = (\<lambda>c k v. (fst c, AList.update k v (list_lru_view c)))\<rparr>"

lemma list_lru_view_distinct: "distinct (map fst (list_lru_view c))"
  by (simp add: list_lru_view_def take_map[symmetric] distinct_clearjunk)

lemma list_lru_view_id: "distinct (map fst es) \<Longrightarrow> list_lru_view (n, es) = take n es"
  by (simp add: list_lru_view_def distinct_clearjunk_id)

lemma update_mset:
  "distinct (map fst es) \<Longrightarrow> map_of es k = Some old \<Longrightarrow>
     add_mset (k, old) (mset (AList.update k v es)) = add_mset (k, v) (mset es)
     \<and> length (AList.update k v es) = length es"
  by (induction es) (auto split: if_splits simp: add_mset_commute dest: map_of_SomeD)

interpretation list_lru: lru_cache list_lru list_lru_view fst
proof
  fix n k v old and c :: "nat \<times> ('k \<times> 'v) list"
  note d = list_lru_view_distinct[of c]
  show "list_lru_view (lr_new list_lru n) = [] \<and> fst (lr_new list_lru n) = n"
    by (simp add: list_lru_def list_lru_view_def)
  show "distinct (map fst (list_lru_view c))" by (rule d)
  show len: "length (list_lru_view c) \<le> fst c" by (simp add: list_lru_view_def)
  show "snd (lr_get list_lru c k) = map_of (list_lru_view c) k" by (simp add: list_lru_def)
  show "mset (list_lru_view (fst (lr_get list_lru c k))) = mset (list_lru_view c) \<and> fst (fst (lr_get list_lru c k)) = fst c"
    by (simp add: list_lru_def)
  show "\<exists>gone. mset (list_lru_view (fst (lr_put list_lru c k v))) + mset gone = add_mset (k, v) (mset (list_lru_view c))
      \<and> snd (lr_put list_lru c k v) = map snd gone
      \<and> map_of (list_lru_view (fst (lr_put list_lru c k v))) k = Some v \<and> fst (fst (lr_put list_lru c k v)) = fst c"
    if k: "map_of (list_lru_view c) k = None" and "0 < fst c"
  proof -
    let ?es = "(k, v) # list_lru_view c"
    have "k \<notin> fst ` set (list_lru_view c)" using k by (simp add: map_of_eq_None_iff)
    then have es: "AList.delete k (list_lru_view c) = list_lru_view c" by simp
    have dis: "distinct (map fst ?es)" using d k by (simp add: map_of_eq_None_iff)
    then have "distinct (map fst (take (fst c) ?es))" by (metis take_map distinct_take)
    then have "list_lru_view (fst c, take (fst c) ?es) = take (fst c) ?es"
      by (simp add: list_lru_view_id)
    moreover have "mset (take (fst c) ?es) + mset (drop (fst c) ?es) = mset ?es"
      by (metis append_take_drop_id mset_append)
    moreover have "map_of (take (fst c) ?es) k = Some v" using \<open>0 < fst c\<close> by (cases "fst c") auto
    ultimately show ?thesis
      by (intro exI[of _ "drop (fst c) ?es"]) (simp add: list_lru_def Let_def es)
  qed
  show "add_mset (k, old) (mset (list_lru_view (lr_set list_lru c k v))) = add_mset (k, v) (mset (list_lru_view c))
      \<and> fst (lr_set list_lru c k v) = fst c"
    if "map_of (list_lru_view c) k = Some old"
    using update_mset[OF d that, of v] len distinct_update[OF d, of k v]
    by (simp add: list_lru_def list_lru_view_id)
qed


section \<open>Addresses as text\<close>

text \<open>
  \<open>Display\<close> of \<open>IpAddr\<close>: dotted decimal, and for IPv6 the hexadecimal segments with the
  first longest run of two or more zero segments written \<open>::\<close>, mapped IPv4 addresses apart.
\<close>

definition hex_digit :: "nat \<Rightarrow> char" where
  "hex_digit d = (if d < 10 then digit d else char_of (87 + d))"

fun show_hex :: "nat \<Rightarrow> string" where
  "show_hex n = (if n < 16 then [hex_digit n] else show_hex (n div 16) @ [hex_digit (n mod 16)])"

declare show_hex.simps [simp del]

fun join_with :: "string \<Rightarrow> string list \<Rightarrow> string" where
  "join_with sep [] = []"
| "join_with sep [x] = x"
| "join_with sep (x # y # ys) = x @ sep @ join_with sep (y # ys)"

text \<open>The loop over the segments: index, current span, longest span (start and length).\<close>

fun longest_zeros :: "u16 list \<Rightarrow> nat \<Rightarrow> nat \<times> nat \<Rightarrow> nat \<times> nat \<Rightarrow> nat \<times> nat" where
  "longest_zeros [] i cur best = best"
| "longest_zeros (x # xs) i cur best =
     (if x = 0 then
        let cur = (if snd cur = 0 then i else fst cur, snd cur + 1)
        in longest_zeros xs (Suc i) cur (if snd best < snd cur then cur else best)
      else longest_zeros xs (Suc i) (0, 0) best)"

definition show_v4 :: "u8 \<Rightarrow> u8 \<Rightarrow> u8 \<Rightarrow> u8 \<Rightarrow> string" where
  "show_v4 a b c d = join_with ''.'' (map (\<lambda>x. show_nat (unat x)) [a, b, c, d])"

definition show_segments :: "u16 list \<Rightarrow> string" where
  "show_segments xs = join_with '':'' (map (\<lambda>x. show_hex (unat x)) xs)"

definition show_ip :: "ip_addr \<Rightarrow> string" where
  "show_ip ip =
     (case ip of
        V4 a b c d \<Rightarrow> show_v4 a b c d
      | V6 segs \<Rightarrow>
          if length segs = 8 \<and> take 6 segs = [0, 0, 0, 0, 0, 0xFFFF]
          then ''::ffff:'' @ show_v4 (ucast (drop_bit 8 (segs ! 6))) (ucast (segs ! 6))
                 (ucast (drop_bit 8 (segs ! 7))) (ucast (segs ! 7))
          else case longest_zeros segs 0 (0, 0) (0, 0) of
                 (st, n) \<Rightarrow> if 1 < n then show_segments (take st segs) @ ''::'' @ show_segments (drop (st + n) segs)
                             else show_segments segs)"

section \<open>Cached strings\<close>

text \<open>A Ruby string: its object reference and its bytes.\<close>

type_synonym rstring = "u64 \<times> bytes"

record cached_str =
  cs_string :: rstring
  cs_slot :: nat

record host_entry =
  he_name :: cached_str
  he_port :: cached_str
  he_host :: "cached_str option"

definition HOST_CACHE_CAP :: nat where "HOST_CACHE_CAP = 256"
definition ADDR_CACHE_CAP :: nat where "ADDR_CACHE_CAP = 1024"
definition VALUE_CACHE_CAP :: nat where "VALUE_CACHE_CAP = 512"

definition CACHE_SLAB_CAPACITY :: nat where
  "CACHE_SLAB_CAPACITY = (HOST_CACHE_CAP + 1) * 3 + (ADDR_CACHE_CAP + 1) + (VALUE_CACHE_CAP + 1)"

definition VALUE_INTERN_MAX_LEN :: nat where "VALUE_INTERN_MAX_LEN = 512"

definition INTERNABLE_VALUES :: "string list" where
  "INTERNABLE_VALUES = [''user-agent'', ''accept'', ''accept-encoding'', ''accept-language'',
     ''cache-control'', ''dnt'', ''origin'', ''pragma'', ''priority'', ''sec-ch-ua'',
     ''sec-ch-ua-mobile'', ''sec-ch-ua-platform'', ''sec-fetch-dest'', ''sec-fetch-mode'',
     ''sec-fetch-site'', ''sec-fetch-user'', ''upgrade-insecure-requests'', ''x-requested-with'']"

definition cached_root :: "rstring \<Rightarrow> pin_slab \<Rightarrow> pin_slab \<times> cached_str option" where
  "cached_root str slab =
     (case pin_insert slab (fst str) of
        (slab', None) \<Rightarrow> (slab', None)
      | (slab', Some i) \<Rightarrow> (slab', Some \<lparr>cs_string = str, cs_slot = i\<rparr>))"

definition cached_drop :: "cached_str \<Rightarrow> pin_slab \<Rightarrow> pin_slab" where
  "cached_drop cs slab = pin_release slab (cs_slot cs)"

text \<open>
  \<open>HostEntry::root\<close>: an early return drops what was rooted before it.
\<close>

definition host_root ::
  "rstring \<Rightarrow> rstring \<Rightarrow> rstring option \<Rightarrow> pin_slab \<Rightarrow> pin_slab \<times> host_entry option" where
  "host_root name port host slab =
     (case cached_root name slab of
        (slab, None) \<Rightarrow> (slab, None)
      | (slab, Some n) \<Rightarrow>
          (case cached_root port slab of
             (slab, None) \<Rightarrow> (cached_drop n slab, None)
           | (slab, Some p) \<Rightarrow>
               (case host of
                  None \<Rightarrow> (slab, Some \<lparr>he_name = n, he_port = p, he_host = None\<rparr>)
                | Some h \<Rightarrow>
                    (case cached_root h slab of
                       (slab, None) \<Rightarrow> (cached_drop n (cached_drop p slab), None)
                     | (slab, Some c) \<Rightarrow> (slab, Some \<lparr>he_name = n, he_port = p, he_host = Some c\<rparr>)))))"

definition host_strings :: "host_entry \<Rightarrow> cached_str list" where
  "host_strings e = [he_name e, he_port e] @ (case he_host e of None \<Rightarrow> [] | Some h \<Rightarrow> [h])"

definition host_drop :: "host_entry \<Rightarrow> pin_slab \<Rightarrow> pin_slab" where
  "host_drop e slab = fold cached_drop (host_strings e) slab"

section \<open>The cache\<close>

record ('lh, 'la, 'lv) env_cache =
  ec_slab :: pin_slab
  ec_hosts :: 'lh
  ec_addrs :: 'la
  ec_values :: 'lv
  ec_allocs :: nat

record ('lh, 'la, 'lv) env_libs =
  lib_hosts :: "(bytes, host_entry, 'lh) lru"
  lib_addrs :: "(ip_addr, cached_str, 'la) lru"
  lib_values :: "(bytes, cached_str, 'lv) lru"
  lib_value :: "nat \<Rightarrow> u64"

definition env_cache_init :: "('lh, 'la, 'lv) env_libs \<Rightarrow> ('lh, 'la, 'lv) env_cache" where
  "env_cache_init E = \<lparr>ec_slab = with_capacity CACHE_SLAB_CAPACITY, ec_hosts = lr_new (lib_hosts E) HOST_CACHE_CAP,
     ec_addrs = lr_new (lib_addrs E) ADDR_CACHE_CAP, ec_values = lr_new (lib_values E) VALUE_CACHE_CAP,
     ec_allocs = 0\<rparr>"

definition frozen_str ::
  "('lh, 'la, 'lv) env_libs \<Rightarrow> bytes \<Rightarrow> ('lh, 'la, 'lv) env_cache \<Rightarrow> ('lh, 'la, 'lv) env_cache \<times> rstring" where
  "frozen_str E bs es = (es\<lparr>ec_allocs := ec_allocs es + 1\<rparr>, (lib_value E (ec_allocs es), bs))"

text \<open>
  \<open>get_or_insert\<close> over one of the caches: \<open>sel\<close> and \<open>upd\<close> read and write it,
  \<open>drop1\<close> is the drop of an entry.
\<close>

definition get_or_insert ::
  "('k, 'v, 'l) lru \<Rightarrow> ('es \<Rightarrow> 'l) \<Rightarrow> ('l \<Rightarrow> 'es \<Rightarrow> 'es) \<Rightarrow> ('v \<Rightarrow> 'es \<Rightarrow> 'es) \<Rightarrow> ('es \<Rightarrow> 'es)
     \<Rightarrow> 'k \<Rightarrow> ('v \<Rightarrow> 't) \<Rightarrow> ('es \<Rightarrow> 'es \<times> 't) \<Rightarrow> ('t \<Rightarrow> 'es \<Rightarrow> 'es \<times> 'v option) \<Rightarrow> 'es \<Rightarrow> 'es \<times> 't" where
  "get_or_insert L sel upd drop1 race key rd build root es =
     (case lr_get L (sel es) key of
        (c, Some found) \<Rightarrow> (upd c es, rd found)
      | (c, None) \<Rightarrow>
          (case build (upd c es) of
             (es, fresh) \<Rightarrow>
               let es = race es in
               (case lr_get L (sel es) key of
                  (c, Some found) \<Rightarrow> (upd c es, rd found)
                | (c, None) \<Rightarrow>
                    (case root fresh (upd c es) of
                       (es, None) \<Rightarrow> (es, fresh)
                     | (es, Some entry) \<Rightarrow>
                         (case lr_put L (sel es) key entry of
                            (c, dropped) \<Rightarrow> (fold drop1 dropped (upd c es), fresh))))))"

definition on_slab :: "(pin_slab \<Rightarrow> pin_slab \<times> 'r) \<Rightarrow> ('lh, 'la, 'lv) env_cache \<Rightarrow> ('lh, 'la, 'lv) env_cache \<times> 'r" where
  "on_slab f es = (case f (ec_slab es) of (slab, r) \<Rightarrow> (es\<lparr>ec_slab := slab\<rparr>, r))"

abbreviation drop_host_entry :: "host_entry \<Rightarrow> ('lh, 'la, 'lv) env_cache \<Rightarrow> ('lh, 'la, 'lv) env_cache" where
  "drop_host_entry e es \<equiv> es\<lparr>ec_slab := host_drop e (ec_slab es)\<rparr>"

abbreviation drop_cached :: "cached_str \<Rightarrow> ('lh, 'la, 'lv) env_cache \<Rightarrow> ('lh, 'la, 'lv) env_cache" where
  "drop_cached c es \<equiv> es\<lparr>ec_slab := cached_drop c (ec_slab es)\<rparr>"

abbreviation set_hosts :: "'lh \<Rightarrow> ('lh, 'la, 'lv) env_cache \<Rightarrow> ('lh, 'la, 'lv) env_cache" where
  "set_hosts c es \<equiv> es\<lparr>ec_hosts := c\<rparr>"

abbreviation set_addrs :: "'la \<Rightarrow> ('lh, 'la, 'lv) env_cache \<Rightarrow> ('lh, 'la, 'lv) env_cache" where
  "set_addrs c es \<equiv> es\<lparr>ec_addrs := c\<rparr>"

abbreviation set_values :: "'lv \<Rightarrow> ('lh, 'la, 'lv) env_cache \<Rightarrow> ('lh, 'la, 'lv) env_cache" where
  "set_values c es \<equiv> es\<lparr>ec_values := c\<rparr>"

section \<open>Environment entries from the cache\<close>

datatype env_value = EStr bytes | EErrors | ENullInput | ERequest

type_synonym env = "bytes \<rightharpoonup> env_value"

definition host_pair ::
  "('lh, 'la, 'lv) env_libs \<Rightarrow> string \<times> u16 \<Rightarrow> ('lh, 'la, 'lv) env_cache
     \<Rightarrow> ('lh, 'la, 'lv) env_cache \<times> (rstring \<times> rstring)" where
  "host_pair E np es =
     (case frozen_str E (fst np) es of
        (es, name) \<Rightarrow> (case frozen_str E (show_nat (unat (snd np))) es of (es, port) \<Rightarrow> (es, (name, port))))"

definition name_port :: "host_entry \<Rightarrow> rstring \<times> rstring" where
  "name_port e = (cs_string (he_name e), cs_string (he_port e))"

definition put_name_port :: "rstring \<Rightarrow> rstring \<Rightarrow> env \<Rightarrow> env" where
  "put_name_port name port ev = ev(''SERVER_NAME'' \<mapsto> EStr (snd name), ''SERVER_PORT'' \<mapsto> EStr (snd port))"

definition set_host_env ::
  "('lh, 'la, 'lv) env_libs \<Rightarrow> (('lh, 'la, 'lv) env_cache \<Rightarrow> ('lh, 'la, 'lv) env_cache) \<Rightarrow> bytes
     \<Rightarrow> string \<times> u16 \<Rightarrow> ('lh, 'la, 'lv) env_cache \<times> env \<Rightarrow> ('lh, 'la, 'lv) env_cache \<times> env" where
  "set_host_env E race host np se =
     (case get_or_insert (lib_hosts E) ec_hosts set_hosts drop_host_entry race host name_port
             (host_pair E np) (\<lambda>(name, port). on_slab (host_root name port None)) (fst se) of
        (es, (name, port)) \<Rightarrow> (es, put_name_port name port (snd se)))"

text \<open>\<open>HostEntry::fill_host\<close>: the entry afterwards and the string to use.\<close>

definition fill_host :: "rstring \<Rightarrow> host_entry \<Rightarrow> pin_slab \<Rightarrow> pin_slab \<times> host_entry \<times> rstring" where
  "fill_host host e slab =
     (case he_host e of
        Some h \<Rightarrow> (slab, e, cs_string h)
      | None \<Rightarrow>
          (case cached_root host slab of
             (slab, None) \<Rightarrow> (slab, e, host)
           | (slab, Some c) \<Rightarrow> (slab, e\<lparr>he_host := Some c\<rparr>, cs_string c)))"

definition fill_host_at ::
  "('lh, 'la, 'lv) env_libs \<Rightarrow> bytes \<Rightarrow> rstring \<Rightarrow> host_entry \<Rightarrow> ('lh, 'la, 'lv) env_cache
     \<Rightarrow> ('lh, 'la, 'lv) env_cache \<times> rstring" where
  "fill_host_at E key host e es =
     (case fill_host host e (ec_slab es) of
        (slab, e', str) \<Rightarrow> (es\<lparr>ec_slab := slab, ec_hosts := lr_set (lib_hosts E) (ec_hosts es) key e'\<rparr>, str))"

text \<open>
  \<open>set_authority_env\<close>: on a hit without the full authority the lock is taken again; on a
  miss a racing ractor's entry is shared.
\<close>

definition authority_strings ::
  "('lh, 'la, 'lv) env_libs \<Rightarrow> (('lh, 'la, 'lv) env_cache \<Rightarrow> ('lh, 'la, 'lv) env_cache) \<Rightarrow> bytes
     \<Rightarrow> string \<times> u16 \<Rightarrow> ('lh, 'la, 'lv) env_cache \<Rightarrow> ('lh, 'la, 'lv) env_cache \<times> rstring \<times> rstring \<times> rstring" where
  "authority_strings E race key np es =
     (case lr_get (lib_hosts E) (ec_hosts es) key of
        (c, Some e) \<Rightarrow>
          (case name_port e of
             (name, port) \<Rightarrow>
               (case he_host e of
                  Some h \<Rightarrow> (set_hosts c es, name, port, cs_string h)
                | None \<Rightarrow>
                    (case frozen_str E key (set_hosts c es) of
                       (es, host) \<Rightarrow>
                         let es = race es in
                         (case lr_get (lib_hosts E) (ec_hosts es) key of
                            (c, Some e') \<Rightarrow>
                              (case fill_host_at E key host e' (set_hosts c es) of
                                 (es, str) \<Rightarrow> (es, name, port, str))
                          | (c, None) \<Rightarrow> (set_hosts c es, name, port, host)))))
      | (c, None) \<Rightarrow>
          (case host_pair E np (set_hosts c es) of
             (es, (name, port)) \<Rightarrow>
               (case frozen_str E key es of
                  (es, host) \<Rightarrow>
                    let es = race es in
                    (case lr_get (lib_hosts E) (ec_hosts es) key of
                       (c, Some e) \<Rightarrow>
                         (case fill_host_at E key host e (set_hosts c es) of
                            (es, str) \<Rightarrow> (es, fst (name_port e), snd (name_port e), str))
                     | (c, None) \<Rightarrow>
                         (case on_slab (host_root name port (Some host)) (set_hosts c es) of
                            (es, None) \<Rightarrow> (es, name, port, host)
                          | (es, Some entry) \<Rightarrow>
                              (case lr_put (lib_hosts E) (ec_hosts es) key entry of
                                 (c, dropped) \<Rightarrow>
                                   (fold drop_host_entry dropped (set_hosts c es), name, port, host)))))))"

definition set_authority_env ::
  "('lh, 'la, 'lv) env_libs \<Rightarrow> (('lh, 'la, 'lv) env_cache \<Rightarrow> ('lh, 'la, 'lv) env_cache) \<Rightarrow> string
     \<Rightarrow> string \<times> u16 \<Rightarrow> ('lh, 'la, 'lv) env_cache \<times> env \<Rightarrow> ('lh, 'la, 'lv) env_cache \<times> env" where
  "set_authority_env E race key np se =
     (case authority_strings E race key np (fst se) of
        (es, name, port, host) \<Rightarrow>
          (es, (put_name_port name port (snd se))(''HTTP_HOST'' \<mapsto> EStr (snd host))))"

definition set_value_env ::
  "('lh, 'la, 'lv) env_libs \<Rightarrow> (('lh, 'la, 'lv) env_cache \<Rightarrow> ('lh, 'la, 'lv) env_cache) \<Rightarrow> bytes \<Rightarrow> string
     \<Rightarrow> bytes \<Rightarrow> ('lh, 'la, 'lv) env_cache \<times> env \<Rightarrow> ('lh, 'la, 'lv) env_cache \<times> env" where
  "set_value_env E race key name val se =
     (if VALUE_INTERN_MAX_LEN < length val \<or> name \<notin> set INTERNABLE_VALUES
      then (fst se, (snd se)(key \<mapsto> EStr val))
      else case get_or_insert (lib_values E) ec_values set_values drop_cached race val cs_string
                  (frozen_str E val) (\<lambda>fresh. on_slab (cached_root fresh)) (fst se) of
             (es, cached) \<Rightarrow> (es, (snd se)(key \<mapsto> EStr (snd cached))))"

definition set_addr_env ::
  "('lh, 'la, 'lv) env_libs \<Rightarrow> (('lh, 'la, 'lv) env_cache \<Rightarrow> ('lh, 'la, 'lv) env_cache) \<Rightarrow> ip_addr
     \<Rightarrow> ('lh, 'la, 'lv) env_cache \<times> env \<Rightarrow> ('lh, 'la, 'lv) env_cache \<times> env" where
  "set_addr_env E race ip se =
     (case get_or_insert (lib_addrs E) ec_addrs set_addrs drop_cached race ip cs_string
             (frozen_str E (show_ip ip)) (\<lambda>fresh. on_slab (cached_root fresh)) (fst se) of
        (es, val) \<Rightarrow> (es, (snd se)(''REMOTE_ADDR'' \<mapsto> EStr (snd val))))"


section \<open>Roots and cached strings\<close>

text \<open>The roots of a slab as a multiset of slot and value; each cached string owns one.\<close>

definition roots_mset :: "pin_slab \<Rightarrow> (nat \<times> u64) multiset" where
  "roots_mset slab = image_mset (\<lambda>i. (i, the (pin_roots slab i))) (mset_set (dom (pin_roots slab)))"

definition pair_of :: "cached_str \<Rightarrow> nat \<times> u64" where
  "pair_of cs = (cs_slot cs, fst (cs_string cs))"

definition host_pairs :: "('k \<times> host_entry) multiset \<Rightarrow> (nat \<times> u64) multiset" where
  "host_pairs M = (\<Sum>p \<in># M. mset (map pair_of (host_strings (snd p))))"

definition str_pairs :: "('k \<times> cached_str) multiset \<Rightarrow> (nat \<times> u64) multiset" where
  "str_pairs M = image_mset (\<lambda>p. pair_of (snd p)) M"

definition slab_shape :: "pin_slab \<Rightarrow> bool" where
  "slab_shape slab \<longleftrightarrow> pin_valid slab \<and> pin_capacity slab = CACHE_SLAB_CAPACITY"

lemma host_pairs_simps [simp]:
  "host_pairs (add_mset p M) = mset (map pair_of (host_strings (snd p))) + host_pairs M"
  "host_pairs (M + N) = host_pairs M + host_pairs N" "host_pairs {#} = {#}"
  by (simp_all add: host_pairs_def)

lemma str_pairs_simps [simp]:
  "str_pairs (add_mset p M) = add_mset (pair_of (snd p)) (str_pairs M)"
  "str_pairs (M + N) = str_pairs M + str_pairs N" "str_pairs {#} = {#}"
  by (simp_all add: str_pairs_def)

lemma size_roots_mset: "size (roots_mset slab) = card (dom (pin_roots slab))"
  by (simp add: roots_mset_def)

lemma roots_mset_insert:
  assumes "pin_valid slab" "v \<noteq> 0" "pin_insert slab v = (slab', Some i)"
  shows "roots_mset slab' = add_mset (i, v) (roots_mset slab)"
proof -
  from pin.insert_Some[OF assms] have n: "i \<notin> dom (pin_roots slab)" "pin_roots slab' = (pin_roots slab)(i \<mapsto> v)"
    by auto
  have "image_mset (\<lambda>j. (j, the (((pin_roots slab)(i \<mapsto> v)) j))) (mset_set (dom (pin_roots slab)))
      = roots_mset slab"
    unfolding roots_mset_def using n(1) by (intro image_mset_cong) auto
  with n show ?thesis by (simp add: roots_mset_def)
qed

lemma roots_mset_drop:
  assumes "roots_mset slab = add_mset (pair_of c) X"
  shows "roots_mset (cached_drop c slab) = X"
proof -
  let ?i = "cs_slot c"
  have "pair_of c \<in># roots_mset slab" using assms by simp
  then have i: "?i \<in> dom (pin_roots slab)" "pin_roots slab ?i = Some (fst (cs_string c))"
    by (auto simp: roots_mset_def pair_of_def)
  have roots: "pin_roots (cached_drop c slab) = (pin_roots slab)(?i := None)"
    by (simp add: cached_drop_def pin.release_roots)
  have "mset_set (dom (pin_roots slab)) = add_mset ?i (mset_set (dom (pin_roots slab) - {?i}))"
    using i(1) by (simp add: mset_set.remove)
  then have "roots_mset slab = add_mset (pair_of c)
      (image_mset (\<lambda>i. (i, the (pin_roots slab i))) (mset_set (dom (pin_roots slab) - {?i})))"
    using i(2) by (simp add: roots_mset_def pair_of_def)
  moreover have "image_mset (\<lambda>i. (i, the (pin_roots slab i))) (mset_set (dom (pin_roots slab) - {?i}))
      = roots_mset (cached_drop c slab)"
    unfolding roots_mset_def roots by (simp, intro image_mset_cong) auto
  ultimately show ?thesis using assms by simp
qed

lemma shape_insert: "slab_shape slab \<Longrightarrow> slab_shape (fst (pin_insert slab v))"
  by (simp add: slab_shape_def pin.valid_insert pin.capacity_insert)

lemma shape_drop [simp]: "slab_shape slab \<Longrightarrow> slab_shape (cached_drop c slab)"
  by (simp add: slab_shape_def cached_drop_def pin.valid_release pin.capacity_release)

lemma cached_root_spec:
  assumes "cached_root str slab = (slab', r)" "slab_shape slab" "fst str \<noteq> 0"
  shows "slab_shape slab' \<and>
    (case r of None \<Rightarrow> roots_mset slab' = roots_mset slab
     | Some c \<Rightarrow> cs_string c = str \<and> roots_mset slab' = add_mset (pair_of c) (roots_mset slab))"
proof -
  obtain s1 i where i: "pin_insert slab (fst str) = (s1, i)" by force
  have "slab_shape s1" using shape_insert[OF assms(2), of "fst str"] i by simp
  moreover have "roots_mset s1 = roots_mset slab" if "i = None"
    using pin.insert_None[of slab "fst str" s1] i that by (simp add: roots_mset_def)
  moreover have "roots_mset s1 = add_mset (j, fst str) (roots_mset slab)" if "i = Some j" for j
    using roots_mset_insert[of slab "fst str" s1 j] i that assms by (simp add: slab_shape_def)
  ultimately show ?thesis
    using assms(1) i by (auto simp: cached_root_def pair_of_def split: option.splits)
qed

lemma fold_drop_spec:
  "slab_shape slab \<Longrightarrow> roots_mset slab = mset (map pair_of cs) + X
    \<Longrightarrow> slab_shape (fold cached_drop cs slab) \<and> roots_mset (fold cached_drop cs slab) = X"
proof (induction cs arbitrary: slab)
  case Nil
  then show ?case by simp
next
  case (Cons c cs)
  have "roots_mset (cached_drop c slab) = mset (map pair_of cs) + X"
    using Cons.prems(2) by (intro roots_mset_drop) simp
  with Cons show ?case by simp
qed

lemma host_root_spec:
  assumes "host_root name port host slab = (slab', r)" "slab_shape slab" "fst name \<noteq> 0" "fst port \<noteq> 0"
    and "\<And>h. host = Some h \<Longrightarrow> fst h \<noteq> 0"
  shows "slab_shape slab' \<and>
    (case r of None \<Rightarrow> roots_mset slab' = roots_mset slab
     | Some e \<Rightarrow> name_port e = (name, port) \<and> map_option cs_string (he_host e) = host
         \<and> roots_mset slab' = mset (map pair_of (host_strings e)) + roots_mset slab)"
proof -
  obtain s1 n where n: "cached_root name slab = (s1, n)" by force
  note sn = cached_root_spec[OF n assms(2,3)]
  show ?thesis
  proof (cases n)
    case None
    with n sn assms(1) show ?thesis by (auto simp: host_root_def)
  next
    case nm: (Some cn)
    obtain s2 p where p: "cached_root port s1 = (s2, p)" by force
    note sp = cached_root_spec[OF p _ assms(4)]
    show ?thesis
    proof (cases p)
      case None
      with n p nm sn sp assms(1) roots_mset_drop[of s2 cn "roots_mset slab"] show ?thesis
        by (auto simp: host_root_def)
    next
      case pt: (Some cp)
      show ?thesis
      proof (cases host)
        case None
        with n p nm pt sn sp assms(1) show ?thesis
          by (auto simp: host_root_def name_port_def host_strings_def add_mset_commute)
      next
        case hs: (Some hstr)
        obtain s3 h where h: "cached_root hstr s2 = (s3, h)" by force
        note sh = cached_root_spec[OF h _ assms(5)[OF hs]]
        show ?thesis
        proof (cases h)
          case None
          have "roots_mset (cached_drop cp s3) = add_mset (pair_of cn) (roots_mset slab)"
            by (rule roots_mset_drop) (use None nm pt sn sp sh in simp)
          then have "roots_mset (cached_drop cn (cached_drop cp s3)) = roots_mset slab"
            by (rule roots_mset_drop)
          with None n p nm pt hs h sn sp sh assms(1) show ?thesis by (auto simp: host_root_def)
        next
          case (Some ch)
          with n p nm pt hs h sn sp sh assms(1) show ?thesis
            by (auto simp: host_root_def name_port_def host_strings_def add_mset_commute)
        qed
      qed
    qed
  qed
qed


text \<open>
  The shared logic of the caches, once: a lookup or insert keeps any invariant that the
  steps keep, and its result has any property that cached and fresh values have.
\<close>

context lru_cache
begin

lemma get_or_insert_rule:
  assumes "Inv es"
    and lens: "\<And>c es. sel (upd c es) = c"
    and upd_Inv: "\<And>c es. \<lbrakk>Inv es; mset (entries c) = mset (entries (sel es)); lcap c = lcap (sel es)\<rbrakk>
      \<Longrightarrow> Inv (upd c es)"
    and hit: "\<And>es v. \<lbrakk>Inv es; (key, v) \<in> set (entries (sel es))\<rbrakk> \<Longrightarrow> R (rd v)"
    and build_Inv: "\<And>es es' t. \<lbrakk>Inv es; build es = (es', t)\<rbrakk> \<Longrightarrow> Inv es' \<and> R t"
    and race_Inv: "\<And>es. Inv es \<Longrightarrow> Inv (race es)"
    and room: "\<And>es. Inv es \<Longrightarrow> 0 < lcap (sel es)"
    and root_None: "\<And>es es' t. \<lbrakk>Inv es; R t; root t es = (es', None)\<rbrakk> \<Longrightarrow> Inv es'"
    and root_Some: "\<And>es es' t e c gone. \<lbrakk>Inv es; R t; root t es = (es', Some e);
        mset (entries c) + mset gone = add_mset (key, e) (mset (entries (sel es))); lcap c = lcap (sel es)\<rbrakk>
      \<Longrightarrow> Inv (fold drop1 (map snd gone) (upd c es'))"
    and root_sel: "\<And>es es' t r. root t es = (es', r) \<Longrightarrow> sel es' = sel es"
  shows "Inv (fst (get_or_insert L sel upd drop1 race key rd build root es))
    \<and> R (snd (get_or_insert L sel upd drop1 race key rd build root es))"
proof -
  obtain c r where g: "lr_get L (sel es) key = (c, r)" by force
  note gv = get_view[OF g]
  have i1: "Inv (upd c es)" using upd_Inv[OF assms(1), of c] gv by simp
  show ?thesis
  proof (cases r)
    case (Some v)
    then have "R (rd v)" using gv hit[OF assms(1), of v] map_of_SomeD[of "entries (sel es)" key v] by simp
    with Some g i1 show ?thesis by (simp add: get_or_insert_def)
  next
    case None
    obtain es1 fresh where b: "build (upd c es) = (es1, fresh)" by force
    from build_Inv[OF i1 b] have i2: "Inv (race es1)" and f: "R fresh" using race_Inv by auto
    obtain c2 r2 where g2: "lr_get L (sel (race es1)) key = (c2, r2)" by force
    note gv2 = get_view[OF g2]
    have i3: "Inv (upd c2 (race es1))" using upd_Inv[OF i2, of c2] gv2 by simp
    show ?thesis
    proof (cases r2)
      case (Some v)
      then have "R (rd v)" using gv2 hit[OF i2, of v] map_of_SomeD[of "entries (sel (race es1))" key v] by simp
      with None Some g g2 b i3 show ?thesis by (simp add: get_or_insert_def Let_def)
    next
      case miss: None
      obtain es3 e where ro: "root fresh (upd c2 (race es1)) = (es3, e)" by force
      show ?thesis
      proof (cases e)
        case e: None
        with None miss g g2 b ro f root_None[OF i3 f] show ?thesis by (simp add: get_or_insert_def Let_def)
      next
        case (Some entry)
        have absent: "map_of (entries c2) key = None" using gv2 miss map_of_mset[of c2 "sel (race es1)"] by simp
        have sel3: "sel es3 = c2" using root_sel[OF ro] lens by simp
        obtain c3 dropped where p: "lr_put L c2 key entry = (c3, dropped)" by force
        from put_absent[OF absent, of entry] room[OF i3] lens p obtain gone where
          "mset (entries c3) + mset gone = add_mset (key, entry) (mset (entries c2))"
          "dropped = map snd gone" "lcap c3 = lcap c2" by auto
        then have "Inv (fold drop1 dropped (upd c3 es3))"
          using root_Some[OF i3 f ro[unfolded Some], of c3 gone] lens by simp
        with None miss Some g g2 b ro sel3 p f show ?thesis by (simp add: get_or_insert_def Let_def)
      qed
    qed
  qed
qed

end


section \<open>The caches keep their strings rooted\<close>

lemma fold_drop_cached: "fold drop_cached cs es = es\<lparr>ec_slab := fold cached_drop cs (ec_slab es)\<rparr>"
  by (induction cs arbitrary: es) simp_all

lemma fold_drop_hosts:
  "fold drop_host_entry hs es = es\<lparr>ec_slab := fold cached_drop (concat (map host_strings hs)) (ec_slab es)\<rparr>"
  by (induction hs arbitrary: es) (simp_all add: host_drop_def)

lemma host_pairs_concat:
  "mset (map pair_of (concat (map host_strings (map snd gone)))) = host_pairs (mset gone)"
  by (induction gone) (simp_all add: host_pairs_def)

lemma str_pairs_map: "mset (map pair_of (map snd gone)) = str_pairs (mset gone)"
  by (induction gone) simp_all

lemma mem_add: "mset xs + mset gone = add_mset e M \<Longrightarrow> p \<in># mset xs \<Longrightarrow> p = e \<or> p \<in># M"
  by (metis insert_iff set_mset_add_mset_insert union_iff)

lemma mset_exchange:
  fixes r :: "'a multiset"
  assumes "r + a = r0 + b" "a + n = b + m" "r0 = m + x + y"
  shows "r = n + x + y"
proof -
  have "r + a = (b + m) + (x + y)" using assms(1,3) by (simp add: ac_simps)
  also have "\<dots> = (n + x + y) + a" unfolding assms(2)[symmetric] by (simp add: ac_simps)
  finally show ?thesis by simp
qed

lemma roots_nonzero: "p \<in># roots_mset slab \<Longrightarrow> snd p \<noteq> 0"
  by (auto simp: roots_mset_def pin_roots_def split: if_splits)

text \<open>Rooting a fresh string, putting its entry and dropping what the cache gave up.\<close>

lemma str_swap:
  assumes "slab_shape slab" "fst t \<noteq> 0" "cached_root t slab = (slab', Some e)"
    and "roots_mset slab = str_pairs M + Y" "mset xs + mset gone = add_mset (k, e) M"
  shows "cs_string e = t \<and> slab_shape (fold cached_drop (map snd gone) slab')
    \<and> roots_mset (fold cached_drop (map snd gone) slab') = str_pairs (mset xs) + Y"
proof -
  have r: "slab_shape slab'" "cs_string e = t" "roots_mset slab' = add_mset (pair_of e) (roots_mset slab)"
    using cached_root_spec[OF assms(3,1,2)] by simp_all
  have "add_mset (pair_of e) (str_pairs M) = str_pairs (mset xs) + str_pairs (mset gone)"
    using arg_cong[OF assms(5), of str_pairs] by simp
  then have "roots_mset slab' = mset (map pair_of (map snd gone)) + (str_pairs (mset xs) + Y)"
    using r(3) assms(4) unfolding str_pairs_map
    by (metis add.assoc add.commute union_mset_add_mset_left)
  from fold_drop_spec[OF r(1) this] r(2) show ?thesis by simp
qed

lemma host_swap:
  assumes "slab_shape slab'" "roots_mset slab' = mset (map pair_of (host_strings e)) + (host_pairs M + Y)"
    and "mset xs + mset gone = add_mset (k, e) M"
  shows "slab_shape (fold cached_drop (concat (map host_strings (map snd gone))) slab')
    \<and> roots_mset (fold cached_drop (concat (map host_strings (map snd gone))) slab') = host_pairs (mset xs) + Y"
proof -
  have "mset (map pair_of (host_strings e)) + host_pairs M = host_pairs (mset xs) + host_pairs (mset gone)"
    using arg_cong[OF assms(3), of host_pairs] by simp
  then have "roots_mset slab'
      = mset (map pair_of (concat (map host_strings (map snd gone)))) + (host_pairs (mset xs) + Y)"
    using assms(2) unfolding host_pairs_concat by (metis add.assoc add.commute)
  from fold_drop_spec[OF assms(1) this] show ?thesis .
qed

text \<open>
  A cache of single strings inside the shared state: its strings own their roots next to
  those of the other caches (\<open>others\<close>), and each is the text its key stands for.
\<close>

locale str_cache = lru_cache L entries lcap
  for L :: "('k, cached_str, 'l) lru" and entries lcap +
  fixes sel :: "('lh, 'la, 'lv) env_cache \<Rightarrow> 'l"
    and upd :: "'l \<Rightarrow> ('lh, 'la, 'lv) env_cache \<Rightarrow> ('lh, 'la, 'lv) env_cache"
    and others :: "('lh, 'la, 'lv) env_cache \<Rightarrow> (nat \<times> u64) multiset"
    and frame :: "('lh, 'la, 'lv) env_cache \<Rightarrow> bool"
    and limit :: nat
    and content :: "'k \<Rightarrow> bytes"
    and Inv :: "('lh, 'la, 'lv) env_cache \<Rightarrow> bool"
    and E :: "('lh, 'la, 'lv) env_libs"
  assumes Inv_iff: "Inv es \<longleftrightarrow>
      slab_shape (ec_slab es) \<and> roots_mset (ec_slab es) = str_pairs (mset (entries (sel es))) + others es
      \<and> lcap (sel es) = limit \<and> (\<forall>p \<in># mset (entries (sel es)). snd (cs_string (snd p)) = content (fst p))
      \<and> frame es"
    and limit_pos: "0 < limit"
    and sel_upd [simp]: "sel (upd c es) = c" "ec_slab (upd c es) = ec_slab es"
      "others (upd c es) = others es" "frame (upd c es) = frame es"
    and sel_slab [simp]: "sel (es\<lparr>ec_slab := x\<rparr>) = sel es" "others (es\<lparr>ec_slab := x\<rparr>) = others es"
      "frame (es\<lparr>ec_slab := x\<rparr>) = frame es"
    and sel_allocs [simp]: "sel (es\<lparr>ec_allocs := n\<rparr>) = sel es" "others (es\<lparr>ec_allocs := n\<rparr>) = others es"
      "frame (es\<lparr>ec_allocs := n\<rparr>) = frame es"
    and value_nonzero: "lib_value E n \<noteq> 0"
begin

lemma cached_nonzero:
  assumes "Inv es" "(k, v) \<in> set (entries (sel es))"
  shows "fst (cs_string v) \<noteq> 0"
proof -
  have "pair_of v \<in># roots_mset (ec_slab es)"
    using assms by (force simp: Inv_iff str_pairs_def)
  from roots_nonzero[OF this] show ?thesis by (simp add: pair_of_def)
qed

lemma cached_string:
  assumes "Inv es" "\<And>es. Inv es \<Longrightarrow> Inv (race es)"
  shows "Inv (fst (get_or_insert L sel upd drop_cached race key cs_string
        (frozen_str E (content key)) (\<lambda>fresh. on_slab (cached_root fresh)) es))
    \<and> snd (snd (get_or_insert L sel upd drop_cached race key cs_string
        (frozen_str E (content key)) (\<lambda>fresh. on_slab (cached_root fresh)) es)) = content key
    \<and> fst (snd (get_or_insert L sel upd drop_cached race key cs_string
        (frozen_str E (content key)) (\<lambda>fresh. on_slab (cached_root fresh)) es)) \<noteq> 0"
proof (rule get_or_insert_rule[where R = "\<lambda>t. snd t = content key \<and> fst t \<noteq> 0"])
  show "Inv es" by fact
  show "Inv (upd c es)" if "Inv es" "mset (entries c) = mset (entries (sel es))" "lcap c = lcap (sel es)" for c es
    using that by (simp add: Inv_iff)
  show "snd (cs_string v) = content key \<and> fst (cs_string v) \<noteq> 0"
    if "Inv es" "(key, v) \<in> set (entries (sel es))" for es v
    using that cached_nonzero[OF that] by (auto simp: Inv_iff)
  show "Inv es' \<and> snd t = content key \<and> fst t \<noteq> 0"
    if "Inv es" "frozen_str E (content key) es = (es', t)" for es es' t
    using that value_nonzero by (auto simp: frozen_str_def Inv_iff)
  show "Inv (race es)" if "Inv es" for es using assms(2) that .
  show "0 < lcap (sel es)" if "Inv es" for es using that limit_pos by (simp add: Inv_iff)
  show "Inv es'"
    if "Inv es" "snd t = content key \<and> fst t \<noteq> 0" "on_slab (cached_root t) es = (es', None)" for es es' t
    using that cached_root_spec[of t "ec_slab es"]
    by (auto simp: on_slab_def Inv_iff split: prod.splits)
  show "Inv (fold drop_cached (map snd gone) (upd c es'))"
    if inv: "Inv es" and t: "snd t = content key \<and> fst t \<noteq> 0"
      and r: "on_slab (cached_root t) es = (es', Some e)"
      and p: "mset (entries c) + mset gone = add_mset (key, e) (mset (entries (sel es)))"
      and cap: "lcap c = lcap (sel es)" for es es' t e c gone
  proof -
    obtain slab' where s: "cached_root t (ec_slab es) = (slab', Some e)" "es' = es\<lparr>ec_slab := slab'\<rparr>"
      using r by (auto simp: on_slab_def split: prod.splits)
    have sw: "cs_string e = t \<and> slab_shape (fold cached_drop (map snd gone) slab')
        \<and> roots_mset (fold cached_drop (map snd gone) slab') = str_pairs (mset (entries c)) + others es"
      by (rule str_swap[OF _ _ s(1) _ p]) (use inv t in \<open>auto simp: Inv_iff\<close>)
    have "snd (cs_string (snd q)) = content (fst q)" if "q \<in># mset (entries c)" for q
      using mem_add[OF p that] inv t sw by (auto simp: Inv_iff)
    with sw inv s cap show ?thesis by (simp add: Inv_iff fold_drop_cached)
  qed
  show "sel es' = sel es" if "on_slab (cached_root t) es = (es', r)" for es es' t r
    using that by (auto simp: on_slab_def split: prod.splits)
qed simp

end

text \<open>
  The three caches together. \<open>g\<close> is the host and port a key of the host cache stands for:
  what every caller that misses computes for it.
\<close>

definition host_content :: "(bytes \<Rightarrow> string \<times> u16) \<Rightarrow> bytes \<times> host_entry \<Rightarrow> bool" where
  "host_content g p \<longleftrightarrow> snd (fst (name_port (snd p))) = fst (g (fst p))
     \<and> snd (snd (name_port (snd p))) = show_nat (unat (snd (g (fst p))))
     \<and> (\<forall>h. he_host (snd p) = Some h \<longrightarrow> snd (cs_string h) = fst p)"

locale env_caches =
  hl: lru_cache "lib_hosts E" hent hcap + al: lru_cache "lib_addrs E" aent acap
    + vl: lru_cache "lib_values E" vent vcap
  for E :: "('lh, 'la, 'lv) env_libs" and hent hcap aent acap vent vcap +
  fixes g :: "bytes \<Rightarrow> string \<times> u16"
  assumes value_nonzero: "lib_value E n \<noteq> 0"
begin

definition cache_inv :: "('lh, 'la, 'lv) env_cache \<Rightarrow> bool" where
  "cache_inv es \<longleftrightarrow>
     slab_shape (ec_slab es)
     \<and> roots_mset (ec_slab es) = host_pairs (mset (hent (ec_hosts es))) + str_pairs (mset (aent (ec_addrs es)))
         + str_pairs (mset (vent (ec_values es)))
     \<and> hcap (ec_hosts es) = HOST_CACHE_CAP \<and> acap (ec_addrs es) = ADDR_CACHE_CAP
     \<and> vcap (ec_values es) = VALUE_CACHE_CAP
     \<and> (\<forall>p \<in># mset (hent (ec_hosts es)). host_content g p)
     \<and> (\<forall>p \<in># mset (aent (ec_addrs es)). snd (cs_string (snd p)) = show_ip (fst p))
     \<and> (\<forall>p \<in># mset (vent (ec_values es)). snd (cs_string (snd p)) = fst p)"

definition addr_frame :: "('lh, 'la, 'lv) env_cache \<Rightarrow> bool" where
  "addr_frame es \<longleftrightarrow> hcap (ec_hosts es) = HOST_CACHE_CAP \<and> vcap (ec_values es) = VALUE_CACHE_CAP
     \<and> (\<forall>p \<in># mset (hent (ec_hosts es)). host_content g p)
     \<and> (\<forall>p \<in># mset (vent (ec_values es)). snd (cs_string (snd p)) = fst p)"

definition value_frame :: "('lh, 'la, 'lv) env_cache \<Rightarrow> bool" where
  "value_frame es \<longleftrightarrow> hcap (ec_hosts es) = HOST_CACHE_CAP \<and> acap (ec_addrs es) = ADDR_CACHE_CAP
     \<and> (\<forall>p \<in># mset (hent (ec_hosts es)). host_content g p)
     \<and> (\<forall>p \<in># mset (aent (ec_addrs es)). snd (cs_string (snd p)) = show_ip (fst p))"

end

sublocale env_caches \<subseteq> addrs: str_cache "lib_addrs E" aent acap ec_addrs set_addrs
  "\<lambda>es. host_pairs (mset (hent (ec_hosts es))) + str_pairs (mset (vent (ec_values es)))"
  addr_frame ADDR_CACHE_CAP show_ip cache_inv E
  by unfold_locales (auto simp: cache_inv_def addr_frame_def ADDR_CACHE_CAP_def value_nonzero ac_simps)

sublocale env_caches \<subseteq> vals: str_cache "lib_values E" vent vcap ec_values set_values
  "\<lambda>es. host_pairs (mset (hent (ec_hosts es))) + str_pairs (mset (aent (ec_addrs es)))"
  value_frame VALUE_CACHE_CAP "\<lambda>k. k" cache_inv E
  by unfold_locales (auto simp: cache_inv_def value_frame_def VALUE_CACHE_CAP_def value_nonzero ac_simps)

context env_caches
begin

lemma set_addr_env_inv:
  assumes "cache_inv (fst se)" "\<And>es. cache_inv es \<Longrightarrow> cache_inv (race es)"
  shows "cache_inv (fst (set_addr_env E race ip se))
    \<and> snd (set_addr_env E race ip se) = (snd se)(''REMOTE_ADDR'' \<mapsto> EStr (show_ip ip))"
  using addrs.cached_string[where race = race and key = ip, OF assms] by (auto simp: set_addr_env_def split: prod.splits)

lemma set_value_env_inv:
  assumes "cache_inv (fst se)" "\<And>es. cache_inv es \<Longrightarrow> cache_inv (race es)"
  shows "cache_inv (fst (set_value_env E race key name val se))
    \<and> snd (set_value_env E race key name val se) = (snd se)(key \<mapsto> EStr val)"
  using vals.cached_string[where race = race and key = val, OF assms] assms(1) by (auto simp: set_value_env_def split: prod.splits)

lemma cache_inv_allocs [simp]: "cache_inv (es\<lparr>ec_allocs := n\<rparr>) = cache_inv es"
  by (simp add: cache_inv_def)

lemma set_hosts_inv:
  "\<lbrakk>cache_inv es; mset (hent c) = mset (hent (ec_hosts es)); hcap c = hcap (ec_hosts es)\<rbrakk>
    \<Longrightarrow> cache_inv (set_hosts c es)"
  by (simp add: cache_inv_def)

lemma frozen_str_inv:
  "cache_inv es \<Longrightarrow> frozen_str E bs es = (es', t) \<Longrightarrow> cache_inv es' \<and> snd t = bs \<and> fst t \<noteq> 0"
  using value_nonzero by (auto simp: frozen_str_def)

text \<open>The strings of a host entry: present, and what the key stands for.\<close>

definition pair_ok :: "bytes \<Rightarrow> rstring \<times> rstring \<Rightarrow> bool" where
  "pair_ok key t \<longleftrightarrow> snd (fst t) = fst (g key) \<and> snd (snd t) = show_nat (unat (snd (g key)))
     \<and> fst (fst t) \<noteq> 0 \<and> fst (snd t) \<noteq> 0"

lemma host_pair_inv:
  "cache_inv es \<Longrightarrow> host_pair E (g key) es = (es', t) \<Longrightarrow> cache_inv es' \<and> pair_ok key t"
  using value_nonzero by (auto simp: host_pair_def frozen_str_def pair_ok_def)

lemma host_hit:
  assumes "cache_inv es" "(key, e) \<in> set (hent (ec_hosts es))"
  shows "pair_ok key (name_port e) \<and> host_content g (key, e)"
proof -
  have c: "host_content g (key, e)" using assms by (auto simp: cache_inv_def)
  have "mset (map pair_of (host_strings e)) \<subseteq># host_pairs (mset (hent (ec_hosts es)))"
    using assms(2) by (metis host_pairs_simps(1) insert_DiffM mset_subset_eq_add_left set_mset_mset snd_conv)
  then have "pair_of x \<in># host_pairs (mset (hent (ec_hosts es)))" if "x \<in> set (host_strings e)" for x
    by (rule mset_subset_eqD) (use that in simp)
  then have "pair_of x \<in># roots_mset (ec_slab es)" if "x \<in> set (host_strings e)" for x
    using that assms(1) by (simp add: cache_inv_def)
  then have "fst (cs_string (he_name e)) \<noteq> 0" "fst (cs_string (he_port e)) \<noteq> 0"
    using roots_nonzero by (force simp: host_strings_def pair_of_def)+
  with c show ?thesis by (simp add: pair_ok_def host_content_def name_port_def)
qed

lemma host_root_None_inv:
  assumes "cache_inv es" "pair_ok key (name, port)" "\<And>h. host = Some h \<Longrightarrow> fst h \<noteq> 0"
    and "on_slab (host_root name port host) es = (es', None)"
  shows "cache_inv es'"
proof -
  obtain slab where s: "host_root name port host (ec_slab es) = (slab, None)" "es' = es\<lparr>ec_slab := slab\<rparr>"
    using assms(4) by (auto simp: on_slab_def split: prod.splits)
  have "slab_shape (ec_slab es)" "fst name \<noteq> 0" "fst port \<noteq> 0"
    using assms(1,2) by (simp_all add: cache_inv_def pair_ok_def)
  from host_root_spec[OF s(1) this assms(3)] assms(1) s(2) show ?thesis by (simp add: cache_inv_def)
qed

lemma host_put_inv:
  assumes inv: "cache_inv es" and ok: "pair_ok key (name, port)"
    and h: "\<And>h. host = Some h \<Longrightarrow> fst h \<noteq> 0 \<and> snd h = key"
    and r: "on_slab (host_root name port host) es = (es', Some e)"
    and p: "mset (hent c) + mset gone = add_mset (key, e) (mset (hent (ec_hosts es)))"
    and cap: "hcap c = hcap (ec_hosts es)"
  shows "cache_inv (fold drop_host_entry (map snd gone) (set_hosts c es'))"
proof -
  let ?rest = "str_pairs (mset (aent (ec_addrs es))) + str_pairs (mset (vent (ec_values es)))"
  obtain slab where s: "host_root name port host (ec_slab es) = (slab, Some e)" "es' = es\<lparr>ec_slab := slab\<rparr>"
    using r by (auto simp: on_slab_def split: prod.splits)
  have "slab_shape (ec_slab es)" "fst name \<noteq> 0" "fst port \<noteq> 0"
    using inv ok by (simp_all add: cache_inv_def pair_ok_def)
  from host_root_spec[OF s(1) this] h have
    e: "slab_shape slab" "name_port e = (name, port)" "map_option cs_string (he_host e) = host"
      "roots_mset slab = mset (map pair_of (host_strings e)) + roots_mset (ec_slab es)" by auto
  have "snd (cs_string c) = key" if "he_host e = Some c" for c using e(3) h[of "cs_string c"] that by simp
  then have "host_content g (key, e)" using e(2) ok by (auto simp: host_content_def pair_ok_def)
  then have content: "host_content g q" if "q \<in># mset (hent c)" for q
    using mem_add[OF p that] inv by (auto simp: cache_inv_def)
  have "roots_mset slab = mset (map pair_of (host_strings e)) + (host_pairs (mset (hent (ec_hosts es))) + ?rest)"
    using e(4) inv by (simp add: cache_inv_def ac_simps)
  from host_swap[OF e(1) this p] content inv s(2) cap show ?thesis
    by (simp add: cache_inv_def fold_drop_hosts ac_simps)
qed

lemma set_host_env_inv:
  assumes "cache_inv (fst se)" "\<And>es. cache_inv es \<Longrightarrow> cache_inv (race es)"
  shows "cache_inv (fst (set_host_env E race host (g host) se))
    \<and> snd (set_host_env E race host (g host) se)
      = (snd se)(''SERVER_NAME'' \<mapsto> EStr (fst (g host)), ''SERVER_PORT'' \<mapsto> EStr (show_nat (unat (snd (g host)))))"
proof -
  let ?f = "get_or_insert (lib_hosts E) ec_hosts set_hosts drop_host_entry race host name_port
      (host_pair E (g host)) (\<lambda>(name, port). on_slab (host_root name port None)) (fst se)"
  have "cache_inv (fst ?f) \<and> pair_ok host (snd ?f)"
  proof (rule hl.get_or_insert_rule[where R = "pair_ok host"])
    show "cache_inv (fst se)" by fact
    show "pair_ok host (name_port v)" if "cache_inv es" "(host, v) \<in> set (hent (ec_hosts es))" for es v
      using host_hit[OF that] by simp
    show "0 < hcap (ec_hosts es)" if "cache_inv es" for es
      using that by (simp add: cache_inv_def HOST_CACHE_CAP_def)
    show "cache_inv es'" if "cache_inv es" "pair_ok host t"
      "(\<lambda>(name, port). on_slab (host_root name port None)) t es = (es', None)" for es es' t
      using that host_root_None_inv[of es host _ _ None es'] by (cases t) auto
    show "cache_inv (fold drop_host_entry (map snd gone) (set_hosts c es'))"
      if "cache_inv es" "pair_ok host t" "(\<lambda>(name, port). on_slab (host_root name port None)) t es = (es', Some e)"
        "mset (hent c) + mset gone = add_mset (host, e) (mset (hent (ec_hosts es)))"
        "hcap c = hcap (ec_hosts es)" for es es' t e c gone
      using that host_put_inv[of es host _ _ None es' e c gone] by (cases t) auto
    show "ec_hosts es' = ec_hosts es"
      if "(\<lambda>(name, port). on_slab (host_root name port None)) t es = (es', r)" for es es' t r
      using that by (auto simp: on_slab_def split: prod.splits)
  qed (auto intro: set_hosts_inv assms(2) dest: host_pair_inv)
  then show ?thesis
    by (cases ?f) (auto simp: set_host_env_def put_name_port_def pair_ok_def)
qed

lemma fill_host_at_inv:
  assumes inv: "cache_inv es" and m: "map_of (hent (ec_hosts es)) key = Some e"
    and h: "fst host \<noteq> 0" "snd host = key"
    and f: "fill_host_at E key host e es = (es', str)"
  shows "cache_inv es' \<and> snd str = key"
proof -
  obtain slab e' where e': "fill_host host e (ec_slab es) = (slab, e', str)"
    and es': "es' = es\<lparr>ec_slab := slab, ec_hosts := lr_set (lib_hosts E) (ec_hosts es) key e'\<rparr>"
    using f by (auto simp: fill_host_at_def split: prod.splits)
  note sp = hl.set_present[OF m, of e']
  have c: "host_content g (key, e)" using host_hit[OF inv map_of_SomeD[OF m]] by simp
  have shape: "slab_shape (ec_slab es)" using inv by (simp add: cache_inv_def)
  have new: "slab_shape slab" "host_content g (key, e')" "snd str = key"
    "roots_mset slab + mset (map pair_of (host_strings e))
      = roots_mset (ec_slab es) + mset (map pair_of (host_strings e'))"
    using e' c shape h cached_root_spec[of host "ec_slab es"]
    by (auto simp: fill_host_def host_content_def host_strings_def name_port_def
        split: option.splits prod.splits)
  let ?old = "host_pairs (mset (hent (ec_hosts es)))" and ?new = "host_pairs (mset (hent (ec_hosts es')))"
  have "mset (map pair_of (host_strings e)) + ?new = mset (map pair_of (host_strings e')) + ?old"
    using arg_cong[OF conjunct1[OF sp], of host_pairs] es' by simp
  then have "roots_mset slab = ?new + str_pairs (mset (aent (ec_addrs es))) + str_pairs (mset (vent (ec_values es)))"
    by (rule mset_exchange[OF new(4)]) (use inv in \<open>simp add: cache_inv_def\<close>)
  moreover have "host_content g q" if "q \<in># mset (hent (ec_hosts es'))" for q
  proof -
    have "q \<in># add_mset (key, e) (mset (hent (ec_hosts es')))" using that by simp
    then have "q \<in># add_mset (key, e') (mset (hent (ec_hosts es)))" using conjunct1[OF sp] es' by simp
    then show ?thesis using new(2) inv by (auto simp: cache_inv_def)
  qed
  ultimately show ?thesis using new sp es' inv by (simp add: cache_inv_def)
qed

lemma get_host_inv:
  assumes "cache_inv es" "lr_get (lib_hosts E) (ec_hosts es) key = (c, r)"
  shows "cache_inv (set_hosts c es) \<and> r = map_of (hent c) key"
  using hl.get_view[OF assms(2)] set_hosts_inv[OF assms(1), of c] hl.map_of_mset[of c "ec_hosts es"] by simp

text \<open>The entry is there at the first look, or it is not.\<close>

lemma authority_hit_inv:
  assumes inv: "cache_inv es" and race: "\<And>es. cache_inv es \<Longrightarrow> cache_inv (race es)"
    and get: "lr_get (lib_hosts E) (ec_hosts es) key = (c, Some e)"
    and a: "authority_strings E race key (g key) es = (es', name, port, host)"
  shows "cache_inv es' \<and> pair_ok key (name, port) \<and> snd host = key"
proof -
  note i1 = get_host_inv[OF inv get]
  have e: "pair_ok key (name_port e)" "host_content g (key, e)"
    using host_hit[of "set_hosts c es" key e] i1 map_of_SomeD[of "hent c" key e] by simp_all
  obtain nm pt where np: "name_port e = (nm, pt)" by (metis surj_pair)
  note steps = authority_strings_def Let_def get np
  show ?thesis
  proof (cases "he_host e")
    case (Some h)
    with e conjunct1[OF i1] a np show ?thesis by (auto simp: steps host_content_def)
  next
    case None
    obtain es1 hs where f: "frozen_str E key (set_hosts c es) = (es1, hs)" by (metis surj_pair)
    from frozen_str_inv[OF conjunct1[OF i1] f] have i2: "cache_inv (race es1)" "snd hs = key" "fst hs \<noteq> 0"
      using race by auto
    obtain c2 r2 where g2: "lr_get (lib_hosts E) (ec_hosts (race es1)) key = (c2, r2)" by (metis surj_pair)
    note i3 = get_host_inv[OF i2(1) g2]
    show ?thesis
    proof (cases r2)
      case r2: None
      then show ?thesis
        using i2 conjunct1[OF i3] None e f g2 a np by (auto simp: steps)
    next
      case (Some e2)
      obtain es3 str where f3: "fill_host_at E key hs e2 (set_hosts c2 (race es1)) = (es3, str)"
        by (metis surj_pair)
      have "cache_inv es3 \<and> snd str = key"
        using fill_host_at_inv[OF conjunct1[OF i3], of key e2 hs es3 str] i2 i3 Some f3 by simp
      then show ?thesis
        using a e None Some f g2 f3 np by (auto simp: steps)
    qed
  qed
qed

lemma authority_put_inv:
  assumes "cache_inv es" "pair_ok key (n, p)" "fst hs \<noteq> 0" "snd hs = key"
    and "map_of (hent (ec_hosts es)) key = None"
    and "on_slab (host_root n p (Some hs)) es = (es1, Some e)" "lr_put (lib_hosts E) (ec_hosts es1) key e = (c, dr)"
  shows "cache_inv (fold drop_host_entry dr (set_hosts c es1))"
proof -
  have hosts: "ec_hosts es1 = ec_hosts es" using assms(6) by (auto simp: on_slab_def split: prod.splits)
  have "0 < hcap (ec_hosts es)" using assms(1) by (simp add: cache_inv_def HOST_CACHE_CAP_def)
  from hl.put_absent[OF assms(5) this, of e] assms(7) hosts obtain gone where
    "mset (hent c) + mset gone = add_mset (key, e) (mset (hent (ec_hosts es)))" "dr = map snd gone"
    "hcap c = hcap (ec_hosts es)" by auto
  then show ?thesis using host_put_inv[OF assms(1,2), of "Some hs" es1 e c gone] assms(3,4,6) by simp
qed

lemma authority_miss_inv:
  assumes inv: "cache_inv es" and race: "\<And>es. cache_inv es \<Longrightarrow> cache_inv (race es)"
    and get: "lr_get (lib_hosts E) (ec_hosts es) key = (c, None)"
    and a: "authority_strings E race key (g key) es = (es', name, port, host)"
  shows "cache_inv es' \<and> pair_ok key (name, port) \<and> snd host = key"
proof -
  obtain es1 n p where hp: "host_pair E (g key) (set_hosts c es) = (es1, n, p)" by (metis prod_cases3)
  from host_pair_inv[OF conjunct1[OF get_host_inv[OF inv get]] hp]
  have i2: "cache_inv es1" "pair_ok key (n, p)" by auto
  obtain es2 hs where f: "frozen_str E key es1 = (es2, hs)" by (metis surj_pair)
  from frozen_str_inv[OF i2(1) f] have i3: "cache_inv (race es2)" "snd hs = key" "fst hs \<noteq> 0"
    using race by auto
  obtain c2 r2 where g2: "lr_get (lib_hosts E) (ec_hosts (race es2)) key = (c2, r2)" by (metis surj_pair)
  note i4 = get_host_inv[OF i3(1) g2] and steps = authority_strings_def Let_def get hp f g2
  show ?thesis
  proof (cases r2)
    case (Some e)
    obtain es3 str where f3: "fill_host_at E key hs e (set_hosts c2 (race es2)) = (es3, str)" by (metis surj_pair)
    have "pair_ok key (name_port e)"
      using host_hit[of "set_hosts c2 (race es2)" key e] i4 Some map_of_SomeD[of "hent c2" key e] by simp
    moreover have "cache_inv es3 \<and> snd str = key"
      using fill_host_at_inv[OF conjunct1[OF i4], of key e hs es3 str] i3 i4 Some f3 by simp
    ultimately show ?thesis using a Some f3 by (auto simp: steps)
  next
    case miss: None
    obtain es3 eo where ro: "on_slab (host_root n p (Some hs)) (set_hosts c2 (race es2)) = (es3, eo)" by (metis surj_pair)
    show ?thesis
    proof (cases eo)
      case e: None
      then show ?thesis
        using host_root_None_inv[OF conjunct1[OF i4] i2(2), of "Some hs" es3] i2 i3 ro miss a by (auto simp: steps)
    next
      case (Some e)
      obtain c3 dr where p3: "lr_put (lib_hosts E) (ec_hosts es3) key e = (c3, dr)" by (metis surj_pair)
      have "cache_inv (fold drop_host_entry dr (set_hosts c3 es3))"
        using authority_put_inv[OF conjunct1[OF i4] i2(2) i3(3,2) _ _ p3] i4 miss ro Some by simp
      then show ?thesis using i2 i3 ro miss Some p3 a by (auto simp: steps)
    qed
  qed
qed

lemma authority_strings_inv:
  assumes "cache_inv es" "\<And>es. cache_inv es \<Longrightarrow> cache_inv (race es)"
    and "authority_strings E race key (g key) es = (es', name, port, host)"
  shows "cache_inv es' \<and> snd name = fst (g key) \<and> snd port = show_nat (unat (snd (g key))) \<and> snd host = key"
proof -
  obtain c r where "lr_get (lib_hosts E) (ec_hosts es) key = (c, r)" by (metis surj_pair)
  with authority_hit_inv[OF assms(1,2) _ assms(3)] authority_miss_inv[OF assms(1,2) _ assms(3)]
  have "cache_inv es' \<and> pair_ok key (name, port) \<and> snd host = key" by (cases r) auto
  then show ?thesis by (simp add: pair_ok_def)
qed

lemma init_inv: "cache_inv (env_cache_init E)"
proof -
  have "pin_roots (with_capacity CACHE_SLAB_CAPACITY) = Map.empty"
    by (auto simp: pin_roots_def with_capacity_def fun_eq_iff)
  then show ?thesis
    using hl.new_entries[of HOST_CACHE_CAP] al.new_entries[of ADDR_CACHE_CAP] vl.new_entries[of VALUE_CACHE_CAP]
    by (simp add: cache_inv_def env_cache_init_def slab_shape_def pin_valid_def pin_capacity_def
        with_capacity_def roots_mset_def CACHE_SLAB_CAPACITY_def HOST_CACHE_CAP_def ADDR_CACHE_CAP_def
        VALUE_CACHE_CAP_def)
qed

text \<open>The slab is large enough for one more entry of any kind.\<close>

lemma roots_bounded:
  assumes "cache_inv es"
  shows "card (dom (pin_roots (ec_slab es))) + 3 \<le> CACHE_SLAB_CAPACITY"
proof -
  have "size (host_pairs M) \<le> 3 * size M" for M :: "(bytes \<times> host_entry) multiset"
    by (induction M) (auto simp: host_strings_def split: option.splits)
  then have "size (host_pairs (mset (hent (ec_hosts es)))) \<le> 3 * HOST_CACHE_CAP"
    using hl.within_cap[of "ec_hosts es"] assms
    by (metis (no_types, lifting) cache_inv_def le_trans mult_le_mono2 size_mset)
  moreover have "size (str_pairs (mset (aent (ec_addrs es)))) \<le> ADDR_CACHE_CAP"
    "size (str_pairs (mset (vent (ec_values es)))) \<le> VALUE_CACHE_CAP"
    using al.within_cap[of "ec_addrs es"] vl.within_cap[of "ec_values es"] assms
    by (simp_all add: str_pairs_def cache_inv_def)
  moreover have "card (dom (pin_roots (ec_slab es))) = size (host_pairs (mset (hent (ec_hosts es))))
      + size (str_pairs (mset (aent (ec_addrs es)))) + size (str_pairs (mset (vent (ec_values es))))"
    using assms by (simp add: cache_inv_def flip: size_roots_mset)
  ultimately show ?thesis
    by (simp add: CACHE_SLAB_CAPACITY_def)
qed

end


section \<open>Sequences of lookups from many ractors\<close>

datatype env_op = OpHost bytes | OpAuthority string | OpValue bytes string bytes | OpAddr ip_addr

fun env_apply ::
  "('lh, 'la, 'lv) env_libs \<Rightarrow> (bytes \<Rightarrow> string \<times> u16) \<Rightarrow> (('lh, 'la, 'lv) env_cache \<Rightarrow> ('lh, 'la, 'lv) env_cache)
     \<Rightarrow> env_op \<Rightarrow> ('lh, 'la, 'lv) env_cache \<times> env \<Rightarrow> ('lh, 'la, 'lv) env_cache \<times> env" where
  "env_apply E g race (OpHost h) se = set_host_env E race h (g h) se"
| "env_apply E g race (OpAuthority a) se = set_authority_env E race a (g a) se"
| "env_apply E g race (OpValue k n v) se = set_value_env E race k n v se"
| "env_apply E g race (OpAddr ip) se = set_addr_env E race ip se"

text \<open>What the operation sets without a cache.\<close>

fun env_plain :: "(bytes \<Rightarrow> string \<times> u16) \<Rightarrow> env_op \<Rightarrow> env \<Rightarrow> env" where
  "env_plain g (OpHost h) ev =
     ev(''SERVER_NAME'' \<mapsto> EStr (fst (g h)), ''SERVER_PORT'' \<mapsto> EStr (show_nat (unat (snd (g h)))))"
| "env_plain g (OpAuthority a) ev =
     ev(''SERVER_NAME'' \<mapsto> EStr (fst (g a)), ''SERVER_PORT'' \<mapsto> EStr (show_nat (unat (snd (g a)))),
        ''HTTP_HOST'' \<mapsto> EStr a)"
| "env_plain g (OpValue k n v) ev = ev(k \<mapsto> EStr v)"
| "env_plain g (OpAddr ip) ev = ev(''REMOTE_ADDR'' \<mapsto> EStr (show_ip ip))"

text \<open>
  A run: each operation comes with the operations other ractors complete while it holds
  no lock.
\<close>

definition interference ::
  "('lh, 'la, 'lv) env_libs \<Rightarrow> (bytes \<Rightarrow> string \<times> u16) \<Rightarrow> env_op list
     \<Rightarrow> ('lh, 'la, 'lv) env_cache \<Rightarrow> ('lh, 'la, 'lv) env_cache" where
  "interference E g others es = fst (fold (env_apply E g id) others (es, Map.empty))"

definition env_run ::
  "('lh, 'la, 'lv) env_libs \<Rightarrow> (bytes \<Rightarrow> string \<times> u16) \<Rightarrow> (env_op \<times> env_op list) list
     \<Rightarrow> ('lh, 'la, 'lv) env_cache \<times> env \<Rightarrow> ('lh, 'la, 'lv) env_cache \<times> env" where
  "env_run E g ops se = fold (\<lambda>(x, others). env_apply E g (interference E g others) x) ops se"

context env_caches
begin

lemma env_apply_inv:
  assumes "cache_inv (fst se)" "\<And>es. cache_inv es \<Longrightarrow> cache_inv (race es)"
  shows "cache_inv (fst (env_apply E g race x se)) \<and> snd (env_apply E g race x se) = env_plain g x (snd se)"
proof (cases x)
  case (OpAuthority a)
  obtain es' n p h where r: "authority_strings E race a (g a) (fst se) = (es', n, p, h)"
    by (metis surj_pair)
  show ?thesis
    using authority_strings_inv[OF assms r] r OpAuthority
    by (auto simp: set_authority_env_def put_name_port_def)
qed (use set_host_env_inv[OF assms] set_value_env_inv[OF assms] set_addr_env_inv[OF assms] in auto)

lemma interference_inv: "cache_inv es \<Longrightarrow> cache_inv (interference E g others es)"
proof -
  have "cache_inv (fst se) \<Longrightarrow> cache_inv (fst (fold (env_apply E g id) others se))" for se
    by (induction others arbitrary: se) (simp_all add: env_apply_inv)
  then show "cache_inv es \<Longrightarrow> ?thesis" by (simp add: interference_def)
qed

lemma env_run_inv:
  "cache_inv (fst se) \<Longrightarrow> cache_inv (fst (env_run E g ops se))
    \<and> snd (env_run E g ops se) = fold (env_plain g) (map fst ops) (snd se)"
proof (induction ops arbitrary: se)
  case Nil
  then show ?case by (simp add: env_run_def)
next
  case (Cons p ops)
  obtain x others where p: "p = (x, others)" by force
  let ?se = "env_apply E g (interference E g others) x se"
  have "cache_inv (fst ?se)" "snd ?se = env_plain g x (snd se)"
    using env_apply_inv[OF Cons.prems interference_inv] by auto
  with Cons.IH[of ?se] p show ?case by (simp add: env_run_def)
qed

end

definition example_libs :: "(nat \<times> (bytes \<times> host_entry) list, nat \<times> (ip_addr \<times> cached_str) list,
    nat \<times> (bytes \<times> cached_str) list) env_libs" where
  "example_libs = \<lparr>lib_hosts = list_lru, lib_addrs = list_lru, lib_values = list_lru,
     lib_value = (\<lambda>n. if of_nat n = (0 :: u64) then 8 else of_nat n)\<rparr>"

interpretation list_env: env_caches example_libs list_lru_view fst list_lru_view fst list_lru_view fst g for g
  by (simp add: env_caches_def env_caches_axioms_def example_libs_def list_lru.lru_cache_axioms)

section \<open>Properties\<close>



text \<open>
  The host cache's key does not include the port of the accepting socket, although the
  value does when the \<open>Host\<close> header names none: a second server in the process, on another
  port, reports the first one's port for the same header.
\<close>

theorem host_cache_ignores_local_port:
  "let E = example_libs;
       es0 = (env_cache_init E)\<lparr>ec_slab := with_capacity 2\<rparr>;
       es1 = fst (set_host_env E id ''a.org'' (split_host_port ''a.org'' 9292) (es0, Map.empty))
   in snd (set_host_env E id ''a.org'' (split_host_port ''a.org'' 8080) (es1, Map.empty)) ''SERVER_PORT''
        = Some (EStr ''9292'')"
proof -
  have p: "show_nat 9292 = ''9292''" by (simp add: show_nat.simps)
  have sp: "split_host_port ''a.org'' d = (''a.org'', d)" for d by (simp add: split_host_port_def)
  have slab: "pin_insert (with_capacity 2) 8 = (\<lparr>ps_slots = [8, 0], ps_cursor = 1, ps_shareable_only = False\<rparr>, Some 0)"
    "pin_insert \<lparr>ps_slots = [8, 0], ps_cursor = 1, ps_shareable_only = False\<rparr> 1
      = (\<lparr>ps_slots = [8, 1], ps_cursor = 2, ps_shareable_only = False\<rparr>, Some 1)"
    by (simp_all add: pin_insert_def with_capacity_def ring_index_def numeral_2_eq_2 upt_rec)
  show ?thesis
    by (simp add: Let_def sp set_host_env_def get_or_insert_def example_libs_def list_lru_def list_lru_view_def
        env_cache_init_def host_pair_def frozen_str_def on_slab_def host_root_def cached_root_def slab p
        HOST_CACHE_CAP_def put_name_port_def name_port_def)
qed

end
