(* ===== verification/Kino_Env.thy ===== *)
theory Kino_Env
  imports Kino_Env_Cache
begin

text \<open>
  The Rack environment of a request (\<open>build_env\<close> in \<open>ext/kino/src/request.rs\<close>, names and
  defaults in \<open>ext/kino/src/env_strings.rs\<close>). \<open>rack_env\<close> is the same environment without
  the string caches; the two agree.
\<close>

section \<open>Names\<close>

definition COMMON_METHODS :: "string list" where
  "COMMON_METHODS = [''GET'', ''HEAD'', ''POST'', ''PUT'', ''DELETE'', ''PATCH'', ''OPTIONS'', ''TRACE'', ''CONNECT'']"

definition COMMON_HEADERS :: "string list" where
  "COMMON_HEADERS = [''host'', ''connection'', ''user-agent'', ''accept'', ''accept-encoding'',
     ''accept-language'', ''accept-charset'', ''cookie'', ''referer'', ''origin'', ''authorization'',
     ''cache-control'', ''pragma'', ''expect'', ''forwarded'', ''via'', ''range'', ''te'', ''dnt'',
     ''upgrade-insecure-requests'', ''if-none-match'', ''if-modified-since'', ''if-match'',
     ''if-unmodified-since'', ''if-range'', ''x-forwarded-for'', ''x-forwarded-proto'',
     ''x-forwarded-host'', ''x-forwarded-port'', ''x-real-ip'', ''x-request-id'', ''x-requested-with'',
     ''x-csrf-token'', ''x-api-key'', ''content-encoding'', ''content-language'', ''sec-fetch-dest'',
     ''sec-fetch-mode'', ''sec-fetch-site'', ''sec-fetch-user'', ''sec-ch-ua'', ''sec-ch-ua-mobile'',
     ''sec-ch-ua-platform'', ''keep-alive'', ''priority'', ''alt-used'']"

definition cgi_char :: "char \<Rightarrow> char" where
  "cgi_char c = (if c = CHR ''-'' then CHR ''_'' else ascii_upper c)"

definition cgi_name :: "string \<Rightarrow> string" where
  "cgi_name lower = ''HTTP_'' @ map cgi_char lower"

text \<open>
  The tables built at init: method and header name to the frozen string for it. A name that is
  not in a table gets a fresh string.
\<close>

definition methods_table :: "string \<rightharpoonup> bytes" where
  "methods_table m = (if m \<in> set COMMON_METHODS then Some m else None)"

definition header_names_table :: "string \<rightharpoonup> bytes" where
  "header_names_table h = (if h \<in> set COMMON_HEADERS then Some (cgi_name h) else None)"

section \<open>UTF-8\<close>

text \<open>
  \<open>str::from_utf8\<close> and \<open>String::from_utf8_lossy\<close>: the first chunk of a byte string is a
  well-formed character or the longest ill-formed prefix that is replaced as a whole.
\<close>

definition byte_in :: "nat \<Rightarrow> nat \<Rightarrow> bytes \<Rightarrow> nat \<Rightarrow> bool" where
  "byte_in lo hi bs i \<longleftrightarrow> i < length bs \<and> lo \<le> of_char (bs ! i) \<and> of_char (bs ! i) \<le> hi"

definition utf8_chunk :: "bytes \<Rightarrow> bool \<times> nat" where
  "utf8_chunk bs =
     (if byte_in 0 0x7F bs 0 then (True, 1)
      else if byte_in 0xC2 0xDF bs 0 then (if byte_in 0x80 0xBF bs 1 then (True, 2) else (False, 1))
      else if byte_in 0xE0 0xEF bs 0 then
        (if (if byte_in 0xE0 0xE0 bs 0 then byte_in 0xA0 0xBF bs 1
             else if byte_in 0xED 0xED bs 0 then byte_in 0x80 0x9F bs 1 else byte_in 0x80 0xBF bs 1)
         then (if byte_in 0x80 0xBF bs 2 then (True, 3) else (False, 2)) else (False, 1))
      else if byte_in 0xF0 0xF4 bs 0 then
        (if (if byte_in 0xF0 0xF0 bs 0 then byte_in 0x90 0xBF bs 1
             else if byte_in 0xF4 0xF4 bs 0 then byte_in 0x80 0x8F bs 1 else byte_in 0x80 0xBF bs 1)
         then (if byte_in 0x80 0xBF bs 2
               then (if byte_in 0x80 0xBF bs 3 then (True, 4) else (False, 3)) else (False, 2))
         else (False, 1))
      else (False, 1))"

lemma utf8_chunk_pos [termination_simp]: "0 < snd (utf8_chunk bs)"
  by (simp add: utf8_chunk_def)

function utf8_valid :: "bytes \<Rightarrow> bool" where
  "utf8_valid [] = True"
| "utf8_valid (b # bs) =
     (case utf8_chunk (b # bs) of (ok, n) \<Rightarrow> ok \<and> utf8_valid (drop n (b # bs)))"
  by pat_completeness auto
termination
  by (relation "measure length") (auto, metis diff_less length_Cons snd_conv utf8_chunk_pos zero_less_Suc)

definition replacement_char :: bytes where
  "replacement_char = [CHR 0xEF, CHR 0xBF, CHR 0xBD]"

function utf8_lossy :: "bytes \<Rightarrow> bytes" where
  "utf8_lossy [] = []"
| "utf8_lossy (b # bs) =
     (case utf8_chunk (b # bs) of (ok, n) \<Rightarrow>
        (if ok then take n (b # bs) else replacement_char) @ utf8_lossy (drop n (b # bs)))"
  by pat_completeness auto
termination
  by (relation "measure length") (auto, metis diff_less length_Cons snd_conv utf8_chunk_pos zero_less_Suc)

section \<open>Building the environment\<close>

text \<open>Which shareable defaults the Ruby layer registered: \<open>rack.errors\<close> and the null \<open>rack.input\<close>.\<close>

record env_defaults =
  ed_errors :: bool
  ed_null_input :: bool

text \<open>\<open>register_defaults\<close>: \<open>sh1\<close> and \<open>sh2\<close> are the answers of \<open>Ractor.shareable?\<close>.\<close>

definition register_defaults :: "bool \<Rightarrow> bool \<Rightarrow> env_defaults \<Rightarrow> env_defaults \<times> (kino_error + unit)" where
  "register_defaults sh1 sh2 D =
     (if sh1 \<and> sh2 then (D\<lparr>ed_errors := True, ed_null_input := True\<rparr>, Inr ())
      else (D, Inl (ArgError ''register_defaults expects Ractor-shareable objects'')))"

definition put :: "bytes \<Rightarrow> env_value \<Rightarrow> 'es \<times> env \<Rightarrow> 'es \<times> env" where
  "put k v se = (fst se, (snd se)(k \<mapsto> v))"

definition protocol_name :: "http_version \<Rightarrow> bytes" where
  "protocol_name v = (case v of HTTP_10 \<Rightarrow> ''HTTP/1.0'' | HTTP_2 \<Rightarrow> ''HTTP/2'' | _ \<Rightarrow> ''HTTP/1.1'')"

definition header_key :: "string \<Rightarrow> bytes" where
  "header_key name =
     (if name = ''content-type'' then ''CONTENT_TYPE''
      else if name = ''content-length'' then ''CONTENT_LENGTH''
      else case header_names_table name of Some cached \<Rightarrow> cached | None \<Rightarrow> cgi_name name)"

definition header_sep :: "string \<Rightarrow> bytes" where
  "header_sep name = (if name = ''cookie'' then ''; '' else '', '')"

fun join_rest :: "bytes \<Rightarrow> bytes list \<Rightarrow> bytes" where
  "join_rest sep [] = []"
| "join_rest sep (v # vs) = sep @ v @ join_rest sep vs"

text \<open>The environment up to the headers.\<close>

definition env_static ::
  "(bytes, 'b) flume \<Rightarrow> env_defaults \<Rightarrow> ('h, 'b) request_ctx \<Rightarrow> ('es \<times> env \<Rightarrow> 'es \<times> env) \<Rightarrow> 'es \<Rightarrow> 'es \<times> env" where
  "env_static B D ctx addr es =
     (let se = (es, Map.empty);
          method = (case methods_table (cx_method ctx) of Some cached \<Rightarrow> cached | None \<Rightarrow> cx_method ctx);
          se = put ''REQUEST_METHOD'' (EStr method) se;
          se = put ''SCRIPT_NAME'' (EStr []) se;
          se = put ''PATH_INFO'' (EStr (ur_path (cx_uri ctx))) se;
          query = (case ur_query (cx_uri ctx) of Some q \<Rightarrow> if q \<noteq> [] then q else [] | None \<Rightarrow> []);
          se = put ''QUERY_STRING'' (EStr query) se;
          se = put ''SERVER_PROTOCOL'' (EStr (protocol_name (cx_version ctx))) se;
          se = addr se;
          se = put ''rack.url_scheme'' (EStr (if cx_https ctx then ''https'' else ''http'')) se;
          se = (if ed_errors D then put ''rack.errors'' EErrors se else se)
      in if \<not> body_possible B ctx \<and> ed_null_input D then put ''rack.input'' ENullInput se else se)"

text \<open>
  One header: a single value through the value cache (\<open>val\<close>), several joined.
\<close>

definition env_header ::
  "'h header_ops \<Rightarrow> 'h \<Rightarrow> (bytes \<Rightarrow> string \<Rightarrow> bytes \<Rightarrow> 'es \<times> env \<Rightarrow> 'es \<times> env) \<Rightarrow> string
     \<Rightarrow> 'es \<times> env \<Rightarrow> 'es \<times> env" where
  "env_header H hs val name se =
     (let key = header_key name in
      case hm_get_all H hs name of
        [] \<Rightarrow> val key name [] se
      | [v] \<Rightarrow> val key name v se
      | first # rest \<Rightarrow> put key (EStr (first @ join_rest (header_sep name) rest)) se)"

text \<open>
  Where the host comes from: the key of the host cache and what it stands for, and whether
  it is the URI's authority.
\<close>

definition host_source ::
  "'h header_ops \<Rightarrow> ('h, 'b) request_ctx \<Rightarrow> bool \<times> bytes \<times> (string \<times> u16)" where
  "host_source H ctx =
     (let local_port = sa_port (cx_local_addr ctx) in
      case ur_authority (cx_uri ctx) of
        Some a \<Rightarrow> (True, au_str a, (au_host a, case au_port a of Some p \<Rightarrow> p | None \<Rightarrow> local_port))
      | None \<Rightarrow>
          (case hm_get H (cx_headers ctx) ''host'' of
             Some host \<Rightarrow>
               (False, host, if utf8_valid host then split_host_port host local_port
                             else (utf8_lossy host, local_port))
           | None \<Rightarrow>
               (let ip = show_ip (sa_ip (cx_local_addr ctx))
                in (False, CHR 0x00 # ip @ '':'' @ show_nat (unat local_port), (ip, local_port)))))"

definition build_env ::
  "('lh, 'la, 'lv) env_libs \<Rightarrow> (('lh, 'la, 'lv) env_cache \<Rightarrow> ('lh, 'la, 'lv) env_cache) \<Rightarrow> 'h header_ops
     \<Rightarrow> (bytes, 'b) flume \<Rightarrow> env_defaults \<Rightarrow> ('h, 'b) request_ctx \<Rightarrow> ('lh, 'la, 'lv) env_cache
     \<Rightarrow> ('lh, 'la, 'lv) env_cache \<times> env" where
  "build_env E race H B D ctx es =
     (let se = env_static B D ctx (set_addr_env E race (sa_ip (cx_remote_addr ctx))) es;
          se = fold (env_header H (cx_headers ctx) (set_value_env E race)) (hm_keys H (cx_headers ctx)) se
      in case host_source H ctx of
           (True, key, np) \<Rightarrow> set_authority_env E race key np se
         | (False, key, np) \<Rightarrow> set_host_env E race key np se)"

section \<open>The environment without caches\<close>

definition header_value :: "'h header_ops \<Rightarrow> 'h \<Rightarrow> string \<Rightarrow> bytes" where
  "header_value H hs name =
     (case hm_get_all H hs name of [] \<Rightarrow> [] | first # rest \<Rightarrow> first @ join_rest (header_sep name) rest)"

definition rack_env ::
  "'h header_ops \<Rightarrow> (bytes, 'b) flume \<Rightarrow> env_defaults \<Rightarrow> ('h, 'b) request_ctx \<Rightarrow> env" where
  "rack_env H B D ctx =
     (let ev = snd (env_static B D ctx (put ''REMOTE_ADDR'' (EStr (show_ip (sa_ip (cx_remote_addr ctx))))) ());
          ev = fold (\<lambda>n ev. ev(header_key n \<mapsto> EStr (header_value H (cx_headers ctx) n)))
                 (hm_keys H (cx_headers ctx)) ev
      in case host_source H ctx of
           (auth, key, (name, port)) \<Rightarrow>
             let ev = ev(''SERVER_NAME'' \<mapsto> EStr name, ''SERVER_PORT'' \<mapsto> EStr (show_nat (unat port)))
             in if auth then ev(''HTTP_HOST'' \<mapsto> EStr key) else ev)"

lemma header_key_simps:
  "header_key n = (if n = ''content-type'' then ''CONTENT_TYPE''
     else if n = ''content-length'' then ''CONTENT_LENGTH'' else cgi_name n)"
  by (simp add: header_key_def header_names_table_def)

context env_caches
begin

lemma env_static_inv:
  assumes "cache_inv es" "\<And>es. cache_inv es \<Longrightarrow> cache_inv (race es)"
  shows "cache_inv (fst (env_static B D ctx (set_addr_env E race (sa_ip (cx_remote_addr ctx))) es))
    \<and> snd (env_static B D ctx (set_addr_env E race (sa_ip (cx_remote_addr ctx))) es)
      = snd (env_static B D ctx (put ''REMOTE_ADDR'' (EStr (show_ip (sa_ip (cx_remote_addr ctx))))) ())"
  using set_addr_env_inv[where race = race, OF _ assms(2)] assms(1)
  by (auto simp: env_static_def Let_def put_def)

lemma env_header_inv:
  assumes "cache_inv (fst se)" "\<And>es. cache_inv es \<Longrightarrow> cache_inv (race es)"
  shows "cache_inv (fst (env_header H hs (set_value_env E race) n se))
    \<and> snd (env_header H hs (set_value_env E race) n se)
      = (snd se)(header_key n \<mapsto> EStr (header_value H hs n))"
  using set_value_env_inv[where race = race, OF assms] assms(1)
  by (auto simp: env_header_def header_value_def put_def Let_def split: list.splits)

lemma env_headers_inv:
  assumes race: "\<And>es. cache_inv es \<Longrightarrow> cache_inv (race es)"
  shows "cache_inv (fst se) \<Longrightarrow>
    cache_inv (fst (fold (env_header H hs (set_value_env E race)) ns se))
    \<and> snd (fold (env_header H hs (set_value_env E race)) ns se)
      = fold (\<lambda>n ev. ev(header_key n \<mapsto> EStr (header_value H hs n))) ns (snd se)"
  by (induction ns arbitrary: se) (simp_all add: env_header_inv[where race = race, OF _ race])

lemma build_env_inv:
  assumes "cache_inv es" "\<And>es. cache_inv es \<Longrightarrow> cache_inv (race es)"
    and "snd (snd (host_source H ctx)) = g (fst (snd (host_source H ctx)))"
  shows "cache_inv (fst (build_env E race H B D ctx es))
    \<and> snd (build_env E race H B D ctx es) = rack_env H B D ctx"
proof -
  obtain auth key np where h: "host_source H ctx = (auth, key, np)" by (metis prod_cases3)
  then have np: "np = g key" using assms(3) by simp
  note st = env_static_inv[where race = race and B = B and D = D and ctx = ctx, OF assms(1,2)]
  note hd = env_headers_inv[where race = race and H = H and hs = "cx_headers ctx" and ns = "hm_keys H (cx_headers ctx)",
      OF assms(2) conjunct1[OF st]]
  note ho = env_apply_inv[where race = race and x = "OpHost key", OF conjunct1[OF hd] assms(2)]
  note au = env_apply_inv[where race = race and x = "OpAuthority key", OF conjunct1[OF hd] assms(2)]
  show ?thesis
    using st hd ho au by (cases auth) (auto simp: build_env_def rack_env_def Let_def h np split: prod.splits)
qed

end


section \<open>Header names as keys\<close>

text \<open>A name as it comes off the wire, lower-cased by the HTTP library, without underscores.\<close>

definition wire_char :: "char \<Rightarrow> bool" where
  "wire_char c \<longleftrightarrow> (let v = of_char c :: nat in \<not> (65 \<le> v \<and> v \<le> 90) \<and> v \<noteq> 95)"

definition wire_name :: "string \<Rightarrow> bool" where
  "wire_name n \<longleftrightarrow> list_all wire_char n"

definition cgi_code :: "nat \<Rightarrow> nat" where
  "cgi_code v = (if v = 45 then 95 else if 97 \<le> v \<and> v \<le> 122 then v - 32 else v)"

lemma of_char_cgi: "of_char (cgi_char c) = cgi_code (of_char c)"
proof (cases "c = CHR ''-''")
  case True
  then show ?thesis by (simp add: cgi_char_def cgi_code_def)
next
  case False
  have "of_char c \<noteq> (of_char (CHR ''-'') :: nat)" using False by (metis of_char_eq_iff)
  then have "of_char c \<noteq> (45 :: nat)" by simp
  with False show ?thesis by (auto simp: cgi_char_def ascii_upper_def cgi_code_def Let_def)
qed

lemma cgi_code_inj:
  "\<lbrakk>\<not> (65 \<le> v \<and> v \<le> 90); v \<noteq> 95; \<not> (65 \<le> w \<and> w \<le> 90); w \<noteq> 95; cgi_code v = cgi_code w\<rbrakk> \<Longrightarrow> v = w"
  by (auto simp: cgi_code_def split: if_splits)

lemma cgi_char_inj: "wire_char c \<Longrightarrow> wire_char d \<Longrightarrow> cgi_char c = cgi_char d \<Longrightarrow> c = d"
proof -
  assume w: "wire_char c" "wire_char d" and e: "cgi_char c = cgi_char d"
  have "cgi_code (of_char c) = cgi_code (of_char d)" unfolding of_char_cgi[symmetric] e ..
  then have "(of_char c :: nat) = of_char d"
    using w cgi_code_inj[of "of_char c" "of_char d"] unfolding wire_char_def Let_def by blast
  then show "c = d" by simp
qed

lemma map_cgi_inj: "wire_name a \<Longrightarrow> wire_name b \<Longrightarrow> map cgi_char a = map cgi_char b \<Longrightarrow> a = b"
proof (induction a arbitrary: b)
  case (Cons x xs)
  then show ?case by (cases b) (auto simp: wire_name_def dest: cgi_char_inj)
qed (simp add: wire_name_def)

lemma header_key_inj: "wire_name a \<Longrightarrow> wire_name b \<Longrightarrow> header_key a = header_key b \<Longrightarrow> a = b"
  by (auto simp: header_key_simps cgi_name_def dest: map_cgi_inj split: if_splits)

lemma header_key_not_server: "header_key n \<notin> {''SERVER_NAME'', ''SERVER_PORT''}"
  by (simp add: header_key_simps cgi_name_def)

lemma fold_header_keys:
  "\<lbrakk>\<forall>k \<in> set ns. wire_name k; n \<in> set ns\<rbrakk>
    \<Longrightarrow> fold (\<lambda>n ev. ev(header_key n \<mapsto> f n)) ns ev (header_key n) = Some (f n)"
proof (induction ns arbitrary: ev rule: rev_induct)
  case (snoc k ns)
  then show ?case using header_key_inj[of k n] by (cases "n = k") auto
qed simp

lemma host_key_name: "wire_name n \<Longrightarrow> header_key n = ''HTTP_HOST'' \<Longrightarrow> n = ''host''"
proof -
  assume n: "wire_name n" "header_key n = ''HTTP_HOST''"
  have "header_key ''host'' = ''HTTP_HOST''" "wire_name ''host''" by code_simp+
  with header_key_inj[of n "''host''"] n show ?thesis by simp
qed

section \<open>Properties\<close>




definition example_headers_ctx :: "(header_list, bytes list_chan) request_ctx" where
  "example_headers_ctx = (example_ctx None)\<lparr>cx_headers := [(''host'', ''a.org:81''), (''cookie'', ''a=1''), (''cookie'', ''b=2'')]\<rparr>"


text \<open>
  A header whose name has underscores for dashes gets the same key, so one of the two
  replaces the other in the environment: a client can shadow a header its proxy sets.
\<close>

theorem underscore_header_collides:
  "header_key ''x-forwarded-for'' = header_key ''x_forwarded_for''"
  by code_simp

end
