(* ===== verification/Kino_Queue.thy ===== *)
theory Kino_Queue
  imports Kino_Dispatch Kino_Env "HOL-Library.Multiset"
begin

text \<open>
  The worker side of the queues (\<open>ext/kino/src/queue.rs\<close>): taking a request from the shared
  queue or from a lane, stealing from siblings, parking, retirement, and admitting a taken
  request as a Rack environment.

  A worker is given by the index of its slot. As in the other blocking calls, what the rest
  of the system does before the \<open>k\<close>-th check and during the \<open>k\<close>-th wait is an argument, and
  so is the number of waits. \<open>panics k\<close> is the message of a panic in the \<open>k\<close>-th wait, if
  there is one.
\<close>

section \<open>Receiving\<close>

definition on_slot :: "nat \<Rightarrow> ('c worker_slot \<Rightarrow> 'c worker_slot) \<Rightarrow> 'c server_inner \<Rightarrow> 'c server_inner" where
  "on_slot w f sv = sv\<lparr>sv_slots := (sv_slots sv)[w := f (sv_slots sv ! w)]\<rparr>"

definition req_recv :: "('x, 'c) flume \<Rightarrow> 'c server_inner \<Rightarrow> 'c server_inner \<times> 'x recv_result" where
  "req_recv F sv = (case ch_try_recv F (sv_req sv) of (c, r) \<Rightarrow> (sv\<lparr>sv_req := c\<rparr>, r))"

text \<open>A receive from the lane of a slot that has one.\<close>

definition lane_recv :: "('x, 'c) flume \<Rightarrow> nat \<Rightarrow> 'c server_inner \<Rightarrow> 'c server_inner \<times> 'x recv_result" where
  "lane_recv F w sv =
     (case sl_lane (sv_slots sv ! w) of
        None \<Rightarrow> (sv, RecvDisconnected)
      | Some rx \<Rightarrow> (case ch_try_recv F rx of (c, r) \<Rightarrow> (on_slot w (\<lambda>s. s\<lparr>sl_lane := Some c\<rparr>) sv, r)))"

text \<open>\<open>Taken\<close>: \<open>None\<close> tells the worker to go.\<close>

type_synonym 'x taken = "'x option"

definition after_timeout :: "('x, 'c) flume \<Rightarrow> nat \<Rightarrow> 'c server_inner \<Rightarrow> 'c server_inner \<times> 'x taken option" where
  "after_timeout F w sv =
     (if \<not> sl_retired (sv_slots sv ! w) then (sv, None)
      else case lane_recv F w sv of
             (sv', Received x) \<Rightarrow> (sv', Some (Some x))
           | (sv', _) \<Rightarrow> (sv', Some None))"

text \<open>\<open>steal\<close>: the first request in a sibling's lane.\<close>

fun steal_from :: "('x, 'c) flume \<Rightarrow> nat \<Rightarrow> nat list \<Rightarrow> 'c server_inner \<Rightarrow> 'c server_inner \<times> 'x option" where
  "steal_from F w [] sv = (sv, None)"
| "steal_from F w (i # ixs) sv =
     (if i = w \<or> sl_lane (sv_slots sv ! i) = None then steal_from F w ixs sv
      else case lane_recv F i sv of
             (sv', Received x) \<Rightarrow> (sv', Some x)
           | (sv', _) \<Rightarrow> steal_from F w ixs sv')"

definition steal :: "('x, 'c) flume \<Rightarrow> nat \<Rightarrow> 'c server_inner \<Rightarrow> 'c server_inner \<times> 'x option" where
  "steal F w sv = steal_from F w [0..<length (sv_slots sv)] sv"

section \<open>Taking one request\<close>

abbreviation slot_interrupted :: "nat \<Rightarrow> 'c server_inner \<Rightarrow> bool" where
  "slot_interrupted w sv \<equiv> sl_interrupted (sv_slots sv ! w)"

definition queue_attempt ::
  "('x, 'c) flume \<Rightarrow> (nat \<Rightarrow> string option) \<Rightarrow> (nat \<Rightarrow> 'c server_inner \<Rightarrow> 'c server_inner) \<Rightarrow> nat \<Rightarrow> nat
     \<Rightarrow> 'c server_inner \<Rightarrow> 'c server_inner \<times> 'x taken attempt" where
  "queue_attempt F panics wait w k sv =
     (case panics k of Some msg \<Rightarrow> (sv, Panicked msg) | None \<Rightarrow>
      (case recv_timeout (req_recv F) (wait k) sv of
         (sv', Received x) \<Rightarrow> (sv', Done (Some x))
       | (sv', RecvDisconnected) \<Rightarrow> (sv', Done None)
       | (sv', RecvEmpty) \<Rightarrow>
           (case after_timeout F w sv' of
              (sv'', Some t) \<Rightarrow> (sv'', Done t)
            | (sv'', None) \<Rightarrow> (sv'', Tick))))"

definition lane_attempt ::
  "('x, 'c) flume \<Rightarrow> (nat \<Rightarrow> string option) \<Rightarrow> (nat \<Rightarrow> 'c server_inner \<Rightarrow> 'c server_inner) \<Rightarrow> nat \<Rightarrow> nat
     \<Rightarrow> 'c server_inner \<Rightarrow> 'c server_inner \<times> 'x taken attempt" where
  "lane_attempt F panics wait w k sv =
     (case panics k of Some msg \<Rightarrow> (sv, Panicked msg) | None \<Rightarrow>
      (case recv_timeout (lane_recv F w) (wait k) sv of
         (sv', Received x) \<Rightarrow> (sv', Done (Some x))
       | (sv', RecvDisconnected) \<Rightarrow> (sv', Done None)
       | (sv', RecvEmpty) \<Rightarrow>
           (case after_timeout F w sv' of
              (sv'', Some t) \<Rightarrow> (sv'', Done t)
            | (sv'', None) \<Rightarrow>
                (case steal F w sv'' of
                   (sv''', Some x) \<Rightarrow> (sv''', Done (Some x))
                 | (sv''', None) \<Rightarrow> (sv''', Tick)))))"

definition flatten_taken :: "kino_error + 'x taken option \<Rightarrow> kino_error + 'x taken" where
  "flatten_taken r = (case r of Inl e \<Rightarrow> Inl e | Inr None \<Rightarrow> Inr None | Inr (Some t) \<Rightarrow> Inr t)"

text \<open>Parking draws a stamp, then raises the flag.\<close>

definition park :: "nat \<Rightarrow> 'c server_inner \<Rightarrow> 'c server_inner" where
  "park w sv =
     (let seq = sv_park_seq sv + 1
      in on_slot w (\<lambda>s. s\<lparr>sl_parked_at := seq, sl_parked := True\<rparr>) (sv\<lparr>sv_park_seq := seq\<rparr>))"

definition unpark :: "nat \<Rightarrow> 'c server_inner \<Rightarrow> 'c server_inner" where
  "unpark w sv = on_slot w (\<lambda>s. s\<lparr>sl_parked := False\<rparr>) sv"

definition lane_take ::
  "nat \<Rightarrow> (nat \<Rightarrow> 'c server_inner \<Rightarrow> 'c server_inner) \<Rightarrow> (nat \<Rightarrow> 'c server_inner \<Rightarrow> 'c server_inner)
     \<Rightarrow> (nat \<Rightarrow> string option) \<Rightarrow> ('x, 'c) flume \<Rightarrow> nat \<Rightarrow> 'c server_inner
     \<Rightarrow> ('c server_inner \<times> (kino_error + 'x taken)) option" where
  "lane_take ticks env wait panics F w sv =
     (case lane_recv F w sv of
        (sv, Received x) \<Rightarrow> Some (sv, Inr (Some x))
      | (sv, RecvDisconnected) \<Rightarrow> Some (sv, Inr None)
      | (sv, RecvEmpty) \<Rightarrow>
          (case steal F w sv of
             (sv, Some x) \<Rightarrow> Some (sv, Inr (Some x))
           | (sv, None) \<Rightarrow>
               map_option (\<lambda>(sv, r). (unpark w sv, flatten_taken r))
                 (interruptible ticks env (slot_interrupted w) (lane_attempt F panics wait w) 0 (park w sv))))"

definition block_take ::
  "nat \<Rightarrow> (nat \<Rightarrow> 'c server_inner \<Rightarrow> 'c server_inner) \<Rightarrow> (nat \<Rightarrow> 'c server_inner \<Rightarrow> 'c server_inner)
     \<Rightarrow> (nat \<Rightarrow> string option) \<Rightarrow> ('x, 'c) flume \<Rightarrow> nat \<Rightarrow> 'c server_inner
     \<Rightarrow> ('c server_inner \<times> (kino_error + 'x taken)) option" where
  "block_take ticks env wait panics F w sv =
     (if sl_lane (sv_slots sv ! w) \<noteq> None then lane_take ticks env wait panics F w sv
      else case req_recv F sv of
             (sv, Received x) \<Rightarrow> Some (sv, Inr (Some x))
           | (sv, RecvDisconnected) \<Rightarrow> Some (sv, Inr None)
           | (sv, RecvEmpty) \<Rightarrow>
               map_option (\<lambda>(sv, r). (sv, flatten_taken r))
                 (interruptible ticks env (slot_interrupted w) (queue_attempt F panics wait w) 0 sv))"

section \<open>Admission\<close>

text \<open>
  \<open>admit\<close>: \<open>now\<close> is \<open>Instant::now\<close>, \<open>ms\<close> is \<open>mono_ms\<close>. The result is the environment,
  with the handle under \<open>kino.request\<close>, and the context the handle wraps.
\<close>

type_synonym ('h, 'b) admitted = "env \<times> ('h, 'b) request_ctx"

definition stamp_ctx :: "instant \<Rightarrow> nat \<Rightarrow> ('h, 'b) request_ctx \<Rightarrow> ('h, 'b) request_ctx" where
  "stamp_ctx now w ctx = ctx\<lparr>cx_wait := now - cx_enqueued_at ctx, cx_admitted_at := now, cx_slot := Some w\<rparr>"

definition micros :: "duration \<Rightarrow> u64" where
  "micros d = of_nat (d div 1000)"

definition admit ::
  "('lh, 'la, 'lv) env_libs \<Rightarrow> (('lh, 'la, 'lv) env_cache \<Rightarrow> ('lh, 'la, 'lv) env_cache) \<Rightarrow> 'h header_ops
     \<Rightarrow> (bytes, 'b) flume \<Rightarrow> env_defaults \<Rightarrow> instant \<Rightarrow> u64 \<Rightarrow> nat \<Rightarrow> ('h, 'b) request_ctx
     \<Rightarrow> 'c server_inner \<times> ('lh, 'la, 'lv) env_cache
     \<Rightarrow> ('c server_inner \<times> ('lh, 'la, 'lv) env_cache) \<times> ('h, 'b) admitted" where
  "admit E race H B D now ms w ctx st =
     (let sv = (fst st)\<lparr>sv_served := sv_served (fst st) + 1\<rparr>;
          sv = on_slot w (\<lambda>s. s\<lparr>sl_served := sl_served s + 1, sl_last_started_ms := ms,
                 sl_in_flight := sl_in_flight s + 1\<rparr>) sv;
          wait = now - cx_enqueued_at ctx;
          sv = sv\<lparr>sv_queue_histogram := histogram_record (micros wait) (sv_queue_histogram sv)\<rparr>;
          sv = on_slot w (\<lambda>s. s\<lparr>sl_current := sl_current s @ [cx_responder ctx]\<rparr>) sv;
          ctx = stamp_ctx now w ctx
      in case build_env E race H B D ctx (snd st) of
           (es, ev) \<Rightarrow> ((sv, es), (ev(''kino.request'' \<mapsto> ERequest), ctx)))"

section \<open>Worker handles\<close>

text \<open>The server a worker holds weakly is \<open>None\<close> once it is torn down.\<close>

definition worker :: "u64 \<Rightarrow> nat \<Rightarrow> 'c server_inner registry \<Rightarrow> kino_error + (u64 \<times> nat) option" where
  "worker server_id worker_id g =
     (case try_get server_id g of
        None \<Rightarrow> Inr None
      | Some sv \<Rightarrow> (case slot_ref sv worker_id of Inl e \<Rightarrow> Inl e | Inr _ \<Rightarrow> Inr (Some (server_id, worker_id))))"

definition clear_slot :: "'c worker_slot \<Rightarrow> 'c worker_slot" where
  "clear_slot s = s\<lparr>sl_current := [], sl_in_flight := 0, sl_interrupted := False\<rparr>"

definition checkout ::
  "nat \<Rightarrow> (nat \<Rightarrow> 'c server_inner \<Rightarrow> 'c server_inner) \<Rightarrow> (nat \<Rightarrow> 'c server_inner \<Rightarrow> 'c server_inner)
     \<Rightarrow> (nat \<Rightarrow> string option) \<Rightarrow> ('x, 'c) flume \<Rightarrow> nat \<Rightarrow> 'c server_inner option
     \<Rightarrow> ('c server_inner option \<times> (kino_error + 'x option)) option" where
  "checkout ticks env wait panics F w server =
     (case server of
        None \<Rightarrow> Some (None, Inr None)
      | Some sv \<Rightarrow>
          map_option (\<lambda>(sv, r). (Some sv, r))
            (block_take ticks env wait panics F w (on_slot w clear_slot sv)))"

text \<open>
  What a take needs besides the channels: the string caches and their races, the header
  map, the body channels, the defaults, the clocks at each admission.
\<close>

record ('lh, 'la, 'lv, 'h, 'b) admit_env =
  ae_libs :: "('lh, 'la, 'lv) env_libs"
  ae_race :: "('lh, 'la, 'lv) env_cache \<Rightarrow> ('lh, 'la, 'lv) env_cache"
  ae_headers :: "'h header_ops"
  ae_body :: "(bytes, 'b) flume"
  ae_defaults :: env_defaults
  ae_now :: "nat \<Rightarrow> instant"
  ae_ms :: "nat \<Rightarrow> u64"

definition admit_nth ::
  "('lh, 'la, 'lv, 'h, 'b) admit_env \<Rightarrow> nat \<Rightarrow> nat \<Rightarrow> ('h, 'b) request_ctx
     \<Rightarrow> 'c server_inner \<times> ('lh, 'la, 'lv) env_cache
     \<Rightarrow> ('c server_inner \<times> ('lh, 'la, 'lv) env_cache) \<times> ('h, 'b) admitted" where
  "admit_nth A i w ctx st =
     admit (ae_libs A) (ae_race A) (ae_headers A) (ae_body A) (ae_defaults A) (ae_now A i) (ae_ms A i) w ctx st"

definition take_one ::
  "nat \<Rightarrow> (nat \<Rightarrow> 'c server_inner \<Rightarrow> 'c server_inner) \<Rightarrow> (nat \<Rightarrow> 'c server_inner \<Rightarrow> 'c server_inner)
     \<Rightarrow> (nat \<Rightarrow> string option) \<Rightarrow> (('h, 'b) request_ctx, 'c) flume \<Rightarrow> ('lh, 'la, 'lv, 'h, 'b) admit_env \<Rightarrow> nat
     \<Rightarrow> 'c server_inner option \<Rightarrow> ('lh, 'la, 'lv) env_cache
     \<Rightarrow> (('c server_inner option \<times> ('lh, 'la, 'lv) env_cache) \<times> (kino_error + ('h, 'b) admitted option)) option" where
  "take_one ticks env wait panics F A w server es =
     (case checkout ticks env wait panics F w server of
        None \<Rightarrow> None
      | Some (Some sv, Inr (Some ctx)) \<Rightarrow>
          (case admit_nth A 0 w ctx (sv, es) of ((sv, es), a) \<Rightarrow> Some ((Some sv, es), Inr (Some a)))
      | Some (server, Inr _) \<Rightarrow> Some ((server, es), Inr None)
      | Some (server, Inl e) \<Rightarrow> Some ((server, es), Inl e))"

text \<open>The rest of a batch comes from the shared queue, without blocking.\<close>

fun batch_rest ::
  "nat \<Rightarrow> (('h, 'b) request_ctx, 'c) flume \<Rightarrow> ('lh, 'la, 'lv, 'h, 'b) admit_env \<Rightarrow> nat \<Rightarrow> nat
     \<Rightarrow> 'c server_inner \<times> ('lh, 'la, 'lv) env_cache \<Rightarrow> ('h, 'b) admitted list
     \<Rightarrow> ('c server_inner \<times> ('lh, 'la, 'lv) env_cache) \<times> ('h, 'b) admitted list" where
  "batch_rest 0 F A i w st batch = (st, batch)"
| "batch_rest (Suc n) F A i w st batch =
     (case req_recv F (fst st) of
        (sv, Received ctx) \<Rightarrow>
          (case admit_nth A i w ctx (sv, snd st) of
             (st', a) \<Rightarrow> batch_rest n F A (Suc i) w st' (batch @ [a]))
      | (sv, _) \<Rightarrow> ((sv, snd st), batch))"

definition take_batch ::
  "nat \<Rightarrow> (nat \<Rightarrow> 'c server_inner \<Rightarrow> 'c server_inner) \<Rightarrow> (nat \<Rightarrow> 'c server_inner \<Rightarrow> 'c server_inner)
     \<Rightarrow> (nat \<Rightarrow> string option) \<Rightarrow> (('h, 'b) request_ctx, 'c) flume \<Rightarrow> ('lh, 'la, 'lv, 'h, 'b) admit_env \<Rightarrow> nat
     \<Rightarrow> usize \<Rightarrow> 'c server_inner option \<Rightarrow> ('lh, 'la, 'lv) env_cache
     \<Rightarrow> (('c server_inner option \<times> ('lh, 'la, 'lv) env_cache) \<times> (kino_error + ('h, 'b) admitted list option)) option" where
  "take_batch ticks env wait panics F A w mx server es =
     (case checkout ticks env wait panics F w server of
        None \<Rightarrow> None
      | Some (Some sv, Inr (Some ctx)) \<Rightarrow>
          (case admit_nth A 0 w ctx (sv, es) of (st, a) \<Rightarrow>
             (case batch_rest (unat mx - 1) F A 1 w st [a] of
                ((sv, es), batch) \<Rightarrow> Some ((Some sv, es), Inr (Some batch))))
      | Some (server, Inr _) \<Rightarrow> Some ((server, es), Inr None)
      | Some (server, Inl e) \<Rightarrow> Some ((server, es), Inl e))"

text \<open>
  The fused calls: answer, then take. The handle's pin slab is the server's.
\<close>

definition sync_slab :: "('h, 'b, 'o, 'f) req_state \<Rightarrow> 'c server_inner option \<Rightarrow> 'c server_inner option" where
  "sync_slab q server = map_option (\<lambda>sv. sv\<lparr>sv_pin_slab := rq_slab q\<rparr>) server"

definition respond_and_take_one ::
  "nat \<Rightarrow> (nat \<Rightarrow> 'c server_inner \<Rightarrow> 'c server_inner) \<Rightarrow> (nat \<Rightarrow> 'c server_inner \<Rightarrow> 'c server_inner)
     \<Rightarrow> (nat \<Rightarrow> string option) \<Rightarrow> (('h, 'b) request_ctx, 'c) flume \<Rightarrow> ('lh, 'la, 'lv, 'h, 'b) admit_env
     \<Rightarrow> ('h response, 'o) oneshot \<Rightarrow> ruby_strings \<Rightarrow> instant \<Rightarrow> nat \<Rightarrow> u16 \<Rightarrow> (rb_value \<times> rb_value) list \<Rightarrow> u64
     \<Rightarrow> ('h, 'b, 'o, 'f) req_state \<Rightarrow> 'c server_inner option \<Rightarrow> ('lh, 'la, 'lv) env_cache
     \<Rightarrow> ('h, 'b, 'o, 'f) req_state
        \<times> (('c server_inner option \<times> ('lh, 'la, 'lv) env_cache) \<times> (kino_error + ('h, 'b) admitted option)) option" where
  "respond_and_take_one ticks env wait panics F A P R now w st hs body q server es =
     (case respond_simple (ae_headers A) P R now st hs body q of
        (q', Inl e) \<Rightarrow> (q', Some ((sync_slab q' server, es), Inl e))
      | (q', Inr _) \<Rightarrow> (q', take_one ticks env wait panics F A w (sync_slab q' server) es))"

definition respond_and_take ::
  "nat \<Rightarrow> (nat \<Rightarrow> 'c server_inner \<Rightarrow> 'c server_inner) \<Rightarrow> (nat \<Rightarrow> 'c server_inner \<Rightarrow> 'c server_inner)
     \<Rightarrow> (nat \<Rightarrow> string option) \<Rightarrow> (('h, 'b) request_ctx, 'c) flume \<Rightarrow> ('lh, 'la, 'lv, 'h, 'b) admit_env
     \<Rightarrow> ('h response, 'o) oneshot \<Rightarrow> ruby_strings \<Rightarrow> instant \<Rightarrow> nat \<Rightarrow> usize \<Rightarrow> u16 \<Rightarrow> (rb_value \<times> rb_value) list
     \<Rightarrow> u64 \<Rightarrow> ('h, 'b, 'o, 'f) req_state \<Rightarrow> 'c server_inner option \<Rightarrow> ('lh, 'la, 'lv) env_cache
     \<Rightarrow> ('h, 'b, 'o, 'f) req_state
        \<times> (('c server_inner option \<times> ('lh, 'la, 'lv) env_cache) \<times> (kino_error + ('h, 'b) admitted list option)) option" where
  "respond_and_take ticks env wait panics F A P R now w mx st hs body q server es =
     (case respond_simple (ae_headers A) P R now st hs body q of
        (q', Inl e) \<Rightarrow> (q', Some ((sync_slab q' server, es), Inl e))
      | (q', Inr _) \<Rightarrow> (q', take_batch ticks env wait panics F A w mx (sync_slab q' server) es))"

section \<open>What is waiting\<close>

text \<open>The requests in the shared queue and in the lanes.\<close>

definition lane_items :: "('c \<Rightarrow> 'x list) \<Rightarrow> 'c worker_slot \<Rightarrow> 'x list" where
  "lane_items items s = (case sl_lane s of None \<Rightarrow> [] | Some c \<Rightarrow> items c)"

definition waiting :: "('c \<Rightarrow> 'x list) \<Rightarrow> 'c server_inner \<Rightarrow> 'x multiset" where
  "waiting items sv =
     mset (items (sv_req sv)) + sum_list (map (\<lambda>s. mset (lane_items items s)) (sv_slots sv))"

text \<open>The queue a worker blocks on: its lane, or the shared queue when it has none.\<close>

definition own_queue :: "nat \<Rightarrow> 'c server_inner \<Rightarrow> 'c" where
  "own_queue w sv = (case sl_lane (sv_slots sv ! w) of None \<Rightarrow> sv_req sv | Some c \<Rightarrow> c)"

text \<open>Receiving leaves the counters alone.\<close>

definition kept :: "nat \<Rightarrow> 'c server_inner \<Rightarrow> 'c server_inner \<Rightarrow> bool" where
  "kept w sv sv' \<longleftrightarrow> length (sv_slots sv') = length (sv_slots sv) \<and> sv_served sv' = sv_served sv
     \<and> sv_queue_histogram sv' = sv_queue_histogram sv
     \<and> sl_in_flight (sv_slots sv' ! w) = sl_in_flight (sv_slots sv ! w)
     \<and> sl_current (sv_slots sv' ! w) = sl_current (sv_slots sv ! w)
     \<and> sl_served (sv_slots sv' ! w) = sl_served (sv_slots sv ! w)"

lemma kept_refl [simp]: "kept w sv sv"
  by (simp add: kept_def)

lemma kept_trans: "kept w a b \<Longrightarrow> kept w b c \<Longrightarrow> kept w a c"
  by (simp add: kept_def)

lemma on_slot_simps [simp]:
  "length (sv_slots (on_slot w f sv)) = length (sv_slots sv)"
  "sv_req (on_slot w f sv) = sv_req sv" "sv_lanes (on_slot w f sv) = sv_lanes sv"
  "sv_served (on_slot w f sv) = sv_served sv" "sv_queue_histogram (on_slot w f sv) = sv_queue_histogram sv"
  "w < length (sv_slots sv) \<Longrightarrow> sv_slots (on_slot w f sv) ! w = f (sv_slots sv ! w)"
  "i \<noteq> w \<Longrightarrow> sv_slots (on_slot w f sv) ! i = sv_slots sv ! i"
  by (simp_all add: on_slot_def)

lemma sum_list_update_remove:
  fixes g :: "'a \<Rightarrow> 'm multiset"
  shows "w < length xs \<Longrightarrow> g (xs ! w) = add_mset x (g y)
    \<Longrightarrow> sum_list (map g xs) = add_mset x (sum_list (map g (xs[w := y])))"
  by (induction xs arbitrary: w) (auto simp: nth_Cons split: nat.splits)

lemma sum_list_update_same:
  fixes g :: "'a \<Rightarrow> 'm multiset"
  shows "g (xs ! w) = g y \<Longrightarrow> sum_list (map g (xs[w := y])) = sum_list (map g xs)"
  by (induction xs arbitrary: w) (auto simp: nth_Cons split: nat.splits)

lemma waiting_on_slot:
  "(\<And>s. sl_lane (f s) = sl_lane s) \<Longrightarrow> waiting items (on_slot w f sv) = waiting items sv"
  by (simp add: waiting_def on_slot_def lane_items_def sum_list_update_same)

lemma on_slot_id: "f (sv_slots sv ! w) = sv_slots sv ! w \<Longrightarrow> on_slot w f sv = sv"
  by (cases sv) (simp add: on_slot_def)

lemma wf_slots_on_slot:
  assumes "wf_slot cap senders alive (sv_lanes sv) (sv_slots sv ! w)
      \<Longrightarrow> wf_slot cap senders alive (sv_lanes sv) (f (sv_slots sv ! w))"
    and "wf_slots cap senders alive sv"
  shows "wf_slots cap senders alive (on_slot w f sv)"
  unfolding wf_slots_def list_all_length
proof (intro conjI allI impI)
  fix n assume n: "n < length (sv_slots (on_slot w f sv))"
  then have "wf_slot cap senders alive (sv_lanes sv) (sv_slots sv ! n)"
    using assms(2) by (auto simp: wf_slots_def list_all_length)
  with assms(1) n show "wf_slot cap senders alive (sv_lanes (on_slot w f sv)) (sv_slots (on_slot w f sv) ! n)"
    by (cases "n = w") auto
qed (use assms(2) in \<open>simp add: wf_slots_def\<close>)

lemma wf_slots_flags:
  assumes "\<And>s. sl_lane (f s) = sl_lane s" "\<And>s. sl_lane_tx (f s) = sl_lane_tx s"
    and "wf_slots cap senders alive sv"
  shows "wf_slots cap senders alive (on_slot w f sv)"
  using assms(3) by (rule wf_slots_on_slot[rotated]) (simp only: wf_slot_def assms(1,2))

context flume_channel
begin

abbreviation wf :: "'c server_inner \<Rightarrow> bool" where
  "wf sv \<equiv> wf_slots cap senders alive sv"

lemma req_recvD:
  assumes "req_recv F sv = (sv', r)"
  shows "sv_slots sv' = sv_slots sv \<and> sv_lanes sv' = sv_lanes sv
    \<and> sv_served sv' = sv_served sv \<and> sv_queue_histogram sv' = sv_queue_histogram sv
    \<and> (case r of Received x \<Rightarrow> waiting items sv = add_mset x (waiting items sv') \<and> items (sv_req sv) = x # items (sv_req sv')
       | RecvEmpty \<Rightarrow> sv' = sv \<and> items (sv_req sv) = [] \<and> 0 < senders (sv_req sv)
       | RecvDisconnected \<Rightarrow> sv' = sv \<and> items (sv_req sv) = [] \<and> senders (sv_req sv) = 0)"
  using assms by (cases rule: recv_cases[of "sv_req sv"]) (auto simp: req_recv_def waiting_def)

lemma lane_recvD:
  assumes "lane_recv F w sv = (sv', r)" "w < length (sv_slots sv)" "sl_lane (sv_slots sv ! w) = Some c"
  shows "\<exists>c'. sv' = on_slot w (\<lambda>s. s\<lparr>sl_lane := Some c'\<rparr>) sv
    \<and> cap c' = cap c \<and> senders c' = senders c \<and> alive c' = alive c
    \<and> (case r of Received x \<Rightarrow> waiting items sv = add_mset x (waiting items sv') \<and> items c = x # items c'
       | RecvEmpty \<Rightarrow> sv' = sv \<and> c' = c \<and> items c = [] \<and> 0 < senders c
       | RecvDisconnected \<Rightarrow> sv' = sv \<and> c' = c \<and> items c = [] \<and> senders c = 0)"
proof -
  have same: "on_slot w (\<lambda>s. s\<lparr>sl_lane := Some c\<rparr>) sv = sv"
    using assms(3) by (intro on_slot_id) (cases "sv_slots sv ! w", simp)
  show ?thesis
  proof (cases rule: recv_cases[of c])
    case (item x c')
    have "waiting items sv = add_mset x (waiting items (on_slot w (\<lambda>s. s\<lparr>sl_lane := Some c'\<rparr>) sv))"
      using assms(2,3) item by (simp add: waiting_def on_slot_def lane_items_def
          sum_list_update_remove[where y = "(sv_slots sv ! w)\<lparr>sl_lane := Some c'\<rparr>" and x = x])
    with item assms show ?thesis by (auto simp: lane_recv_def)
  qed (use assms same in \<open>auto simp: lane_recv_def\<close>)
qed


lemma slot_lane_cap: "wf sv \<Longrightarrow> w < length (sv_slots sv) \<Longrightarrow> sl_lane (sv_slots sv ! w) = Some c \<Longrightarrow> 0 < cap c"
  by (auto simp: wf_slots_def list_all_length wf_slot_def LANE_DEPTH_def)

text \<open>A request left the queues for the caller, and nothing else changed but lanes.\<close>

definition took :: "'a \<Rightarrow> 'c server_inner \<Rightarrow> 'c server_inner \<Rightarrow> bool" where
  "took x sv sv' \<longleftrightarrow> waiting items sv = add_mset x (waiting items sv') \<and> wf sv'
     \<and> length (sv_slots sv') = length (sv_slots sv) \<and> sv_lanes sv' = sv_lanes sv
     \<and> sv_served sv' = sv_served sv \<and> sv_queue_histogram sv' = sv_queue_histogram sv
     \<and> (\<forall>i. \<exists>l. sv_slots sv' ! i = (sv_slots sv ! i)\<lparr>sl_lane := l\<rparr>)"

lemma slot_lane_self [simp]: "\<exists>l. s = s\<lparr>sl_lane := l\<rparr>"
  by (rule exI[of _ "sl_lane s"]) simp

lemma lane_recv_took:
  assumes "lane_recv F w sv = (sv', Received x)" "w < length (sv_slots sv)"
    "sl_lane (sv_slots sv ! w) = Some c" "wf sv"
  shows "took x sv sv'"
proof -
  obtain c' where c': "sv' = on_slot w (\<lambda>s. s\<lparr>sl_lane := Some c'\<rparr>) sv" "cap c' = cap c"
      "senders c' = senders c" "alive c' = alive c" "waiting items sv = add_mset x (waiting items sv')"
    using lane_recvD[OF assms(1-3)] by auto
  have "wf sv'"
    unfolding c'(1) by (rule wf_slots_on_slot) (use assms c' in \<open>auto simp: wf_slot_def\<close>)
  moreover have "\<exists>l. sv_slots sv' ! i = (sv_slots sv ! i)\<lparr>sl_lane := l\<rparr>" for i
    using c'(1) assms(2) by (cases "i = w") auto
  ultimately show ?thesis using c' by (simp add: took_def)
qed

lemma req_recv_took:
  assumes "req_recv F sv = (sv', Received x)" "wf sv"
  shows "took x sv sv'"
  using req_recvD[OF assms(1)] assms(2) by (auto simp: took_def wf_slots_def)

lemma steal_fromD:
  "steal_from F w ixs sv = (sv', r) \<Longrightarrow> wf sv \<Longrightarrow> set ixs \<subseteq> {..<length (sv_slots sv)}
    \<Longrightarrow> (case r of None \<Rightarrow> sv' = sv | Some x \<Rightarrow> took x sv sv' \<and> sl_lane (sv_slots sv' ! w) = sl_lane (sv_slots sv ! w))"
proof (induction ixs)
  case Nil
  then show ?case by simp
next
  case (Cons i ixs)
  show ?case
  proof (cases "i = w \<or> sl_lane (sv_slots sv ! i) = None")
    case True
    with Cons show ?thesis by simp
  next
    case False
    then obtain c where c: "sl_lane (sv_slots sv ! i) = Some c" "i \<noteq> w" by auto
    obtain sv1 r1 where e: "lane_recv F i sv = (sv1, r1)" by force
    have i: "i < length (sv_slots sv)" using Cons.prems by simp
    note lr = lane_recvD[OF e i c(1)]
    show ?thesis
    proof (cases r1)
      case (Received x)
      with lane_recv_took[of i sv sv1 x c] e i c Cons.prems lr show ?thesis by auto
    qed (use lr False Cons e in auto)
  qed
qed

lemma stealD:
  "steal F w sv = (sv', r) \<Longrightarrow> wf sv
    \<Longrightarrow> (case r of None \<Rightarrow> sv' = sv | Some x \<Rightarrow> took x sv sv' \<and> sl_lane (sv_slots sv' ! w) = sl_lane (sv_slots sv ! w))"
  unfolding steal_def by (rule steal_fromD) auto

text \<open>The outcome of one wait in a system that is otherwise at rest.\<close>

definition attempt_ok :: "nat \<Rightarrow> 'c server_inner \<Rightarrow> 'c server_inner \<Rightarrow> 'a taken attempt \<Rightarrow> bool" where
  "attempt_ok w sv sv' t \<longleftrightarrow>
     (case t of
        Done (Some x) \<Rightarrow> took x sv sv'
          \<and> (items (own_queue w sv) \<noteq> [] \<longrightarrow> items (own_queue w sv) = x # items (own_queue w sv'))
      | Done None \<Rightarrow> sv' = sv \<and> items (own_queue w sv) = []
          \<and> (sl_retired (sv_slots sv ! w) \<or> senders (own_queue w sv) = 0)
      | Tick \<Rightarrow> sv' = sv
      | Panicked m \<Rightarrow> sv' = sv)"

lemma after_timeout_empty:
  assumes "after_timeout F w sv = (sv', t)" "w < length (sv_slots sv)"
    "\<And>c. sl_lane (sv_slots sv ! w) = Some c \<Longrightarrow> items c = []"
  shows "sv' = sv \<and> (t = None \<or> t = Some None \<and> sl_retired (sv_slots sv ! w))"
proof (cases "sl_lane (sv_slots sv ! w)")
  case None
  with assms show ?thesis by (auto simp: after_timeout_def lane_recv_def split: if_splits)
next
  case (Some c)
  obtain sv1 r where e: "lane_recv F w sv = (sv1, r)" by force
  show ?thesis
    using lane_recvD[OF e assms(2) Some] assms Some e
    by (cases r) (auto simp: after_timeout_def split: if_splits)
qed

lemma lane_attempt_ok:
  assumes "lane_attempt F panics quiet w k sv = (sv', t)" "wf sv" "w < length (sv_slots sv)"
    "sl_lane (sv_slots sv ! w) = Some c"
  shows "attempt_ok w sv sv' t"
proof (cases "panics k")
  case None
  obtain sv1 r where e: "lane_recv F w sv = (sv1, r)" by force
  note lr = lane_recvD[OF e assms(3,4)]
  show ?thesis
  proof (cases r)
    case (Received x)
    with lr e None assms(1) lane_recv_took[of w sv sv1 x c] assms show ?thesis
      by (auto simp: lane_attempt_def recv_timeout_def attempt_ok_def own_queue_def)
  next
    case RecvDisconnected
    with lr e None assms show ?thesis
      by (auto simp: lane_attempt_def recv_timeout_def attempt_ok_def own_queue_def)
  next
    case RecvEmpty
    then have sv1: "sv1 = sv" "items c = []" using lr by auto
    obtain sv2 u where a: "after_timeout F w sv = (sv2, u)" by force
    obtain sv3 v where s: "steal F w sv = (sv3, v)" by force
    have u: "sv2 = sv" "u = None \<or> u = Some None \<and> sl_retired (sv_slots sv ! w)"
      using after_timeout_empty[OF a assms(3)] sv1(2) assms(4) by auto
    have l: "lane_attempt F panics quiet w k sv = (case u of Some t \<Rightarrow> (sv, Done t)
        | None \<Rightarrow> (case v of Some x \<Rightarrow> (sv3, Done (Some x)) | None \<Rightarrow> (sv3, Tick)))"
      using RecvEmpty e sv1 None a s u(1) by (simp add: lane_attempt_def recv_timeout_def split: option.splits)
    show ?thesis
      using stealD[OF s assms(2)] l u(2) assms(1,4) sv1(2)
      by (auto simp: attempt_ok_def own_queue_def split: option.splits)
  qed
qed (use assms in \<open>auto simp: lane_attempt_def attempt_ok_def\<close>)

lemma queue_attempt_ok:
  assumes "queue_attempt F panics quiet w k sv = (sv', t)" "wf sv" "w < length (sv_slots sv)"
    "sl_lane (sv_slots sv ! w) = None"
  shows "attempt_ok w sv sv' t"
proof (cases "panics k")
  case None
  obtain sv1 r where e: "req_recv F sv = (sv1, r)" by force
  note lr = req_recvD[OF e]
  obtain sv2 u where a: "after_timeout F w sv = (sv2, u)" by force
  have u: "sv2 = sv" "u = None \<or> u = Some None \<and> sl_retired (sv_slots sv ! w)"
    using after_timeout_empty[OF a assms(3)] assms(4) by auto
  show ?thesis
    using lr e None assms(1) req_recv_took[of sv sv1] assms a u
    by (cases r) (auto simp: queue_attempt_def recv_timeout_def attempt_ok_def own_queue_def)
qed (use assms in \<open>auto simp: queue_attempt_def attempt_ok_def\<close>)

end

text \<open>
  In a system at rest, where a wait that times out changes nothing, a blocking call answers
  from the state it started in.
\<close>

lemma interruptible_rest:
  assumes "\<And>j s'. attempt j s = (s', Tick) \<Longrightarrow> s' = s"
  shows "interruptible n quiet flag attempt k s = Some (s', r) \<Longrightarrow>
    flag s \<and> s' = s \<and> r = Inr None
    \<or> (\<exists>j t. attempt j s = (s', Done t) \<and> r = Inr (Some t))
    \<or> (\<exists>j m. attempt j s = (s', Panicked m) \<and> r = Inl (panic_error m))"
proof (induction n arbitrary: k)
  case (Suc n)
  obtain s1 t where a: "attempt k s = (s1, t)" by force
  show ?case
    using Suc a assms[of k s1] by (cases t) (auto simp: Let_def split: if_splits)
qed simp

lemma park_simps [simp]:
  "length (sv_slots (park w sv)) = length (sv_slots sv)" "sv_req (park w sv) = sv_req sv"
  "sv_lanes (park w sv) = sv_lanes sv"
  "w < length (sv_slots sv) \<Longrightarrow> sl_lane (sv_slots (park w sv) ! w) = sl_lane (sv_slots sv ! w)"
  "w < length (sv_slots sv) \<Longrightarrow> sl_retired (sv_slots (park w sv) ! w) = sl_retired (sv_slots sv ! w)"
  "w < length (sv_slots sv) \<Longrightarrow> slot_interrupted w (park w sv) = slot_interrupted w sv"
  "waiting items (park w sv) = waiting items sv"
  by (simp_all add: park_def Let_def on_slot_def waiting_def lane_items_def sum_list_update_same)

lemma unpark_simps [simp]:
  "length (sv_slots (unpark w sv)) = length (sv_slots sv)" "sv_req (unpark w sv) = sv_req sv"
  "sv_lanes (unpark w sv) = sv_lanes sv"
  "w < length (sv_slots sv) \<Longrightarrow> \<not> sl_parked (sv_slots (unpark w sv) ! w)"
  "w < length (sv_slots sv) \<Longrightarrow> sl_lane (sv_slots (unpark w sv) ! w) = sl_lane (sv_slots sv ! w)"
  "w < length (sv_slots sv) \<Longrightarrow> sl_retired (sv_slots (unpark w sv) ! w) = sl_retired (sv_slots sv ! w)"
  "waiting items (unpark w sv) = waiting items sv"
  by (simp_all add: unpark_def waiting_on_slot)

lemma wf_park [simp]: "wf_slots cap senders alive sv \<Longrightarrow> wf_slots cap senders alive (park w sv)"
  unfolding park_def Let_def by (rule wf_slots_flags) (simp_all add: wf_slots_def)

lemma wf_unpark [simp]: "wf_slots cap senders alive sv \<Longrightarrow> wf_slots cap senders alive (unpark w sv)"
  unfolding unpark_def by (rule wf_slots_flags) simp_all

lemma kept_park [simp]: "w < length (sv_slots sv) \<Longrightarrow> kept w sv (park w sv)"
  by (simp add: kept_def park_def Let_def)

lemma kept_unpark [simp]: "w < length (sv_slots sv) \<Longrightarrow> kept w sv (unpark w sv)"
  by (simp add: kept_def unpark_def)

lemma own_queue_park [simp]: "w < length (sv_slots sv) \<Longrightarrow> own_queue w (park w sv) = own_queue w sv"
  by (simp add: own_queue_def split: option.split)

lemma own_queue_unpark [simp]: "w < length (sv_slots sv) \<Longrightarrow> own_queue w (unpark w sv) = own_queue w sv"
  by (simp add: own_queue_def split: option.split)

text \<open>What a finished take means for the queues.\<close>

definition take_outcome ::
  "('c \<Rightarrow> 'x list) \<Rightarrow> ('c \<Rightarrow> nat) \<Rightarrow> nat \<Rightarrow> 'c server_inner \<Rightarrow> 'c server_inner \<Rightarrow> kino_error + 'x taken \<Rightarrow> bool" where
  "take_outcome items senders w sv sv' r \<longleftrightarrow>
     (case r of
        Inr (Some x) \<Rightarrow> waiting items sv = add_mset x (waiting items sv')
          \<and> (items (own_queue w sv) \<noteq> [] \<longrightarrow> items (own_queue w sv) = x # items (own_queue w sv'))
      | Inr None \<Rightarrow> waiting items sv' = waiting items sv \<and> items (own_queue w sv) = []
          \<and> (slot_interrupted w sv \<or> sl_retired (sv_slots sv ! w) \<or> senders (own_queue w sv) = 0)
      | Inl e \<Rightarrow> waiting items sv' = waiting items sv \<and> (\<exists>m. e = panic_error m))"

context flume_channel
begin

lemma took_flags:
  assumes "took x sv sv'"
  shows "sl_parked (sv_slots sv' ! w) = sl_parked (sv_slots sv ! w) \<and> kept w sv sv'"
proof -
  obtain l where "sv_slots sv' ! w = (sv_slots sv ! w)\<lparr>sl_lane := l\<rparr>" using assms by (auto simp: took_def)
  with assms show ?thesis by (simp add: took_def kept_def)
qed

lemma wait_outcome:
  assumes "interruptible n quiet (slot_interrupted w) attempt k sv = Some (sv', r)"
    and "\<And>j sv1 t. attempt j sv = (sv1, t) \<Longrightarrow> attempt_ok w sv sv1 t"
    and "wf sv" "w < length (sv_slots sv)" "items (own_queue w sv) = []"
  shows "take_outcome items senders w sv sv' (flatten_taken r) \<and> wf sv' \<and> kept w sv sv'
    \<and> sl_parked (sv_slots sv' ! w) = sl_parked (sv_slots sv ! w)"
proof -
  have tick: "s' = sv" if "attempt j sv = (s', Tick)" for j s'
    using assms(2)[OF that] by (simp add: attempt_ok_def)
  have "slot_interrupted w sv \<and> sv' = sv \<and> r = Inr None
    \<or> (\<exists>j t. attempt j sv = (sv', Done t) \<and> r = Inr (Some t))
    \<or> (\<exists>j m. attempt j sv = (sv', Panicked m) \<and> r = Inl (panic_error m))"
    by (rule interruptible_rest[OF _ assms(1)]) (rule tick)
  then consider
      (int) "slot_interrupted w sv" "sv' = sv" "r = Inr None"
    | (got) j t where "attempt j sv = (sv', Done t)" "r = Inr (Some t)"
    | (pan) j m where "attempt j sv = (sv', Panicked m)" "r = Inl (panic_error m)"
    by blast
  then show ?thesis
  proof cases
    case int
    with assms show ?thesis by (simp add: take_outcome_def flatten_taken_def)
  next
    case (got j t)
    with assms(2)[OF got(1)] assms(3,5) took_flags[of _ sv sv' w] show ?thesis
      by (cases t) (auto simp: take_outcome_def flatten_taken_def attempt_ok_def took_def)
  next
    case (pan j m)
    with assms(2)[OF pan(1)] assms(3) show ?thesis
      by (auto simp: take_outcome_def flatten_taken_def attempt_ok_def)
  qed
qed

lemma lane_take_outcome:
  assumes "lane_take n quiet quiet panics F w sv = Some (sv', r)"
    and "wf sv" "w < length (sv_slots sv)" "sl_lane (sv_slots sv ! w) = Some c" "\<not> sl_parked (sv_slots sv ! w)"
  shows "take_outcome items senders w sv sv' r \<and> wf sv' \<and> kept w sv sv'
    \<and> \<not> sl_parked (sv_slots sv' ! w)"
proof -
  obtain sv1 q where e: "lane_recv F w sv = (sv1, q)" by force
  note lr = lane_recvD[OF e assms(3,4)]
  show ?thesis
  proof (cases q)
    case (Received x)
    then have "took x sv sv1" "items (own_queue w sv) = x # items (own_queue w sv1)"
      using lane_recv_took[OF _ assms(3,4,2)] e lr assms(3,4) by (auto simp: own_queue_def)
    with assms e Received show ?thesis
      using took_flags[of x sv sv1 w] by (auto simp: lane_take_def took_def take_outcome_def)
  next
    case RecvDisconnected
    with lr e assms show ?thesis by (auto simp: lane_take_def take_outcome_def own_queue_def)
  next
    case RecvEmpty
    then have sv1: "sv1 = sv" and own: "items (own_queue w sv) = []"
      using lr assms(4) by (auto simp: own_queue_def)
    obtain sv2 v where s: "steal F w sv = (sv2, v)" by force
    note st = stealD[OF s assms(2)]
    show ?thesis
    proof (cases v)
      case (Some x)
      with st have "took x sv sv2" by simp
      with assms e RecvEmpty sv1 s Some own show ?thesis
        using took_flags[of x sv sv2 w] by (auto simp: lane_take_def took_def take_outcome_def)
    next
      case None
      then have sv2: "sv2 = sv" using st by simp
      obtain sv3 q3 where i: "interruptible n quiet (slot_interrupted w) (lane_attempt F panics quiet w) 0 (park w sv) = Some (sv3, q3)"
          and r: "sv' = unpark w sv3" "r = flatten_taken q3"
        using assms(1) e RecvEmpty sv1 s None sv2 by (auto simp: lane_take_def)
      have o: "take_outcome items senders w (park w sv) sv3 (flatten_taken q3) \<and> wf sv3
          \<and> kept w (park w sv) sv3"
        using wait_outcome[OF i lane_attempt_ok] assms own by auto
      then have l: "w < length (sv_slots sv3)" using assms(3) by (simp add: kept_def)
      have "kept w sv (unpark w sv3)"
        using o l assms(3) kept_trans[OF kept_park[of w sv] kept_trans[OF _ kept_unpark[OF l]]] by simp
      with o l r assms(3) show ?thesis by (auto simp: take_outcome_def split: sum.splits option.splits)
    qed
  qed
qed

lemma block_take_outcome:
  assumes "block_take n quiet quiet panics F w sv = Some (sv', r)"
    and "wf sv" "w < length (sv_slots sv)" "\<not> sl_parked (sv_slots sv ! w)"
  shows "take_outcome items senders w sv sv' r \<and> wf sv' \<and> kept w sv sv'
    \<and> \<not> sl_parked (sv_slots sv' ! w)"
proof (cases "sl_lane (sv_slots sv ! w)")
  case (Some c)
  with assms show ?thesis using lane_take_outcome[of n panics w sv sv' r c] by (simp add: block_take_def)
next
  case None
  obtain sv1 q where e: "req_recv F sv = (sv1, q)" by force
  note rr = req_recvD[OF e]
  show ?thesis
  proof (cases q)
    case (Received x)
    with assms e None rr show ?thesis
      by (auto simp: block_take_def take_outcome_def own_queue_def wf_slots_def kept_def)
  next
    case RecvDisconnected
    with assms e None rr show ?thesis by (auto simp: block_take_def take_outcome_def own_queue_def)
  next
    case RecvEmpty
    then have sv1: "sv1 = sv" and own: "items (own_queue w sv) = []"
      using rr None by (auto simp: own_queue_def)
    obtain q3 where i: "interruptible n quiet (slot_interrupted w) (queue_attempt F panics quiet w) 0 sv = Some (sv', q3)"
        and r: "r = flatten_taken q3"
      using assms(1) e RecvEmpty sv1 None by (auto simp: block_take_def)
    have "take_outcome items senders w sv sv' (flatten_taken q3) \<and> wf sv' \<and> kept w sv sv'
        \<and> sl_parked (sv_slots sv' ! w) = sl_parked (sv_slots sv ! w)"
      by (rule wait_outcome[OF i _ assms(2,3) own]) (rule queue_attempt_ok[OF _ assms(2,3) None])
    with assms(4) r show ?thesis by auto
  qed
qed

end

section \<open>Taking while everything else goes on\<close>

text \<open>
  A move of the rest of the system during a take: before one of its checks, or during one of
  its waits.
\<close>

definition moves :: "(nat \<Rightarrow> 's \<Rightarrow> 's) \<Rightarrow> (nat \<Rightarrow> 's \<Rightarrow> 's) \<Rightarrow> 's \<Rightarrow> 's \<Rightarrow> bool" where
  "moves env wait s t \<longleftrightarrow> (\<exists>k. t = env k s \<or> t = wait k s)"

text \<open>
  What a take does in the state it finds: hand over one waiting request, the oldest of the
  worker's own queue when it has any; tell the worker to go, because it was interrupted, or
  because its own queue is empty and it is retired or cut off; or report a panic.
\<close>

definition hands_over ::
  "('c \<Rightarrow> 'x list) \<Rightarrow> ('c \<Rightarrow> nat) \<Rightarrow> nat \<Rightarrow> 'c server_inner \<Rightarrow> 'c server_inner \<Rightarrow> kino_error + 'x taken \<Rightarrow> bool" where
  "hands_over items senders w sv sv' r \<longleftrightarrow>
     (case r of
        Inr (Some x) \<Rightarrow> waiting items sv = add_mset x (waiting items sv')
          \<and> (items (own_queue w sv) \<noteq> [] \<longrightarrow> items (own_queue w sv) = x # items (own_queue w sv'))
      | Inr None \<Rightarrow> waiting items sv' = waiting items sv
          \<and> (slot_interrupted w sv
             \<or> items (own_queue w sv) = [] \<and> (sl_retired (sv_slots sv ! w) \<or> senders (own_queue w sv) = 0))
      | Inl e \<Rightarrow> waiting items sv' = waiting items sv \<and> (\<exists>m. e = panic_error m))"

text \<open>
  What a worker does after a wait without a request: it stays unless it is retired, and then
  takes what is left in its lane before it goes.
\<close>

definition retires_clean ::
  "('c \<Rightarrow> 'x list) \<Rightarrow> nat \<Rightarrow> 'c server_inner \<Rightarrow> 'c server_inner \<Rightarrow> 'x taken option \<Rightarrow> bool" where
  "retires_clean items w sv sv' t =
     (case t of
        None \<Rightarrow> sv' = sv \<and> \<not> sl_retired (sv_slots sv ! w)
      | Some (Some x) \<Rightarrow> sl_retired (sv_slots sv ! w) \<and> waiting items sv = add_mset x (waiting items sv')
          \<and> (\<exists>c. sl_lane (sv_slots sv ! w) = Some c \<and> items c \<noteq> [] \<and> hd (items c) = x)
      | Some None \<Rightarrow> sl_retired (sv_slots sv ! w) \<and> sv' = sv
          \<and> (\<forall>c. sl_lane (sv_slots sv ! w) = Some c \<longrightarrow> items c = []))"

text \<open>The states in which a worker's take is at home: its slot is there and keeps its kind of queue.\<close>

definition at_home ::
  "('c \<Rightarrow> nat) \<Rightarrow> ('c \<Rightarrow> nat) \<Rightarrow> ('c \<Rightarrow> bool) \<Rightarrow> nat \<Rightarrow> bool \<Rightarrow> 'c server_inner \<Rightarrow> bool" where
  "at_home cap senders alive w lane sv \<longleftrightarrow>
     wf_slots cap senders alive sv \<and> w < length (sv_slots sv) \<and> (sl_lane (sv_slots sv ! w) \<noteq> None) = lane"

context flume_channel
begin

abbreviation home :: "nat \<Rightarrow> bool \<Rightarrow> 'c server_inner \<Rightarrow> bool" where
  "home \<equiv> at_home cap senders alive"

lemma lane_recv_empty: "lane_recv F w s = (s', RecvEmpty) \<Longrightarrow> w < length (sv_slots s) \<Longrightarrow> s' = s"
  using lane_recvD[of w s s' RecvEmpty] by (cases "sl_lane (sv_slots s ! w)") (auto simp: lane_recv_def)

lemma lane_attempt_shift:
  assumes "w < length (sv_slots sv)" "w < length (sv_slots (wait k sv))"
  shows "\<exists>sv0 \<in> {sv, wait k sv}. lane_attempt F panics wait w k sv = lane_attempt F panics quiet w k sv0"
proof (cases "panics k")
  case None
  obtain sv1 r where e: "lane_recv F w sv = (sv1, r)" by force
  obtain sv2 r2 where e2: "lane_recv F w (wait k sv) = (sv2, r2)" by force
  have "recv_timeout (lane_recv F w) (wait k) sv = recv_timeout (lane_recv F w) (\<lambda>s. s) (if r = RecvEmpty then wait k sv else sv)"
    using e e2 lane_recv_empty[of w sv sv1] lane_recv_empty[of w "wait k sv" sv2] assms
    by (auto simp: recv_timeout_def split: recv_result.splits)
  with None show ?thesis by (cases "r = RecvEmpty") (auto simp: lane_attempt_def)
qed (auto simp: lane_attempt_def)

lemma queue_attempt_shift:
  "\<exists>sv0 \<in> {sv, wait k sv}. queue_attempt F panics wait w k sv = queue_attempt F panics quiet w k sv0"
proof (cases "panics k")
  case None
  obtain sv1 r where e: "req_recv F sv = (sv1, r)" by force
  obtain sv2 r2 where e2: "req_recv F (wait k sv) = (sv2, r2)" by force
  have "recv_timeout (req_recv F) (wait k) sv = recv_timeout (req_recv F) (\<lambda>s. s) (if r = RecvEmpty then wait k sv else sv)"
    using e e2 req_recvD[OF e] req_recvD[OF e2] by (auto simp: recv_timeout_def split: recv_result.splits)
  with None show ?thesis by (cases "r = RecvEmpty") (auto simp: queue_attempt_def)
qed (auto simp: queue_attempt_def)

text \<open>One wait, from a state at home: what it did, it did in that state or in the one the rest left.\<close>

lemma lane_attempt_moves:
  assumes "lane_attempt F panics wait w k sv = (sv', t)" "home w True sv" "home w True (wait k sv)"
  shows "\<exists>sv0. (moves env wait)\<^sup>*\<^sup>* sv sv0 \<and> home w True sv0 \<and> attempt_ok w sv0 sv' t"
proof -
  obtain sv0 where sv0: "sv0 \<in> {sv, wait k sv}" "lane_attempt F panics wait w k sv = lane_attempt F panics quiet w k sv0"
    using lane_attempt_shift[of w sv wait k panics] assms(2,3) by (auto simp: at_home_def)
  have "moves env wait sv (wait k sv)" by (auto simp: moves_def)
  with sv0 have m: "(moves env wait)\<^sup>*\<^sup>* sv sv0" by auto
  have h: "home w True sv0" using sv0(1) assms(2,3) by auto
  then have "attempt_ok w sv0 sv' t"
    using lane_attempt_ok[of panics w k sv0 sv' t] assms(1) sv0(2) by (auto simp: at_home_def)
  with m h show ?thesis by blast
qed

lemma queue_attempt_moves:
  assumes "queue_attempt F panics wait w k sv = (sv', t)" "home w False sv" "home w False (wait k sv)"
  shows "\<exists>sv0. (moves env wait)\<^sup>*\<^sup>* sv sv0 \<and> home w False sv0 \<and> attempt_ok w sv0 sv' t"
proof -
  obtain sv0 where sv0: "sv0 \<in> {sv, wait k sv}" "queue_attempt F panics wait w k sv = queue_attempt F panics quiet w k sv0"
    using queue_attempt_shift[of sv wait k panics w] by auto
  have "moves env wait sv (wait k sv)" by (auto simp: moves_def)
  with sv0 have m: "(moves env wait)\<^sup>*\<^sup>* sv sv0" by auto
  have h: "home w False sv0" using sv0(1) assms(2,3) by auto
  then have "attempt_ok w sv0 sv' t"
    using queue_attempt_ok[of panics w k sv0 sv' t] assms(1) sv0(2) by (auto simp: at_home_def)
  with m h show ?thesis by blast
qed

lemma attempt_ok_hands_over:
  "attempt_ok w sv0 sv' (Done t) \<Longrightarrow> hands_over items senders w sv0 sv' (Inr t)"
  "attempt_ok w sv0 sv' (Panicked m) \<Longrightarrow> hands_over items senders w sv0 sv' (Inl (panic_error m))"
  by (auto simp: attempt_ok_def hands_over_def took_def split: option.splits)

lemma attempt_ok_home:
  "attempt_ok w sv0 sv' t \<Longrightarrow> home w lane sv0 \<Longrightarrow> wf_slots cap senders alive sv' \<and> w < length (sv_slots sv')"
  by (auto simp: attempt_ok_def at_home_def took_def split: attempt.splits option.splits)

lemma wait_moves:
  assumes "\<And>k s. home w lane s \<Longrightarrow> home w lane (env k s)" "\<And>k s. home w lane s \<Longrightarrow> home w lane (wait k s)"
    and "\<And>k s s' t. attempt k s = (s', t) \<Longrightarrow> home w lane s
      \<Longrightarrow> \<exists>s0. (moves env wait)\<^sup>*\<^sup>* s s0 \<and> home w lane s0 \<and> attempt_ok w s0 s' t"
  shows "interruptible n env (slot_interrupted w) attempt k sv = Some (sv', r) \<Longrightarrow> home w lane sv
    \<Longrightarrow> \<exists>sv0. (moves env wait)\<^sup>*\<^sup>* sv sv0 \<and> hands_over items senders w sv0 sv' (flatten_taken r)
        \<and> wf_slots cap senders alive sv' \<and> w < length (sv_slots sv')"
proof (induction n arbitrary: k sv)
  case (Suc n)
  let ?s = "env k sv"
  have h: "home w lane ?s" using assms(1) Suc.prems(2) by blast
  have m: "(moves env wait)\<^sup>*\<^sup>* sv ?s" by (rule r_into_rtranclp) (auto simp: moves_def)
  obtain s1 t where a: "attempt k ?s = (s1, t)" by force
  from assms(3)[OF a h] obtain s0 where s0: "(moves env wait)\<^sup>*\<^sup>* ?s s0" "home w lane s0" "attempt_ok w s0 s1 t" by blast
  note path = rtranclp_trans[OF m s0(1)]
  show ?case
  proof (cases "slot_interrupted w ?s")
    case True
    with Suc.prems(1) have "sv' = ?s" "r = Inr None" by auto
    with True m h show ?thesis
      by (intro exI[of _ ?s]) (auto simp: hands_over_def flatten_taken_def at_home_def)
  next
    case False
    show ?thesis
    proof (cases t)
      case Tick
      with s0 have "s1 = s0" by (simp add: attempt_ok_def)
      with Suc.IH[of "Suc k" s0] Suc.prems(1) False a Tick s0(2) path show ?thesis
        by (auto intro: rtranclp_trans)
    next
      case (Done x)
      with Suc.prems(1) False a have "sv' = s1" "r = Inr (Some x)" by auto
      with Done s0 path attempt_ok_hands_over(1)[of w s0 s1 x] attempt_ok_home[OF s0(3,2)] show ?thesis
        by (auto simp: flatten_taken_def)
    next
      case (Panicked msg)
      with Suc.prems(1) False a have "sv' = s1" "r = Inl (panic_error msg)" by auto
      with Panicked s0 path attempt_ok_hands_over(2)[of w s0 s1 msg] attempt_ok_home[OF s0(3,2)] show ?thesis
        by (auto simp: flatten_taken_def)
    qed
  qed
qed simp

lemma hands_over_unpark:
  "hands_over items senders w sv0 sv' r \<Longrightarrow> w < length (sv_slots sv') \<Longrightarrow> hands_over items senders w sv0 (unpark w sv') r"
  by (auto simp: hands_over_def split: sum.splits option.splits)

lemma take_outcome_hands_over: "take_outcome items senders w sv sv' r \<Longrightarrow> hands_over items senders w sv sv' r"
  by (auto simp: take_outcome_def hands_over_def split: sum.splits option.splits)

lemma home_park: "home w lane sv \<Longrightarrow> home w lane (park w sv)"
  by (simp add: at_home_def)

text \<open>The whole take: from the state it started in, parked if it had to wait, the rest moved on to the one it answered in.\<close>

lemma block_take_moves:
  assumes "block_take n env wait panics F w sv = Some (sv', r)" "home w lane sv" "\<not> sl_parked (sv_slots sv ! w)"
    and "\<And>k s. home w lane s \<Longrightarrow> home w lane (env k s)" "\<And>k s. home w lane s \<Longrightarrow> home w lane (wait k s)"
  shows "\<exists>start \<in> {sv, park w sv}. \<exists>sv0. (moves env wait)\<^sup>*\<^sup>* start sv0 \<and> hands_over items senders w sv0 sv' r
    \<and> wf_slots cap senders alive sv'"
proof (cases "block_take 0 quiet quiet (\<lambda>_. None) F w sv")
  case (Some x)
  then obtain sv1 r1 where x: "x = (sv1, r1)" by force
  have "block_take n env wait panics F w sv = Some (sv1, r1)"
    using Some x by (auto simp: block_take_def lane_take_def split: prod.splits recv_result.splits option.splits)
  with assms(1) have "block_take 0 quiet quiet (\<lambda>_. None) F w sv = Some (sv', r)" using Some x by simp
  from block_take_outcome[OF this] assms(2,3) show ?thesis
    using take_outcome_hands_over by (auto simp: at_home_def)
next
  case None
  show ?thesis
  proof (cases lane)
    case True
    then obtain sv3 q3 where i: "interruptible n env (slot_interrupted w) (lane_attempt F panics wait w) 0 (park w sv) = Some (sv3, q3)"
        and r: "sv' = unpark w sv3" "r = flatten_taken q3"
      using assms(1,2) None lane_recv_empty[of w sv] stealD[of w sv]
      by (auto simp: at_home_def block_take_def lane_take_def split: prod.splits recv_result.splits option.splits)
    have "\<exists>sv0. (moves env wait)\<^sup>*\<^sup>* (park w sv) sv0 \<and> hands_over items senders w sv0 sv3 (flatten_taken q3)
        \<and> wf_slots cap senders alive sv3 \<and> w < length (sv_slots sv3)"
      by (rule wait_moves[OF _ _ _ i]) (use assms(2,4,5) home_park lane_attempt_moves True in auto)
    with r hands_over_unpark show ?thesis by auto
  next
    case False
    then obtain q3 where i: "interruptible n env (slot_interrupted w) (queue_attempt F panics wait w) 0 sv = Some (sv', q3)"
        and r: "r = flatten_taken q3"
      using assms(1,2) None req_recvD[of sv]
      by (auto simp: at_home_def block_take_def split: prod.splits recv_result.splits option.splits)
    have "\<exists>sv0. (moves env wait)\<^sup>*\<^sup>* sv sv0 \<and> hands_over items senders w sv0 sv' (flatten_taken q3)
        \<and> wf_slots cap senders alive sv' \<and> w < length (sv_slots sv')"
      by (rule wait_moves[OF _ _ _ i]) (use assms(2,4,5) queue_attempt_moves False in auto)
    with r show ?thesis by auto
  qed
qed

lemma after_timeout_drains:
  assumes "after_timeout F w sv = (sv', t)" "home w lane sv"
  shows "retires_clean items w sv sv' t"
proof (cases "sl_lane (sv_slots sv ! w)")
  case None
  with assms show ?thesis by (auto simp: retires_clean_def after_timeout_def lane_recv_def split: if_splits)
next
  case (Some c)
  obtain sv1 q where e: "lane_recv F w sv = (sv1, q)" by force
  have "w < length (sv_slots sv)" using assms(2) by (simp add: at_home_def)
  from lane_recvD[OF e this Some] Some assms(1) e show ?thesis
    by (cases q) (auto simp: retires_clean_def after_timeout_def split: if_splits)
qed

end

section \<open>Waking up\<close>

text \<open>
  A reason to stop waiting: the interrupt flag, retirement, or a request in the queue the
  worker waits on (its lane when \<open>lane\<close> holds).
\<close>

definition woken :: "('c \<Rightarrow> 'x list) \<Rightarrow> nat \<Rightarrow> bool \<Rightarrow> 'c server_inner \<Rightarrow> bool" where
  "woken items w lane sv \<longleftrightarrow>
     slot_interrupted w sv \<or> sl_retired (sv_slots sv ! w)
     \<or> (if lane then \<exists>c. sl_lane (sv_slots sv ! w) = Some c \<and> items c \<noteq> [] else items (sv_req sv) \<noteq> [])"

lemma on_slot_nth:
  "sv_slots (on_slot w f sv) ! i = (if i = w \<and> w < length (sv_slots sv) then f (sv_slots sv ! i) else sv_slots sv ! i)"
  by (cases "w < length (sv_slots sv)") (auto simp: on_slot_def list_update_beyond not_less)

lemma lane_recv_flags:
  "lane_recv F w sv = (sv', r) \<Longrightarrow> sl_retired (sv_slots sv' ! i) = sl_retired (sv_slots sv ! i)
     \<and> sl_parked (sv_slots sv' ! i) = sl_parked (sv_slots sv ! i)"
  by (auto simp: lane_recv_def on_slot_nth split: if_splits option.splits prod.splits)

lemma req_recv_flags: "req_recv F sv = (sv', r) \<Longrightarrow> sv_slots sv' = sv_slots sv"
  by (auto simp: req_recv_def split: prod.splits)

lemma steal_from_parked:
  "steal_from F w ixs sv = (sv', r) \<Longrightarrow> sl_parked (sv_slots sv' ! i) = sl_parked (sv_slots sv ! i)"
proof (induction ixs arbitrary: sv)
  case (Cons j ixs)
  obtain sv1 r1 where e: "lane_recv F j sv = (sv1, r1)" by force
  show ?case
    using Cons e lane_recv_flags[OF e, of i] by (cases r1) (auto split: if_splits)
qed simp

lemma recv_lengths:
  "lane_recv F i sv = (sv', r) \<Longrightarrow> length (sv_slots sv') = length (sv_slots sv)"
  "steal_from F w ixs sv = (sv', t) \<Longrightarrow> length (sv_slots sv') = length (sv_slots sv)"
  "after_timeout F w sv = (sv', u) \<Longrightarrow> length (sv_slots sv') = length (sv_slots sv)"
proof -
  show l: "length (sv_slots sv') = length (sv_slots sv)" if "lane_recv F i sv = (sv', r)" for i r sv'
    using that by (auto simp: lane_recv_def split: option.splits prod.splits)
  show "length (sv_slots sv') = length (sv_slots sv)" if "after_timeout F w sv = (sv', u)"
    using that l by (auto simp: after_timeout_def split: if_splits prod.splits recv_result.splits)
  show "length (sv_slots sv') = length (sv_slots sv)" if "steal_from F w ixs sv = (sv', t)"
    using that
  proof (induction ixs arbitrary: sv)
    case (Cons j ixs)
    obtain sv1 r1 where e: "lane_recv F j sv = (sv1, r1)" by force
    then have "length (sv_slots sv1) = length (sv_slots sv)"
      by (auto simp: lane_recv_def split: option.splits prod.splits)
    with Cons e show ?case by (cases r1) (auto split: if_splits)
  qed simp
qed

text \<open>A wait for one slot keeps the slot, and ends when the slot is retired.\<close>

lemma recv_timeout_keeps:
  assumes "I sv" "\<And>s s' r. I s \<Longrightarrow> recv s = (s', r) \<Longrightarrow> I s'" "\<And>s. I s \<Longrightarrow> I (wait s)"
    and "recv_timeout recv wait sv = (sv', r)"
  shows "I sv'"
proof -
  obtain s1 r1 where 1: "recv sv = (s1, r1)" by force
  obtain s2 r2 where 2: "recv (wait s1) = (s2, r2)" by force
  note i1 = assms(2)[OF assms(1) 1]
  note i2 = assms(2)[OF assms(3)[OF i1] 2]
  show ?thesis
    using assms(4) i1 i2 1 2 by (cases r1) (simp_all add: recv_timeout_def)
qed

lemma retired_after_timeout: "sl_retired (sv_slots sv ! w) \<Longrightarrow> snd (after_timeout F w sv) \<noteq> None"
  by (auto simp: after_timeout_def split: prod.splits recv_result.splits)

abbreviation retiring :: "nat \<Rightarrow> 'c server_inner \<Rightarrow> bool" where
  "retiring w sv \<equiv> w < length (sv_slots sv) \<and> sl_retired (sv_slots sv ! w)"

lemma attempt_keeps_slot:
  assumes "\<And>s. w < length (sv_slots s) \<Longrightarrow> w < length (sv_slots (wait k s))" "w < length (sv_slots sv)"
  shows "queue_attempt F panics wait w k sv = (sv', Tick) \<Longrightarrow> w < length (sv_slots sv')"
    and "lane_attempt F panics wait w k sv = (sv', Tick) \<Longrightarrow> w < length (sv_slots sv')"
proof -
  have q: "w < length (sv_slots sv1)" if "recv_timeout (req_recv F) (wait k) sv = (sv1, r)" for sv1 r
    by (rule recv_timeout_keeps[where I = "\<lambda>s. w < length (sv_slots s)", OF assms(2) _ assms(1) that])
      (use req_recv_flags[of F] in auto)
  have l: "w < length (sv_slots sv1)" if "recv_timeout (lane_recv F w) (wait k) sv = (sv1, r)" for sv1 r
    by (rule recv_timeout_keeps[where I = "\<lambda>s. w < length (sv_slots s)", OF assms(2) _ assms(1) that])
      (use recv_lengths(1)[of F w] in auto)
  show "w < length (sv_slots sv')" if "queue_attempt F panics wait w k sv = (sv', Tick)"
    using that recv_lengths(3)[of F w] q
    by (auto simp: queue_attempt_def split: option.splits prod.splits recv_result.splits)
  show "w < length (sv_slots sv')" if "lane_attempt F panics wait w k sv = (sv', Tick)"
    using that recv_lengths(2,3)[of F w] l
    by (auto simp: lane_attempt_def steal_def split: option.splits prod.splits recv_result.splits)
qed

context flume_channel
begin

lemma queue_attempt_woken:
  assumes "w < length (sv_slots sv)" "\<not> slot_interrupted w sv" "woken items w False sv"
    and "\<And>s. retiring w s \<Longrightarrow> retiring w (wait k s)"
  shows "snd (queue_attempt F panics wait w k sv) \<noteq> Tick"
proof (cases "sl_retired (sv_slots sv ! w)")
  case True
  obtain sv' r where rt: "recv_timeout (req_recv F) (wait k) sv = (sv', r)" by force
  have "retiring w sv'"
    by (rule recv_timeout_keeps[where I = "retiring w", OF _ _ assms(4) rt])
      (use True assms(1) req_recv_flags[of F] in auto)
  with rt retired_after_timeout[of sv' w F] show ?thesis
    by (cases r) (auto simp: queue_attempt_def split: option.splits prod.splits)
next
  case False
  with assms obtain x xs where "items (sv_req sv) = x # xs" by (auto simp: woken_def neq_Nil_conv)
  from recv_item[OF this] show ?thesis
    by (auto simp: queue_attempt_def recv_timeout_def req_recv_def split: option.splits)
qed

lemma lane_attempt_woken:
  assumes "w < length (sv_slots sv)" "\<not> slot_interrupted w sv" "woken items w True sv"
    and "\<And>s. retiring w s \<Longrightarrow> retiring w (wait k s)"
  shows "snd (lane_attempt F panics wait w k sv) \<noteq> Tick"
proof (cases "sl_retired (sv_slots sv ! w)")
  case True
  obtain sv' r where rt: "recv_timeout (lane_recv F w) (wait k) sv = (sv', r)" by force
  have "retiring w sv'"
    by (rule recv_timeout_keeps[where I = "retiring w", OF _ _ assms(4) rt])
      (use True assms(1) lane_recv_flags[of F w] recv_lengths(1)[of F w] in auto)
  with rt retired_after_timeout[of sv' w F] show ?thesis
    by (cases r) (auto simp: lane_attempt_def split: option.splits prod.splits)
next
  case False
  with assms obtain c x xs where "sl_lane (sv_slots sv ! w) = Some c" "items c = x # xs"
    by (auto simp: woken_def neq_Nil_conv)
  with recv_item[of c x xs] show ?thesis
    by (auto simp: lane_attempt_def recv_timeout_def lane_recv_def split: option.splits)
qed

lemma block_take_wakes:
  assumes "w < length (sv_slots sv)"
    and env: "\<And>k s. w < length (sv_slots s) \<Longrightarrow> w < length (sv_slots (env k s))"
    and wait: "\<And>k s. w < length (sv_slots s) \<Longrightarrow> w < length (sv_slots (wait k s))"
    and wake: "\<And>s. w < length (sv_slots s) \<Longrightarrow> woken items w (sl_lane (sv_slots sv ! w) \<noteq> None) (env j s)"
    and stay: "\<And>s. retiring w s \<Longrightarrow> retiring w (wait j s)"
  shows "\<exists>r. block_take (Suc j) env wait panics F w sv = Some r"
proof (cases "sl_lane (sv_slots sv ! w)")
  case None
  have "\<exists>r. interruptible (Suc (j - 0)) env (slot_interrupted w) (queue_attempt F panics wait w) 0 sv1 = Some r"
    if "w < length (sv_slots sv1)" for sv1
  proof (rule interruptible_returns[where I = "\<lambda>s. w < length (sv_slots s)", OF env _ _ _ that])
    show "slot_interrupted w (env j s) \<or> snd (queue_attempt F panics wait w j (env j s)) \<noteq> Tick"
      if "w < length (sv_slots s)" for s
      using queue_attempt_woken[where wait = wait and k = j, OF env[OF that] _ _ stay] wake[OF that] None by auto
  qed (auto intro: attempt_keeps_slot(1)[where wait = wait, OF wait])
  with None assms(1) show ?thesis
    using req_recv_flags[of F sv]
    by (auto simp: block_take_def simp del: interruptible.simps split: prod.splits recv_result.splits)
next
  case (Some c)
  have "\<exists>r. interruptible (Suc (j - 0)) env (slot_interrupted w) (lane_attempt F panics wait w) 0 sv1 = Some r"
    if "w < length (sv_slots sv1)" for sv1
  proof (rule interruptible_returns[where I = "\<lambda>s. w < length (sv_slots s)", OF env _ _ _ that])
    show "slot_interrupted w (env j s) \<or> snd (lane_attempt F panics wait w j (env j s)) \<noteq> Tick"
      if "w < length (sv_slots s)" for s
      using lane_attempt_woken[where wait = wait and k = j, OF env[OF that] _ _ stay] wake[OF that] Some by auto
  qed (auto intro: attempt_keeps_slot(2)[where wait = wait, OF wait])
  with Some assms(1) show ?thesis
    using recv_lengths(1)[of F w sv] recv_lengths(2)[of F w]
    by (auto simp: block_take_def lane_take_def steal_def simp del: interruptible.simps
        split: prod.splits recv_result.splits option.splits)
qed

end

lemma lane_take_unparks:
  assumes "lane_take n env wait panics F w sv = Some (sv', r)"
    and "\<not> sl_parked (sv_slots sv ! w)" "w < length (sv_slots sv')"
  shows "\<not> sl_parked (sv_slots sv' ! w)"
proof -
  obtain sv1 q where e: "lane_recv F w sv = (sv1, q)" by force
  obtain sv2 v where s: "steal F w sv1 = (sv2, v)" by force
  have p: "\<not> sl_parked (sv_slots sv1 ! w)" "\<not> sl_parked (sv_slots sv2 ! w)"
    using lane_recv_flags[OF e, of w] steal_from_parked[OF s[unfolded steal_def], of w] assms(2) by simp_all
  show ?thesis
    using assms(1,3) e s p
    by (cases q; cases v) (auto simp: lane_take_def simp del: interruptible.simps)
qed

section \<open>Admission\<close>

text \<open>The server part of an admission does not depend on the environment built.\<close>

definition admitted_server :: "instant \<Rightarrow> u64 \<Rightarrow> nat \<Rightarrow> ('h, 'b) request_ctx \<Rightarrow> 'c server_inner \<Rightarrow> 'c server_inner" where
  "admitted_server now ms w ctx sv =
     on_slot w (\<lambda>s. s\<lparr>sl_served := sl_served s + 1, sl_last_started_ms := ms, sl_in_flight := sl_in_flight s + 1,
         sl_current := sl_current s @ [cx_responder ctx]\<rparr>)
       (sv\<lparr>sv_served := sv_served sv + 1,
           sv_queue_histogram := histogram_record (micros (now - cx_enqueued_at ctx)) (sv_queue_histogram sv)\<rparr>)"

lemma admit_eq:
  "admit E race H B D now ms w ctx (sv, es) =
     (let ctx' = stamp_ctx now w ctx; b = build_env E race H B D ctx' es
      in ((admitted_server now ms w ctx sv, fst b), ((snd b)(''kino.request'' \<mapsto> ERequest), ctx')))"
  by (cases "w < length (sv_slots sv)")
    (simp_all add: admit_def admitted_server_def Let_def on_slot_def list_update_beyond not_less split: prod.splits)

lemma admitted_server_simps [simp]:
  "sv_served (admitted_server now ms w ctx sv) = sv_served sv + 1"
  "sv_queue_histogram (admitted_server now ms w ctx sv) =
     histogram_record (micros (now - cx_enqueued_at ctx)) (sv_queue_histogram sv)"
  "length (sv_slots (admitted_server now ms w ctx sv)) = length (sv_slots sv)"
  "sv_req (admitted_server now ms w ctx sv) = sv_req sv"
  "waiting items (admitted_server now ms w ctx sv) = waiting items sv"
  "w < length (sv_slots sv) \<Longrightarrow> sv_slots (admitted_server now ms w ctx sv) ! w =
     (sv_slots sv ! w)\<lparr>sl_served := sl_served (sv_slots sv ! w) + 1, sl_last_started_ms := ms,
       sl_in_flight := sl_in_flight (sv_slots sv ! w) + 1,
       sl_current := sl_current (sv_slots sv ! w) @ [cx_responder ctx]\<rparr>"
  by (simp_all add: admitted_server_def on_slot_def waiting_def lane_items_def sum_list_update_same)

text \<open>What a batch has done to the slot and to the counters.\<close>

definition stamp_all :: "(nat \<Rightarrow> instant) \<Rightarrow> nat \<Rightarrow> nat \<Rightarrow> ('h, 'b) request_ctx list \<Rightarrow> ('h, 'b) request_ctx list" where
  "stamp_all now i w ctxs = map2 (\<lambda>j ctx. stamp_ctx (now j) w ctx) [i..<i + length ctxs] ctxs"

lemma stamp_all_Cons: "stamp_all now i w (c # cs) = stamp_ctx (now i) w c # stamp_all now (Suc i) w cs"
proof -
  have "[i..<i + length (c # cs)] = i # [Suc i..<Suc i + length cs]"
    by (simp add: upt_conv_Cons del: upt_Suc)
  then show ?thesis by (simp add: stamp_all_def)
qed

lemma stamp_all_Nil [simp]: "stamp_all now i w [] = []"
  by (simp add: stamp_all_def)

lemma batch_rest_spec:
  assumes F: "flume_channel F items cap senders alive"
  shows "batch_rest n F A i w (sv, es) batch = ((sv', es'), out) \<Longrightarrow> w < length (sv_slots sv) \<Longrightarrow>
    \<exists>ctxs. ctxs = take n (items (sv_req sv)) \<and> map snd out = map snd batch @ stamp_all (ae_now A) i w ctxs
      \<and> waiting items sv = mset ctxs + waiting items sv'
      \<and> sv_served sv' = sv_served sv + of_nat (length ctxs)
      \<and> length (sv_slots sv') = length (sv_slots sv)
      \<and> sl_in_flight (sv_slots sv' ! w) = sl_in_flight (sv_slots sv ! w) + of_nat (length ctxs)
      \<and> sl_current (sv_slots sv' ! w) = sl_current (sv_slots sv ! w) @ map cx_responder ctxs"
proof (induction n arbitrary: sv es i batch)
  case 0
  then show ?case by simp
next
  case (Suc n)
  obtain sv1 r where e: "req_recv F sv = (sv1, r)" by force
  note rr = flume_channel.req_recvD[OF F e]
  show ?case
  proof (cases r)
    case (Received x)
    let ?sv2 = "admitted_server (ae_now A i) (ae_ms A i) w x sv1"
    obtain es2 a where ad: "admit_nth A i w x (sv1, es) = ((?sv2, es2), a)" and a: "snd a = stamp_ctx (ae_now A i) w x"
      by (auto simp: admit_nth_def admit_eq Let_def)
    have w1: "w < length (sv_slots sv1)" "w < length (sv_slots ?sv2)" using rr Suc.prems(2) by simp_all
    have "batch_rest n F A (Suc i) w (?sv2, es2) (batch @ [a]) = ((sv', es'), out)"
      using Suc.prems(1) e Received ad by simp
    from Suc.IH[OF this w1(2)] show ?thesis
      using rr Received a w1 by (simp add: stamp_all_Cons algebra_simps)
  qed (use Suc.prems e rr in simp_all)
qed

lemma wf_clear_slot:
  "w < length (sv_slots sv) \<Longrightarrow> wf_slots cap senders alive sv \<Longrightarrow> wf_slots cap senders alive (on_slot w clear_slot sv)"
  by (rule wf_slots_flags) (simp_all add: clear_slot_def)

section \<open>Properties\<close>

text \<open>
  C7: whatever the rest of the system does while a worker takes, at the head of each turn of
  its loop and during each of its waits, a take that returns did one thing in the state it then found: it
  handed over exactly one waiting request, the oldest of the worker's own queue when that
  has any, or told the worker to go, because it was interrupted or because its own queue is
  empty and it is retired or cut off from its senders; and a panic loses no request. Up to
  then the take itself moved no request. A worker that finds itself retired after a wait
  takes what is left in its lane and goes only when that is empty.
\<close>

theorem block_take_hands_over:
  assumes "flume_channel F items cap senders alive" "at_home cap senders alive w lane sv"
    and "\<not> sl_parked (sv_slots sv ! w)"
    and "\<And>k s. at_home cap senders alive w lane s \<Longrightarrow> at_home cap senders alive w lane (env k s)"
    and "\<And>k s. at_home cap senders alive w lane s \<Longrightarrow> at_home cap senders alive w lane (wait k s)"
    and "block_take n env wait panics F w sv = Some (sv', r)"
  shows "(\<exists>start \<in> {sv, park w sv}. \<exists>sv0. (moves env wait)\<^sup>*\<^sup>* start sv0 \<and> hands_over items senders w sv0 sv' r)
    \<and> wf_slots cap senders alive sv'
    \<and> (\<forall>s s' t. at_home cap senders alive w lane s \<and> after_timeout F w s = (s', t) \<longrightarrow> retires_clean items w s s' t)"
  using flume_channel.block_take_moves[OF assms(1,6,2,3,4,5)] flume_channel.after_timeout_drains[OF assms(1)] by blast

lemma moves_quiet: "(moves quiet quiet)\<^sup>*\<^sup>* s t \<Longrightarrow> t = s"
  by (induction rule: rtranclp_induct) (simp_all add: moves_def)

definition queue_example :: "(nat list \<times> bool) list \<Rightarrow> nat list \<Rightarrow> nat list_chan server_inner" where
  "queue_example lanes q =
     (example_server (map (\<lambda>(l, retired). (example_slot l True False 0)\<lparr>sl_retired := retired\<rparr>) lanes))
       \<lparr>sv_req := example_lane q True\<rparr>"

lemmas queue_example_simps = queue_example_def example_server_def example_slot_def example_lane_def
  worker_slot_new_def server_inner_new_def

lemma queue_example_wf: "length lanes < 100 \<Longrightarrow> wf_slots lc_cap lc_senders lc_alive (queue_example lanes q)"
  by (auto simp: queue_example_simps wf_slots_def example_config_def list_all_iff wf_slot_def LANE_DEPTH_def)

text \<open>Worker 0 has nothing in its lane and takes from its sibling.\<close>

theorem block_take_hands_over_witness:
  "\<exists>sv'. block_take 1 quiet quiet (\<lambda>_. None) list_flume 0 (queue_example [([], False), ([7, 8], False)] []) = Some (sv', Inr (Some 7))
     \<and> waiting lc_items (queue_example [([], False), ([7, 8], False)] []) = add_mset 7 (waiting lc_items sv')"
proof -
  let ?sv = "queue_example [([], False), ([7, 8], False)] []"
  obtain sv' where b: "block_take 1 quiet quiet (\<lambda>_. None) list_flume 0 ?sv = Some (sv', Inr (Some 7))"
    by (simp add: block_take_def lane_take_def lane_recv_def steal_def queue_example_simps list_flume_def on_slot_def upt_rec)
  have h: "at_home lc_cap lc_senders lc_alive 0 True ?sv"
    using queue_example_wf[of "[([], False), ([7, 8], False)]" "[]"] by (simp add: at_home_def queue_example_simps)
  have p: "\<not> sl_parked (sv_slots ?sv ! 0)" by (simp add: queue_example_simps)
  from block_take_hands_over[OF list_ch.flume_channel_axioms h p _ _ b] b show ?thesis
    by (auto simp: hands_over_def dest: moves_quiet)
qed

text \<open>
  C16: a worker does not sleep through what it waits for: whatever the rest of the system
  does while it keeps the slot, once the interrupt flag is up, the slot is retired, or a
  request is in the queue the worker waits on, the take returns by the end of that wait; and
  it returns unparked on every path, a panic included.
\<close>

theorem take_wakes:
  assumes "flume_channel F items cap senders alive" "w < length (sv_slots sv)"
    and "\<And>k s. w < length (sv_slots s) \<Longrightarrow> w < length (sv_slots (env k s))"
    and "\<And>k s. w < length (sv_slots s) \<Longrightarrow> w < length (sv_slots (wait k s))"
    and "\<And>s. w < length (sv_slots s) \<Longrightarrow> woken items w (sl_lane (sv_slots sv ! w) \<noteq> None) (env j s)"
    and "\<And>s. retiring w s \<Longrightarrow> retiring w (wait j s)"
  shows "\<exists>sv' r. block_take (Suc j) env wait panics F w sv = Some (sv', r)
    \<and> (sl_lane (sv_slots sv ! w) \<noteq> None \<and> \<not> sl_parked (sv_slots sv ! w) \<and> w < length (sv_slots sv')
       \<longrightarrow> \<not> sl_parked (sv_slots sv' ! w))"
proof -
  obtain sv' r where b: "block_take (Suc j) env wait panics F w sv = Some (sv', r)"
    using flume_channel.block_take_wakes[where env = env and wait = wait and j = j, OF assms] by (metis surj_pair)
  moreover have "\<not> sl_parked (sv_slots sv' ! w)"
    if "sl_lane (sv_slots sv ! w) \<noteq> None" "\<not> sl_parked (sv_slots sv ! w)" "w < length (sv_slots sv')"
    using lane_take_unparks[of "Suc j" env wait panics F w sv sv' r] b that by (simp add: block_take_def)
  ultimately show ?thesis by blast
qed

text \<open>A parked worker leaves when the scaler retires its slot during the wait.\<close>

theorem take_wakes_witness:
  "\<exists>sv' r. block_take 1 (\<lambda>_. on_slot 0 retire) quiet (\<lambda>_. None) list_flume 0 (queue_example [([], False)] []) = Some (sv', r)"
proof -
  have "woken lc_items 0 (sl_lane (sv_slots (queue_example [([], False)] []) ! 0) \<noteq> None) (on_slot 0 retire s)"
    if "0 < length (sv_slots s)" for s
    using that by (simp add: woken_def retire_def)
  then have "\<exists>sv' r. block_take (Suc 0) (\<lambda>_. on_slot 0 retire) quiet (\<lambda>_. None) list_flume 0 (queue_example [([], False)] []) = Some (sv', r)
    \<and> (sl_lane (sv_slots (queue_example [([], False)] []) ! 0) \<noteq> None \<and> \<not> sl_parked (sv_slots (queue_example [([], False)] []) ! 0)
        \<and> 0 < length (sv_slots sv') \<longrightarrow> \<not> sl_parked (sv_slots sv' ! 0))"
    by (intro take_wakes[OF list_ch.flume_channel_axioms]) (simp_all add: queue_example_simps)
  then show ?thesis by auto
qed

lemma waiting_clear_slot [simp]: "waiting items (on_slot w clear_slot sv) = waiting items sv"
  by (rule waiting_on_slot) (simp add: clear_slot_def)

lemma host_source_stamp [simp]: "host_source H (stamp_ctx now w ctx) = host_source H ctx"
  by (simp add: host_source_def stamp_ctx_def Let_def split: option.split)


definition ctx_server :: "(header_list, bytes list_chan) request_ctx list \<Rightarrow>
    (header_list, bytes list_chan) request_ctx list_chan server_inner" where
  "ctx_server q =
     (server_inner_new (list_flume :: ((header_list, bytes list_chan) request_ctx, _) flume) False
        (example_config\<lparr>sc_lanes := False\<rparr>) False None 1)
       \<lparr>sv_slots := [worker_slot_new (list_flume :: ((header_list, bytes list_chan) request_ctx, _) flume) False],
        sv_req := \<lparr>lc_items = q, lc_cap = 4, lc_senders = 1, lc_alive = True\<rparr>\<rparr>"

lemma ctx_server_wf: "wf_slots lc_cap lc_senders lc_alive (ctx_server q)"
  by (simp add: ctx_server_def wf_slots_def wf_slot_def worker_slot_new_def server_inner_new_def)

abbreviation local_host :: "bytes \<Rightarrow> string \<times> u16" where
  "local_host \<equiv> \<lambda>_. (''127.0.0.1'', 9292)"

definition example_admit :: "(_, _, _, header_list, bytes list_chan) admit_env" where
  "example_admit = \<lparr>ae_libs = example_libs, ae_race = interference example_libs local_host [],
     ae_headers = list_headers, ae_body = list_flume, ae_defaults = \<lparr>ed_errors = True, ed_null_input = True\<rparr>,
     ae_now = (\<lambda>i. 1000 + i), ae_ms = (\<lambda>_. 1)\<rparr>"

lemma take_batch_example:
  "\<exists>st batch. take_batch 1 quiet quiet (\<lambda>_. None) list_flume example_admit 0 2
      (Some (ctx_server [example_ctx None, example_ctx None, example_ctx None])) (env_cache_init example_libs)
    = Some (st, Inr (Some batch))"
  by (simp add: take_batch_def checkout_def block_take_def req_recv_def ctx_server_def server_inner_new_def
      worker_slot_new_def on_slot_def clear_slot_def list_flume_def split: prod.splits)




lemma take_one_example:
  "\<exists>st ev. take_one 1 quiet quiet (\<lambda>_. None) list_flume example_admit 0
      (Some (ctx_server [example_ctx None])) (env_cache_init example_libs) = Some (st, Inr (Some (ev, stamp_ctx 1000 0 (example_ctx None))))"
  by (simp add: take_one_def checkout_def block_take_def req_recv_def ctx_server_def server_inner_new_def
      worker_slot_new_def on_slot_def clear_slot_def list_flume_def admit_nth_def admit_eq Let_def example_admit_def)


end
