(* ===== verification/Kino_Json.thy ===== *)
theory Kino_Json
  imports Kino_Prelude
begin

text \<open>
  A reader for the JSON that the control plane writes: objects, arrays, strings without
  escapes, and bare tokens (numbers and booleans). It serves as the specification of what a
  client of \<open>/stats\<close> gets to see.
\<close>

section \<open>Writing\<close>

definition quoted :: "string \<Rightarrow> string" where
  "quoted s = CHR 0x22 # s @ [CHR 0x22]"

definition field :: "string \<Rightarrow> string \<Rightarrow> string" where
  "field k v = quoted k @ '':'' @ v"

fun join_with_comma :: "string list \<Rightarrow> string" where
  "join_with_comma [] = []"
| "join_with_comma [x] = x"
| "join_with_comma (x # y # ys) = x @ '','' @ join_with_comma (y # ys)"

datatype json = JTok string | JStr string | JArr "json list" | JObj "(string \<times> json) list"

fun render :: "json \<Rightarrow> string" where
  "render (JTok t) = t"
| "render (JStr s) = quoted s"
| "render (JArr vs) = ''['' @ join_with_comma (map render vs) @ '']''"
| "render (JObj kvs) = ''{'' @ join_with_comma (map (\<lambda>(k, v). field k (render v)) kvs) @ ''}''"

section \<open>Reading\<close>

definition plain :: "char \<Rightarrow> bool" where
  "plain c \<longleftrightarrow> c \<noteq> CHR 0x22 \<and> c \<noteq> CHR 0x5C \<and> 32 \<le> (of_char c :: nat)"

definition tok_char :: "char \<Rightarrow> bool" where
  "tok_char c \<longleftrightarrow> c \<notin> set '',:[]{} '' \<and> c \<noteq> CHR 0x22"

definition parse_string :: "string \<Rightarrow> (string \<times> string) option" where
  "parse_string s =
     (case dropWhile plain s of
        c # r \<Rightarrow> if c = CHR 0x22 then Some (takeWhile plain s, r) else None
      | [] \<Rightarrow> None)"

fun parse_value :: "nat \<Rightarrow> string \<Rightarrow> (json \<times> string) option"
  and parse_items :: "nat \<Rightarrow> string \<Rightarrow> (json list \<times> string) option"
  and parse_members :: "nat \<Rightarrow> string \<Rightarrow> ((string \<times> json) list \<times> string) option" where
  "parse_value 0 s = None"
| "parse_value (Suc n) s =
     (if s = [] then None
      else if hd s = CHR 0x22 then map_option (\<lambda>(k, r). (JStr k, r)) (parse_string (tl s))
      else if hd s = CHR ''['' then
        (if tl s \<noteq> [] \<and> hd (tl s) = CHR '']'' then Some (JArr [], tl (tl s))
         else map_option (\<lambda>(vs, r). (JArr vs, r)) (parse_items n (tl s)))
      else if hd s = CHR ''{'' then
        (if tl s \<noteq> [] \<and> hd (tl s) = CHR ''}'' then Some (JObj [], tl (tl s))
         else map_option (\<lambda>(kvs, r). (JObj kvs, r)) (parse_members n (tl s)))
      else if tok_char (hd s) then Some (JTok (takeWhile tok_char s), dropWhile tok_char s)
      else None)"
| "parse_items 0 s = None"
| "parse_items (Suc n) s =
     (case parse_value n s of
        Some (v, c # r) \<Rightarrow>
          if c = CHR '','' then map_option (\<lambda>(vs, r'). (v # vs, r')) (parse_items n r)
          else if c = CHR '']'' then Some ([v], r) else None
      | _ \<Rightarrow> None)"
| "parse_members 0 s = None"
| "parse_members (Suc n) s =
     (case s of [] \<Rightarrow> None
      | q # s' \<Rightarrow>
          if q \<noteq> CHR 0x22 then None
          else case parse_string s' of
            Some (k, c # r) \<Rightarrow>
              if c \<noteq> CHR '':'' then None
              else (case parse_value n r of
                Some (v, d # r') \<Rightarrow>
                  if d = CHR '','' then map_option (\<lambda>(kvs, r''). ((k, v) # kvs, r'')) (parse_members n r')
                  else if d = CHR ''}'' then Some ([(k, v)], r') else None
              | _ \<Rightarrow> None)
          | _ \<Rightarrow> None)"

definition json_parse :: "string \<Rightarrow> json option" where
  "json_parse s = (case parse_value (2 * length s) s of Some (v, r) \<Rightarrow> if r = [] then Some v else None | None \<Rightarrow> None)"

section \<open>Reading what was written\<close>

fun wf_json :: "json \<Rightarrow> bool" where
  "wf_json (JTok t) \<longleftrightarrow> t \<noteq> [] \<and> list_all tok_char t"
| "wf_json (JStr s) \<longleftrightarrow> list_all plain s"
| "wf_json (JArr vs) \<longleftrightarrow> list_all wf_json vs"
| "wf_json (JObj kvs) \<longleftrightarrow> list_all (\<lambda>(k, v). list_all plain k \<and> wf_json v) kvs"

fun fuel :: "json \<Rightarrow> nat" where
  "fuel (JTok t) = 1"
| "fuel (JStr s) = 1"
| "fuel (JArr vs) = 1 + sum_list (map (\<lambda>v. Suc (fuel v)) vs)"
| "fuel (JObj kvs) = 1 + sum_list (map (\<lambda>(k, v). Suc (fuel v)) kvs)"

text \<open>What may follow a value.\<close>

definition ends :: "string \<Rightarrow> bool" where
  "ends r \<longleftrightarrow> (case r of [] \<Rightarrow> True | c # _ \<Rightarrow> \<not> tok_char c)"

lemma parse_string_quoted: "list_all plain s \<Longrightarrow> parse_string (s @ CHR 0x22 # r) = Some (s, r)"
  by (simp add: parse_string_def list_all_iff dropWhile_append2 takeWhile_append2 plain_def)

lemma token_hd: "tok_char c \<Longrightarrow> c \<noteq> CHR 0x22 \<and> c \<noteq> CHR ''['' \<and> c \<noteq> CHR ''{''"
  by (auto simp: tok_char_def)

lemma parse_token:
  assumes "t \<noteq> []" "list_all tok_char t" "ends r"
  shows "parse_value (Suc n) (t @ r) = Some (JTok t, r)"
proof -
  have h: "hd (t @ r) = hd t" "t @ r \<noteq> []" "tok_char (hd t)" using assms by (cases t; simp)+
  have "takeWhile tok_char (t @ r) = t" "dropWhile tok_char (t @ r) = r"
    using assms by (cases r; simp add: list_all_iff takeWhile_append2 dropWhile_append2 ends_def)+
  with h token_hd[OF h(3)] show ?thesis by simp
qed

lemma render_hd:
  "wf_json v \<Longrightarrow> render v \<noteq> [] \<and> hd (render v) \<notin> {CHR '']'', CHR ''}'', CHR '',''}"
  by (cases v) (auto simp: quoted_def tok_char_def list_all_iff neq_Nil_conv)

lemma ends_sep [simp]: "ends (CHR '','' # r)" "ends (CHR '']'' # r)" "ends (CHR ''}'' # r)" "ends []"
  by (simp_all add: ends_def tok_char_def)

definition reads_values :: "nat \<Rightarrow> bool" where
  "reads_values n \<longleftrightarrow> (\<forall>v r. fuel v \<le> n \<longrightarrow> wf_json v \<longrightarrow> ends r \<longrightarrow> parse_value n (render v @ r) = Some (v, r))"

definition reads_items :: "nat \<Rightarrow> bool" where
  "reads_items n \<longleftrightarrow> (\<forall>vs r. vs \<noteq> [] \<longrightarrow> sum_list (map (\<lambda>v. Suc (fuel v)) vs) \<le> n \<longrightarrow> list_all wf_json vs
     \<longrightarrow> parse_items n (join_with_comma (map render vs) @ CHR '']'' # r) = Some (vs, r))"

definition reads_members :: "nat \<Rightarrow> bool" where
  "reads_members n \<longleftrightarrow> (\<forall>kvs r. kvs \<noteq> [] \<longrightarrow> sum_list (map (\<lambda>(k, v). Suc (fuel v)) kvs) \<le> n
     \<longrightarrow> list_all (\<lambda>(k, v). list_all plain k \<and> wf_json v) kvs
     \<longrightarrow> parse_members n (join_with_comma (map (\<lambda>(k, v). field k (render v)) kvs) @ CHR ''}'' # r) = Some (kvs, r))"

lemma reads_values_Suc:
  assumes "reads_items n" "reads_members n"
  shows "reads_values (Suc n)"
  unfolding reads_values_def
proof (intro allI impI)
  fix v r assume f: "fuel v \<le> Suc n" and w: "wf_json v" and e: "ends r"
  show "parse_value (Suc n) (render v @ r) = Some (v, r)"
  proof (cases v)
    case (JTok t)
    with w e show ?thesis by (simp add: parse_token del: parse_value.simps)
  next
    case (JStr s)
    with w show ?thesis by (simp add: quoted_def parse_string_quoted)
  next
    case (JArr vs)
    show ?thesis
    proof (cases "vs = []")
      case False
      then have "render (hd vs) \<noteq> [] \<and> hd (render (hd vs)) \<notin> {CHR '']'', CHR ''}'', CHR '',''}"
        using w JArr by (intro render_hd) (cases vs; simp)
      then have "hd (join_with_comma (map render vs) @ CHR '']'' # r) \<noteq> CHR '']''"
        using False by (cases vs rule: join_with_comma.cases[of "map render vs", case_product list.exhaust]; auto simp: hd_append)
      with JArr False assms(1) f w show ?thesis by (simp add: reads_items_def)
    qed (use JArr in simp)
  next
    case (JObj kvs)
    show ?thesis
    proof (cases "kvs = []")
      case False
      have "hd (join_with_comma (map (\<lambda>(k, v). field k (render v)) kvs) @ CHR ''}'' # r) \<noteq> CHR ''}''"
        using False by (cases kvs; cases "tl kvs") (auto simp: field_def quoted_def)
      with JObj False assms(2) f w show ?thesis by (simp add: reads_members_def)
    qed (use JObj in simp)
  qed
qed

lemma reads_items_Suc:
  assumes "reads_values n" "reads_items n"
  shows "reads_items (Suc n)"
  unfolding reads_items_def
proof (intro allI impI)
  fix vs r assume ne: "vs \<noteq> []" and f: "sum_list (map (\<lambda>v. Suc (fuel v)) vs) \<le> Suc n" and w: "list_all wf_json vs"
  then obtain v ws where vs: "vs = v # ws" by (cases vs) auto
  have "parse_items n (join_with_comma (map render ws) @ CHR '']'' # r) = Some (ws, r)" if "ws \<noteq> []"
    using assms(2) that f w vs by (simp add: reads_items_def)
  with vs f w assms(1) show "parse_items (Suc n) (join_with_comma (map render vs) @ CHR '']'' # r) = Some (vs, r)"
    by (cases ws) (simp_all add: reads_values_def)
qed

lemma reads_members_Suc:
  assumes "reads_values n" "reads_members n"
  shows "reads_members (Suc n)"
  unfolding reads_members_def
proof (intro allI impI)
  fix kvs :: "(string \<times> json) list" and r
  assume ne: "kvs \<noteq> []" and f: "sum_list (map (\<lambda>(k, v). Suc (fuel v)) kvs) \<le> Suc n"
    and w: "list_all (\<lambda>(k, v). list_all plain k \<and> wf_json v) kvs"
  then obtain k v ws where kvs: "kvs = (k, v) # ws" by (cases kvs) auto
  have "parse_members n (join_with_comma (map (\<lambda>(k, v). field k (render v)) ws) @ CHR ''}'' # r) = Some (ws, r)" if "ws \<noteq> []"
    using assms(2) that f w kvs by (simp add: reads_members_def)
  with kvs f w assms(1)
  show "parse_members (Suc n) (join_with_comma (map (\<lambda>(k, v). field k (render v)) kvs) @ CHR ''}'' # r) = Some (kvs, r)"
    by (cases ws) (simp_all add: reads_values_def field_def quoted_def parse_string_quoted)
qed

lemma parse_render: "reads_values n \<and> reads_items n \<and> reads_members n"
proof (induction n)
  case 0
  have "\<not> fuel v \<le> 0" for v by (cases v) auto
  moreover have "\<not> sum_list (map (\<lambda>v. Suc (fuel v)) vs) \<le> 0" if "vs \<noteq> []" for vs using that by (cases vs) auto
  moreover have "\<not> sum_list (map (\<lambda>(k, v). Suc (fuel v)) kvs) \<le> 0" if "kvs \<noteq> []" for kvs :: "(string \<times> json) list"
    using that by (cases kvs) auto
  ultimately show ?case unfolding reads_values_def reads_items_def reads_members_def by blast
qed (blast intro: reads_values_Suc reads_items_Suc reads_members_Suc)

text \<open>Twice the length of the text is enough fuel.\<close>

lemma join_length:
  "sum_list (map length xs) + (length xs - 1) = length (join_with_comma xs)"
  by (induction xs rule: join_with_comma.induct) auto

lemma fuel_length: "wf_json v \<Longrightarrow> fuel v \<le> 2 * length (render v)"
proof (induction v)
  case (JTok t)
  then show ?case by (cases t) auto
next
  case (JStr s)
  then show ?case by (simp add: quoted_def)
next
  case (JArr vs)
  then have "sum_list (map (\<lambda>v. Suc (fuel v)) vs) \<le> sum_list (map (\<lambda>v. Suc (2 * length (render v))) vs)"
    by (intro sum_list_mono) (auto simp: list_all_iff)
  also have "\<dots> = length vs + 2 * sum_list (map length (map render vs))"
    by (induction vs) auto
  finally show ?case using join_length[of "map render vs"] by simp
next
  case (JObj kvs)
  then have "sum_list (map (\<lambda>(k, v). Suc (fuel v)) kvs)
      \<le> sum_list (map (\<lambda>(k, v). Suc (2 * length (field k (render v)))) kvs)"
    by (intro sum_list_mono) (fastforce simp: list_all_iff field_def)
  also have "\<dots> = length kvs + 2 * sum_list (map length (map (\<lambda>(k, v). field k (render v)) kvs))"
    by (induction kvs) auto
  finally show ?case using join_length[of "map (\<lambda>(k, v). field k (render v)) kvs"] by simp
qed

lemma json_parse_render: "wf_json v \<Longrightarrow> json_parse (render v) = Some v"
  using parse_render[of "2 * length (render v)"] fuel_length[of v]
  by (auto simp: json_parse_def reads_values_def dest!: spec[of _ v] spec[of _ "[]"])

end
