(* ===== verification/Kino_Control.thy ===== *)
theory Kino_Control
  imports Kino_Request Kino_Dispatch Kino_Json
begin

text \<open>
  The control plane (\<open>ext/kino/src/control.rs\<close>): the snapshot of a server's sensors, its
  rendering as JSON and as Prometheus text, the token check, the routes and the handler.
  The formatting of a floating-point number of seconds is an argument
  (\<open>secs\<close>, from microseconds), as is the version of the crate.
\<close>

section \<open>Sensors\<close>

record worker_stat =
  wt_index :: nat
  wt_served :: u64
  wt_in_flight :: usize
  wt_busy_ms :: u64
  wt_quarantined :: bool
  wt_retired :: bool

definition worker_stat_of :: "u64 \<Rightarrow> nat \<Rightarrow> 'c worker_slot \<Rightarrow> worker_stat" where
  "worker_stat_of now index slot =
     \<lparr>wt_index = index, wt_served = sl_served slot, wt_in_flight = sl_in_flight slot,
      wt_busy_ms = (if sl_quarantined slot \<or> sl_in_flight slot = 0 then 0
                    else saturating_sub now (sl_last_started_ms slot)),
      wt_quarantined = sl_quarantined slot, wt_retired = sl_retired slot\<rparr>"

text \<open>\<open>now\<close> is \<open>mono_ms\<close>.\<close>

definition collect_worker_status :: "u64 \<Rightarrow> 'c server_inner \<Rightarrow> worker_stat list" where
  "collect_worker_status now sv =
     map (\<lambda>(index, slot). worker_stat_of now index slot) (enumerate 0 (sv_slots sv))"

record stats_snapshot =
  sn_mode :: string
  sn_lanes :: bool
  sn_workers :: usize
  sn_threads :: usize
  sn_batch :: usize
  sn_respawns :: u64
  sn_queued :: nat
  sn_in_flight :: usize
  sn_served :: u64
  sn_rejected :: u64
  sn_timeouts :: u64
  sn_lane_depths :: "nat list option"
  sn_state :: u8
  sn_worker_status :: "worker_stat list"
  sn_quarantined_count :: nat
  sn_quarantine_replacements :: u64
  sn_max_workers :: usize
  sn_active_workers :: usize
  sn_scale_ups :: u64
  sn_scale_downs :: u64
  sn_queue_histogram :: queue_histogram

text \<open>
  \<open>StatsSnapshot::take\<close>. Requests move on while it reads: \<open>later\<close> is what happens to the server
  between the read of the total and the read of the depths.
\<close>

definition snapshot_take ::
  "('x, 'c) flume \<Rightarrow> ('c server_inner \<Rightarrow> 'c server_inner) \<Rightarrow> u64 \<Rightarrow> 'c server_inner \<Rightarrow> stats_snapshot" where
  "snapshot_take F later now sv =
     (let worker_status = collect_worker_status now sv;
          sv' = later sv
      in \<lparr>sn_mode = tp_mode (sv_topology sv), sn_lanes = sv_lanes sv,
          sn_workers = tp_workers (sv_topology sv), sn_threads = tp_threads (sv_topology sv),
          sn_batch = tp_batch (sv_topology sv), sn_respawns = sv_respawns sv,
          sn_queued = queued F sv, sn_in_flight = sv_in_flight sv, sn_served = sv_served sv,
          sn_rejected = sv_rejected sv, sn_timeouts = sv_timeouts sv,
          sn_lane_depths = lane_depths F sv', sn_state = sv_state sv',
          sn_worker_status = worker_status,
          sn_quarantined_count = length (filter wt_quarantined worker_status),
          sn_quarantine_replacements = sv_quarantine_replacements sv',
          sn_max_workers = tp_max_workers (sv_topology sv'), sn_active_workers = sv_active_workers sv',
          sn_scale_ups = sv_scale_ups sv', sn_scale_downs = sv_scale_downs sv',
          sn_queue_histogram = histogram_snapshot (sv_queue_histogram sv')\<rparr>)"

definition state_name :: "stats_snapshot \<Rightarrow> string" where
  "state_name s =
     (if sn_state s = STATE_READY then ''ready''
      else if sn_state s = STATE_DRAINING then ''draining'' else ''booting'')"

section \<open>JSON\<close>

definition show_word :: "'a::len word \<Rightarrow> string" where
  "show_word w = show_nat (unat w)"

definition worker_json :: "worker_stat \<Rightarrow> string" where
  "worker_json w =
     ''{'' @ field ''index'' (show_nat (wt_index w)) @ '','' @ field ''served'' (show_word (wt_served w))
     @ '','' @ field ''in_flight'' (show_word (wt_in_flight w)) @ '','' @ field ''busy_ms'' (show_word (wt_busy_ms w))
     @ '','' @ field ''quarantined'' (show_bool (wt_quarantined w)) @ '','' @ field ''retired'' (show_bool (wt_retired w))
     @ ''}''"

text \<open>The loop over the workers: a comma before every one but the first.\<close>

fun workers_json :: "nat \<Rightarrow> worker_stat list \<Rightarrow> string" where
  "workers_json i [] = []"
| "workers_json i (w # ws) = (if 0 < i then '','' else []) @ worker_json w @ workers_json (Suc i) ws"

definition stats_json :: "(u64 \<Rightarrow> string) \<Rightarrow> string \<Rightarrow> stats_snapshot \<Rightarrow> string" where
  "stats_json secs version s =
     ''{'' @ field ''mode'' (quoted (sn_mode s)) @ '','' @ field ''lanes'' (show_bool (sn_lanes s))
     @ '','' @ field ''workers'' (show_word (sn_workers s)) @ '','' @ field ''threads'' (show_word (sn_threads s))
     @ '','' @ field ''batch'' (show_word (sn_batch s)) @ '','' @ field ''respawns'' (show_word (sn_respawns s))
     @ '','' @ field ''queued'' (show_nat (sn_queued s)) @ '','' @ field ''in_flight'' (show_word (sn_in_flight s))
     @ '','' @ field ''served'' (show_word (sn_served s)) @ '','' @ field ''rejected'' (show_word (sn_rejected s))
     @ '','' @ field ''timeouts'' (show_word (sn_timeouts s))
     @ '','' @ field ''max_workers'' (show_word (sn_max_workers s))
     @ '','' @ field ''active_workers'' (show_word (sn_active_workers s))
     @ '','' @ field ''scale_ups'' (show_word (sn_scale_ups s))
     @ '','' @ field ''scale_downs'' (show_word (sn_scale_downs s))
     @ (case sn_lane_depths s of None \<Rightarrow> []
        | Some depths \<Rightarrow> '','' @ field ''lane_depths'' (''['' @ join_with_comma (map show_nat depths) @ '']''))
     @ '','' @ field ''worker_status'' (''['' @ workers_json 0 (sn_worker_status s) @ '']'')
     @ '','' @ field ''queue_time'' (''{'' @ field ''count'' (show_word (qh_count (sn_queue_histogram s)))
         @ '','' @ field ''sum_seconds'' (secs (qh_sum_us (sn_queue_histogram s))) @ ''}'')
     @ '','' @ field ''quarantined'' (show_nat (sn_quarantined_count s))
     @ '','' @ field ''state'' (quoted (state_name s)) @ '','' @ field ''version'' (quoted version) @ ''}''"

section \<open>Prometheus text\<close>

definition metric :: "string \<Rightarrow> string \<Rightarrow> string \<Rightarrow> string \<Rightarrow> string" where
  "metric name kind help val =
     ''# HELP '' @ name @ '' '' @ help @ LF @ ''# TYPE '' @ name @ '' '' @ kind @ LF @ name @ '' '' @ val @ LF"

definition sample :: "string \<Rightarrow> string \<Rightarrow> string \<Rightarrow> string \<Rightarrow> string" where
  "sample name label key val = name @ ''{'' @ label @ ''='' @ quoted key @ ''} '' @ val @ LF"

definition series :: "string \<Rightarrow> string \<Rightarrow> string \<Rightarrow> string \<Rightarrow> (string \<times> string) list \<Rightarrow> string" where
  "series name kind help label rows =
     ''# HELP '' @ name @ '' '' @ help @ LF @ ''# TYPE '' @ name @ '' '' @ kind @ LF
     @ concat (map (\<lambda>(key, val). sample name label key val) rows)"

definition server_metrics :: "stats_snapshot \<Rightarrow> string" where
  "server_metrics s =
     metric ''kino_requests_served_total'' ''counter'' ''Requests handed to Ruby workers.'' (show_word (sn_served s))
     @ metric ''kino_requests_rejected_total'' ''counter'' ''Requests rejected with a 503.'' (show_word (sn_rejected s))
     @ metric ''kino_request_timeouts_total'' ''counter'' ''Responses past the request timeout (client got a 504).''
         (show_word (sn_timeouts s))
     @ metric ''kino_worker_respawns_total'' ''counter'' ''Crashed workers respawned by the supervisor.''
         (show_word (sn_respawns s))
     @ metric ''kino_queue_depth'' ''gauge'' ''Requests waiting for a worker.'' (show_nat (sn_queued s))
     @ metric ''kino_requests_in_flight'' ''gauge'' ''Requests currently inside Ruby workers.'' (show_word (sn_in_flight s))
     @ metric ''kino_workers'' ''gauge'' ''Configured worker count.'' (show_word (sn_workers s))
     @ metric ''kino_threads_per_worker'' ''gauge'' ''Configured threads per worker.'' (show_word (sn_threads s))
     @ metric ''kino_max_workers'' ''gauge'' ''Worker pool ceiling (equals kino_workers for a fixed pool).''
         (show_word (sn_max_workers s))
     @ metric ''kino_active_workers'' ''gauge'' ''Workers currently alive and serving.'' (show_word (sn_active_workers s))
     @ metric ''kino_scale_ups_total'' ''counter'' ''Workers added by the pool scaler.'' (show_word (sn_scale_ups s))
     @ metric ''kino_scale_downs_total'' ''counter'' ''Idle workers retired by the pool scaler.'' (show_word (sn_scale_downs s))
     @ metric ''kino_ready'' ''gauge'' ''1 when serving, 0 while booting or draining.''
         (if sn_state s = STATE_READY then ''1'' else ''0'')"

definition worker_metrics :: "stats_snapshot \<Rightarrow> string" where
  "worker_metrics s =
     (let rows = (\<lambda>f. map (\<lambda>w. (show_nat (wt_index w), f w)) (sn_worker_status s)) in
      (case sn_lane_depths s of None \<Rightarrow> []
       | Some depths \<Rightarrow>
           series ''kino_lane_depth'' ''gauge'' ''Queued requests in each worker lane.'' ''lane''
             (map (\<lambda>(lane, depth). (show_nat lane, show_nat depth)) (enumerate 0 depths)))
      @ series ''kino_worker_requests_served_total'' ''counter'' ''Requests handed to each dispatch slot.'' ''worker''
          (rows (\<lambda>w. show_word (wt_served w)))
      @ series ''kino_worker_in_flight'' ''gauge'' ''Requests executing in each dispatch slot.'' ''worker''
          (rows (\<lambda>w. show_word (wt_in_flight w)))
      @ series ''kino_worker_busy_ms'' ''gauge'' ''Age in ms of the current in-flight request per slot (0 when idle).'' ''worker''
          (rows (\<lambda>w. show_word (wt_busy_ms w)))
      @ metric ''kino_quarantined_workers'' ''gauge'' ''Dispatch slots abandoned as wedged.''
          (show_nat (sn_quarantined_count s))
      @ metric ''kino_quarantine_replacements_total'' ''counter'' ''Replacement workers spawned after a wedge.''
          (show_word (sn_quarantine_replacements s)))"

text \<open>The loop over the buckets, with the running total.\<close>

fun bucket_lines :: "(u64 \<Rightarrow> string) \<Rightarrow> (u64 \<times> u64) list \<Rightarrow> u64 \<Rightarrow> string \<times> u64" where
  "bucket_lines secs [] cumulative = ([], cumulative)"
| "bucket_lines secs ((bound_us, n) # bs) cumulative =
     (let cumulative = cumulative + n;
          (out, total) = bucket_lines secs bs cumulative
      in (sample ''kino_request_queue_seconds_bucket'' ''le'' (secs bound_us) (show_word cumulative) @ out, total))"

definition histogram_metrics :: "(u64 \<Rightarrow> string) \<Rightarrow> queue_histogram \<Rightarrow> string" where
  "histogram_metrics secs h =
     (let (out, cumulative) =
            bucket_lines secs (map (\<lambda>i. (QUEUE_BOUNDS_US ! i, qh_buckets h ! i)) [0..<length QUEUE_BOUNDS_US]) 0;
          total = cumulative + qh_overflow h
      in ''# HELP kino_request_queue_seconds Seconds requests waited in the queue before a worker admitted them.''
         @ LF @ ''# TYPE kino_request_queue_seconds histogram'' @ LF
         @ out
         @ sample ''kino_request_queue_seconds_bucket'' ''le'' ''+Inf'' (show_word total)
         @ ''kino_request_queue_seconds_sum '' @ secs (qh_sum_us h) @ LF
         @ ''kino_request_queue_seconds_count '' @ show_word total @ LF)"

definition metrics_text :: "(u64 \<Rightarrow> string) \<Rightarrow> stats_snapshot \<Rightarrow> string" where
  "metrics_text secs s = server_metrics s @ worker_metrics s @ histogram_metrics secs (sn_queue_histogram s)"

section \<open>Routes\<close>

unbundle bit_operations_syntax

fun diff_bytes :: "bytes \<Rightarrow> bytes \<Rightarrow> u8 \<Rightarrow> u8" where
  "diff_bytes (e # es) (p # ps) diff = diff_bytes es ps (diff OR ((of_char e :: u8) XOR of_char p))"
| "diff_bytes _ _ diff = diff"

definition token_ok :: "string \<Rightarrow> string option \<Rightarrow> bool" where
  "token_ok expected authorization =
     (let presented = (case authorization of None \<Rightarrow> []
            | Some h \<Rightarrow> (case strip_prefix ''Bearer '' h of None \<Rightarrow> [] | Some t \<Rightarrow> t))
      in if length expected \<noteq> length presented then False else diff_bytes expected presented 0 = 0)"

definition route ::
  "(u64 \<Rightarrow> string) \<Rightarrow> string \<Rightarrow> string \<Rightarrow> string \<Rightarrow> string option \<Rightarrow> string option \<Rightarrow> stats_snapshot
     \<Rightarrow> u16 \<times> string \<times> string" where
  "route secs version method path authorization token snapshot =
     (if method \<noteq> ''GET'' \<and> method \<noteq> ''HEAD'' then (405, ''text/plain'', ''method not allowed'' @ LF)
      else
        let path = takeWhile (\<lambda>c. c \<noteq> CHR ''?'') path
        in if path = ''/live'' then (200, ''text/plain'', ''ok'' @ LF)
           else if path = ''/ready'' then
             (if sn_state snapshot = STATE_READY then (200, ''text/plain'', ''ok'' @ LF)
              else (503, ''text/plain'', state_name snapshot @ LF))
           else if path = ''/stats'' \<or> path = ''/metrics'' then
             (if (case token of None \<Rightarrow> False | Some expected \<Rightarrow> \<not> token_ok expected authorization)
              then (401, ''text/plain'', ''unauthorized'' @ LF)
              else if path = ''/stats'' then (200, ''application/json'', stats_json secs version snapshot)
              else (200, ''text/plain; version=0.0.4'', metrics_text secs snapshot))
           else (404, ''text/plain'', ''not found'' @ LF))"

text \<open>
  \<open>HeaderValue::to_str\<close>: visible ASCII, space and tab. \<open>handle\<close> answers every request; the
  authorization it checks is the first one.
\<close>

definition header_to_str :: "bytes \<Rightarrow> string option" where
  "header_to_str v =
     (if \<forall>c \<in> set v. (of_char c :: nat) = 9 \<or> 32 \<le> (of_char c :: nat) \<and> (of_char c :: nat) < 127 then Some v else None)"

definition control_handle ::
  "('x, 'c) flume \<Rightarrow> ('c server_inner \<Rightarrow> 'c server_inner) \<Rightarrow> u64 \<Rightarrow> 'h header_ops \<Rightarrow> (u64 \<Rightarrow> string) \<Rightarrow> string
     \<Rightarrow> 'c server_inner \<Rightarrow> string option \<Rightarrow> string \<Rightarrow> string \<Rightarrow> 'h \<Rightarrow> 'h response option" where
  "control_handle F later now H secs version sv token method path headers =
     (let authorization = Option.bind (hm_get H headers ''authorization'') header_to_str;
          snapshot = snapshot_take F later now sv
      in case route secs version method path authorization token snapshot of
           (status, content_type, body) \<Rightarrow>
             let b = builder_header H (builder_status H status) ''content-type'' content_type;
                 b = (if status = 401 then builder_header H b ''www-authenticate'' ''Bearer'' else b)
             in builder_body b (FullBody (if method = ''HEAD'' then [] else body)))"

section \<open>Lemmas\<close>

lemma of_char_word_inj: "(of_char a :: u8) = of_char b \<longleftrightarrow> a = b"
proof
  assume "(of_char a :: u8) = of_char b"
  then have "unat (of_nat (of_char a) :: u8) = unat (of_nat (of_char b) :: u8)"
    by (simp only: of_nat_of_char)
  then have "(of_char a :: nat) = of_char b" by (simp only: unat_of_nat) simp
  then show "a = b" by simp
qed simp

lemma xor_zero: "(a :: u8) XOR b = 0 \<longleftrightarrow> a = b"
  by (metis xor.right_neutral xor_self_eq bit.xor_left_self)

lemma diff_bytes_zero:
  "length es = length ps \<Longrightarrow> diff_bytes es ps diff = 0 \<longleftrightarrow> diff = 0 \<and> es = ps"
  by (induction es ps diff rule: diff_bytes.induct) (auto simp: or_eq_0_iff xor_zero of_char_word_inj)

text \<open>The presented token is the rest of the header after the scheme, and empty without one.\<close>

lemma token_ok_iff:
  "token_ok expected auth \<longleftrightarrow>
     auth = Some (''Bearer '' @ expected) \<or> expected = [] \<and> (\<forall>t. auth \<noteq> Some (''Bearer '' @ t))"
proof (cases auth)
  case None
  then show ?thesis by (auto simp: token_ok_def diff_bytes_zero)
next
  case (Some h)
  show ?thesis
  proof (cases "strip_prefix ''Bearer '' h")
    case None
    then have "h \<noteq> ''Bearer '' @ t" for t using strip_prefix_Some[of "''Bearer ''" h t] by auto
    with Some None show ?thesis by (auto simp: token_ok_def)
  next
    case (Some t)
    then have "h = ''Bearer '' @ t" using strip_prefix_Some by blast
    with \<open>auth = Some h\<close> Some show ?thesis by (auto simp: token_ok_def diff_bytes_zero simp del: strip_prefix_Some strip_prefix.simps append.simps)
  qed
qed

lemma join_cons: "join_with_comma (x # xs) = x @ concat (map (\<lambda>y. '','' @ y) xs)"
  by (induction xs arbitrary: x) simp_all

text \<open>The object a client of \<open>/stats\<close> reads.\<close>

definition num :: "'a::len word \<Rightarrow> json" where
  "num w = JTok (show_word w)"

definition worker_value :: "worker_stat \<Rightarrow> json" where
  "worker_value w = JObj [(''index'', JTok (show_nat (wt_index w))), (''served'', num (wt_served w)),
     (''in_flight'', num (wt_in_flight w)), (''busy_ms'', num (wt_busy_ms w)),
     (''quarantined'', JTok (show_bool (wt_quarantined w))), (''retired'', JTok (show_bool (wt_retired w)))]"

definition stats_value :: "(u64 \<Rightarrow> string) \<Rightarrow> string \<Rightarrow> stats_snapshot \<Rightarrow> json" where
  "stats_value secs version s = JObj (
     [(''mode'', JStr (sn_mode s)), (''lanes'', JTok (show_bool (sn_lanes s))), (''workers'', num (sn_workers s)),
      (''threads'', num (sn_threads s)), (''batch'', num (sn_batch s)), (''respawns'', num (sn_respawns s)),
      (''queued'', JTok (show_nat (sn_queued s))), (''in_flight'', num (sn_in_flight s)), (''served'', num (sn_served s)),
      (''rejected'', num (sn_rejected s)), (''timeouts'', num (sn_timeouts s)), (''max_workers'', num (sn_max_workers s)),
      (''active_workers'', num (sn_active_workers s)), (''scale_ups'', num (sn_scale_ups s)),
      (''scale_downs'', num (sn_scale_downs s))]
     @ (case sn_lane_depths s of None \<Rightarrow> []
        | Some depths \<Rightarrow> [(''lane_depths'', JArr (map (\<lambda>d. JTok (show_nat d)) depths))])
     @ [(''worker_status'', JArr (map worker_value (sn_worker_status s))),
        (''queue_time'', JObj [(''count'', num (qh_count (sn_queue_histogram s))),
           (''sum_seconds'', JTok (secs (qh_sum_us (sn_queue_histogram s))))]),
        (''quarantined'', JTok (show_nat (sn_quarantined_count s))), (''state'', JStr (state_name s)),
        (''version'', JStr version)])"

lemma worker_json_render: "worker_json w = render (worker_value w)"
  by (simp add: worker_json_def worker_value_def num_def)

lemma workers_json_Suc: "workers_json (Suc i) ws = concat (map (\<lambda>w. '','' @ worker_json w) ws)"
  by (induction ws arbitrary: i) simp_all

lemma workers_json_render: "workers_json 0 ws = join_with_comma (map render (map worker_value ws))"
  by (cases ws) (simp_all add: workers_json_Suc join_cons worker_json_render o_def)

lemma stats_json_render: "stats_json secs version s = render (stats_value secs version s)"
  by (cases "sn_lane_depths s")
    (simp_all add: stats_json_def stats_value_def num_def workers_json_render o_def)

lemma digit_tok [simp]: "d < 10 \<Longrightarrow> tok_char (digit d) \<and> plain (digit d)"
proof -
  assume d: "d < 10"
  then have v: "of_char (digit d) = (48 + d :: nat)" by (simp add: digit_def)
  have "digit d \<noteq> c" if "of_char c < (48 :: nat) \<or> 58 \<le> (of_char c :: nat)" for c
    using v d that by auto
  then show ?thesis using v by (simp add: tok_char_def plain_def)
qed

lemma show_nat_tok [simp]: "list_all tok_char (show_nat n)"
  unfolding list_all_iff by (metis digit_tok show_nat_chars)

lemma show_bool_tok [simp]: "list_all tok_char (show_bool b)" "show_bool b \<noteq> []"
  by (simp_all add: show_bool_def tok_char_def)

lemma wf_num [simp]: "wf_json (num w)"
  by (simp add: num_def show_word_def)

lemma wf_worker_value [simp]: "wf_json (worker_value w)"
  by (simp add: worker_value_def plain_def)

lemma state_name_plain [simp]: "list_all plain (state_name s)"
  by (simp add: state_name_def plain_def)

lemma plain_chars [simp]:
  "plain (CHR ''a'')" "plain (CHR ''b'')" "plain (CHR ''c'')" "plain (CHR ''d'')" "plain (CHR ''e'')"
  "plain (CHR ''f'')" "plain (CHR ''g'')" "plain (CHR ''h'')" "plain (CHR ''i'')" "plain (CHR ''j'')"
  "plain (CHR ''k'')" "plain (CHR ''l'')" "plain (CHR ''m'')" "plain (CHR ''n'')" "plain (CHR ''o'')"
  "plain (CHR ''p'')" "plain (CHR ''q'')" "plain (CHR ''r'')" "plain (CHR ''s'')" "plain (CHR ''t'')"
  "plain (CHR ''u'')" "plain (CHR ''v'')" "plain (CHR ''w'')" "plain (CHR ''x'')" "plain (CHR ''y'')"
  "plain (CHR ''z'')" "plain (CHR ''_'')"
  by (simp_all add: plain_def)

lemma wf_stats_value:
  assumes "list_all plain (sn_mode s)" "list_all plain version" "\<And>us. secs us \<noteq> [] \<and> list_all tok_char (secs us)"
  shows "wf_json (stats_value secs version s)"
  using assms by (cases "sn_lane_depths s") (simp_all add: stats_value_def list.pred_map o_def list.pred_True)

lemma bucket_lines_spec:
  "bucket_lines secs bs c =
     (concat (map (\<lambda>i. sample ''kino_request_queue_seconds_bucket'' ''le'' (secs (fst (bs ! i)))
         (show_word (c + sum_list (take (Suc i) (map snd bs))))) [0..<length bs]), c + sum_list (map snd bs))"
proof (induction bs arbitrary: c)
  case (Cons b bs)
  obtain bound n where b: "b = (bound, n)" by force
  have u: "[0..<length (b # bs)] = 0 # map Suc [0..<length bs]"
    by (simp add: upt_conv_Cons map_Suc_upt del: upt_Suc)
  show ?case
    unfolding u by (simp add: b Cons.IH o_def algebra_simps)
qed simp

section \<open>Properties\<close>


definition example_stats :: stats_snapshot where
  "example_stats = snapshot_take list_flume id 7
     (example_server [(example_slot [1, 2] True False 0)\<lparr>sl_in_flight := 1, sl_last_started_ms := 4\<rparr>])"

lemma example_mode: "sn_mode example_stats = ''threaded''"
  by (simp add: example_stats_def snapshot_take_def example_server_def server_inner_new_def example_config_def Let_def)


text \<open>
  C34: who gets to see what. Only GET and HEAD are served. The probes answer without
  credentials, and \<open>/ready\<close> answers 200 exactly in the ready state. With a token configured, the statistics
  are shown to exactly the requests that present it; any other request gets a 401 that does not
  depend on the server's state. (An empty token also admits requests without one.)
\<close>

theorem control_access:
  "let base = takeWhile (\<lambda>c. c \<noteq> CHR ''?'') path; r = route secs version method path auth token s in
     (method \<notin> {''GET'', ''HEAD''} \<longrightarrow> fst r = 405)
   \<and> (method \<in> {''GET'', ''HEAD''} \<longrightarrow>
       (base = ''/live'' \<longrightarrow> fst r = 200)
     \<and> (base = ''/ready'' \<longrightarrow> fst r = (if sn_state s = STATE_READY then 200 else 503))
     \<and> (base \<in> {''/stats'', ''/metrics''} \<longrightarrow>
          (if \<forall>t. token = Some t \<longrightarrow> auth = Some (''Bearer '' @ t) \<or> t = [] \<and> (\<forall>u. auth \<noteq> Some (''Bearer '' @ u))
           then fst r = 200 \<and> snd (snd r) = (if base = ''/stats'' then stats_json secs version s else metrics_text secs s)
           else r = (401, ''text/plain'', ''unauthorized'' @ LF)))
     \<and> (base \<notin> {''/live'', ''/ready'', ''/stats'', ''/metrics''} \<longrightarrow> fst r = 404))
   \<and> (base \<in> {''/live'', ''/ready''} \<longrightarrow> r = route secs version method path None None s)"
proof -
  have t: "(case token of None \<Rightarrow> False | Some expected \<Rightarrow> \<not> token_ok expected auth) \<longleftrightarrow>
      \<not> (\<forall>t. token = Some t \<longrightarrow> auth = Some (''Bearer '' @ t) \<or> t = [] \<and> (\<forall>u. auth \<noteq> Some (''Bearer '' @ u)))"
    by (cases token) (simp_all only: token_ok_iff option.case, auto)
  show ?thesis
    unfolding Let_def route_def t
    by (intro conjI impI) (auto simp del: append.simps)
qed

theorem control_access_witness:
  "fst (route (\<lambda>_. ''0'') ''0.1.0'' ''GET'' ''/stats?x'' (Some ''Bearer abc'') (Some ''abc'') example_stats) = 200
   \<and> fst (route (\<lambda>_. ''0'') ''0.1.0'' ''GET'' ''/metrics'' None (Some ''abc'') example_stats) = 401"
  using control_access[of "''/stats?x''" "\<lambda>_. ''0''" "''0.1.0''" "''GET''" "Some ''Bearer abc''" "Some ''abc''" example_stats]
    control_access[of "''/metrics''" "\<lambda>_. ''0''" "''0.1.0''" "''GET''" None "Some ''abc''" example_stats]
  by (simp add: Let_def)

text \<open>
  C36: the control handler answers every request: its response always builds, with the status and type of
  the route, no body for HEAD, and a challenge exactly with a 401. The library accepts the
  static parts.
\<close>

theorem control_handle_answers:
  assumes "header_map H" "\<And>n v. n \<in> {''content-type'', ''www-authenticate''} \<Longrightarrow>
      v \<in> {''text/plain'', ''application/json'', ''text/plain; version=0.0.4'', ''Bearer''} \<Longrightarrow> hm_valid H n v"
    and "\<And>st. st \<in> {200, 401, 404, 405, 503} \<Longrightarrow> hm_status_ok H st"
  shows "\<exists>resp st ct body. control_handle F later now H secs version sv token method path headers = Some resp
    \<and> route secs version method path (Option.bind (hm_get H headers ''authorization'') header_to_str) token
        (snapshot_take F later now sv) = (st, ct, body)
    \<and> rs_status resp = st \<and> rs_body resp = FullBody (if method = ''HEAD'' then [] else body)
    \<and> hm_get_all H (rs_headers resp) ''content-type'' = [ct]
    \<and> hm_get_all H (rs_headers resp) ''www-authenticate'' = (if st = 401 then [''Bearer''] else [])"
proof -
  let ?auth = "Option.bind (hm_get H headers ''authorization'') header_to_str" and ?s = "snapshot_take F later now sv"
  obtain st ct body where r: "route secs version method path ?auth token ?s = (st, ct, body)" by (metis prod_cases3)
  then have st: "st \<in> {200, 401, 404, 405, 503}" and ct: "ct \<in> {''text/plain'', ''application/json'', ''text/plain; version=0.0.4''}"
    by (auto simp: route_def Let_def simp del: append.simps split: if_splits)
  have low: "map ascii_lower ''content-type'' = ''content-type''" "map ascii_lower ''www-authenticate'' = ''www-authenticate''"
    by (simp_all add: ascii_lower_def)
  note app = header_map.get_all_append[OF assms(1), where n = "''content-type''", unfolded low]
    header_map.get_all_append[OF assms(1), where n = "''www-authenticate''", unfolded low]
  have v: "hm_valid H ''content-type'' ct" "hm_valid H ''www-authenticate'' ''Bearer''" "hm_status_ok H st"
    using assms(2)[of "''content-type''" ct] assms(2)[of "''www-authenticate''" "''Bearer''"] assms(3)[OF st] ct by auto
  have "\<exists>resp. control_handle F later now H secs version sv token method path headers = Some resp
    \<and> rs_status resp = st \<and> rs_body resp = FullBody (if method = ''HEAD'' then [] else body)
    \<and> hm_get_all H (rs_headers resp) ''content-type'' = [ct]
    \<and> hm_get_all H (rs_headers resp) ''www-authenticate'' = (if st = 401 then [''Bearer''] else [])"
    using v by (cases "st = 401") (simp_all add: control_handle_def r Let_def builder_status_def builder_header_def
        builder_body_def app header_map.get_all_empty[OF assms(1)])
  with r show ?thesis by blast
qed

theorem control_handle_answers_witness:
  "\<exists>resp. control_handle list_flume id 7 list_headers (\<lambda>_. ''0'') ''0.1.0'' (example_server []) (Some ''abc'') ''HEAD'' ''/stats'' []
     = Some resp \<and> rs_status resp = 401 \<and> rs_body resp = FullBody []"
proof -
  have r: "route (\<lambda>_. ''0'') ''0.1.0'' ''HEAD'' ''/stats'' None (Some ''abc'') (snapshot_take list_flume id 7 (example_server []))
      = (401, ''text/plain'', ''unauthorized'' @ LF)"
    by (simp add: route_def token_ok_def)
  have h: "Option.bind (hm_get list_headers [] ''authorization'') header_to_str = None"
    by (simp add: hm_get_def list_headers_def)
  have valid: "hm_valid list_headers n v" if "n \<in> {''content-type'', ''www-authenticate''}"
      "v \<in> {''text/plain'', ''application/json'', ''text/plain; version=0.0.4'', ''Bearer''}" for n v
    using that by (auto simp: list_headers_def)
  have status: "hm_status_ok list_headers st" if "st \<in> {200, 401, 404, 405, 503}" for st
    using that by (auto simp: list_headers_def)
  obtain resp st ct body where "control_handle list_flume id 7 list_headers (\<lambda>_. ''0'') ''0.1.0'' (example_server []) (Some ''abc'') ''HEAD'' ''/stats'' [] = Some resp"
      "route (\<lambda>_. ''0'') ''0.1.0'' ''HEAD'' ''/stats'' None (Some ''abc'') (snapshot_take list_flume id 7 (example_server [])) = (st, ct, body)"
      "rs_status resp = st" "rs_body resp = FullBody []"
    using control_handle_answers[OF list_hm.header_map_axioms valid status, of list_flume id 7 "\<lambda>_. ''0''" "''0.1.0''" "example_server []" "Some ''abc''" "''HEAD''" "''/stats''" "[]"]
    unfolding h by auto
  with r show ?thesis by simp
qed

text \<open>
  C35: the queue-wait histogram in the metrics is that of the waits recorded: the line of each bound
  counts the waits up to it, and the \<open>+Inf\<close> bucket and the count are the number of waits.
\<close>

theorem metrics_histogram:
  assumes "length ws < 2 ^ 64"
  shows "histogram_metrics secs (histogram_snapshot (fold histogram_record ws histogram_new)) =
     ''# HELP kino_request_queue_seconds Seconds requests waited in the queue before a worker admitted them.''
     @ LF @ ''# TYPE kino_request_queue_seconds histogram'' @ LF
     @ concat (map (\<lambda>b. sample ''kino_request_queue_seconds_bucket'' ''le'' (secs b)
         (show_nat (length (filter (\<lambda>w. w \<le> b) ws)))) QUEUE_BOUNDS_US)
     @ sample ''kino_request_queue_seconds_bucket'' ''le'' ''+Inf'' (show_nat (length ws))
     @ ''kino_request_queue_seconds_sum '' @ secs (sum_list ws) @ LF
     @ ''kino_request_queue_seconds_count '' @ show_nat (length ws) @ LF"
proof -
  let ?h = "fold histogram_record ws histogram_new"
  let ?bs = "map (\<lambda>i. (QUEUE_BOUNDS_US ! i, qh_buckets ?h ! i)) [0..<length QUEUE_BOUNDS_US]"
  note f = histogram_fold[of histogram_new ws, simplified]
  have len: "length (qh_buckets ?h) = 14" using f by simp
  have snd: "map snd ?bs = qh_buckets ?h"
    using len by (simp add: list_eq_iff_nth_eq)
  have shown: "show_word (of_nat (length (filter P ws)) :: u64) = show_nat (length (filter P ws))" for P
    using assms le_less_trans[OF length_filter_le[of P ws]] by (simp add: show_word_def)
  have lines: "map (\<lambda>i. sample ''kino_request_queue_seconds_bucket'' ''le'' (secs (fst (?bs ! i)))
        (show_word (0 + sum_list (take (Suc i) (map snd ?bs))))) [0..<length ?bs]
      = map (\<lambda>b. sample ''kino_request_queue_seconds_bucket'' ''le'' (secs b) (show_nat (length (filter (\<lambda>w. w \<le> b) ws))))
          QUEUE_BOUNDS_US"
    unfolding snd by (rule nth_equalityI) (simp_all add: histogram_cumulative shown)
  have total: "0 + sum_list (map snd ?bs) + qh_overflow ?h = of_nat (length ws)"
    unfolding snd using histogram_total[of ws] by simp
  have snap: "histogram_snapshot ?h = ?h" using len by (rule snapshot_same)
  have sums: "qh_sum_us ?h = sum_list ws" using f by simp
  have count: "show_word (of_nat (length ws) :: u64) = show_nat (length ws)" using assms by (simp add: show_word_def)
  show ?thesis
    by (simp only: histogram_metrics_def snap bucket_lines_spec lines Let_def prod.case total sums count)
qed

theorem metrics_histogram_witness:
  "histogram_metrics (\<lambda>_. ''0'') (histogram_snapshot (fold histogram_record [5, 20000000] histogram_new)) =
     ''# HELP kino_request_queue_seconds Seconds requests waited in the queue before a worker admitted them.''
     @ LF @ ''# TYPE kino_request_queue_seconds histogram'' @ LF
     @ concat (map (\<lambda>b. sample ''kino_request_queue_seconds_bucket'' ''le'' ''0''
         (show_nat (length (filter (\<lambda>w. w \<le> b) [5, 20000000])))) QUEUE_BOUNDS_US)
     @ sample ''kino_request_queue_seconds_bucket'' ''le'' ''+Inf'' (show_nat (length [5, 20000000 :: u64]))
     @ ''kino_request_queue_seconds_sum '' @ ''0'' @ LF @ ''kino_request_queue_seconds_count '' @ show_nat (length [5, 20000000 :: u64]) @ LF"
  by (rule metrics_histogram[of "[5, 20000000]" "\<lambda>_. ''0''"]) simp

text \<open>
  At rest a snapshot is consistent: the total is the shared queue plus the reported lane
  depths, and each worker reports its own slot, busy for as long as its current request has
  run and idle when it is quarantined or has none.
\<close>

theorem snapshot_consistent:
  fixes sv :: "'b server_inner"
  shows "let s = snapshot_take F id now sv in
     sn_queued s = ch_len F (sv_req sv) + (case sn_lane_depths s of None \<Rightarrow> 0 | Some d \<Rightarrow> sum_list d)
   \<and> length (sn_worker_status s) = length (sv_slots sv)
   \<and> sn_quarantined_count s = length (filter sl_quarantined (sv_slots sv))
   \<and> (\<forall>i < length (sv_slots sv). let w = sn_worker_status s ! i; slot = sv_slots sv ! i in
        wt_index w = i \<and> wt_served w = sl_served slot \<and> wt_in_flight w = sl_in_flight slot
        \<and> unat (wt_busy_ms w) = (if sl_quarantined slot \<or> sl_in_flight slot = 0 then 0
             else unat now - unat (sl_last_started_ms slot)))"
proof -
  have m: "map (\<lambda>(index, slot). worker_stat_of now index slot) (enumerate i xs) =
      map2 (worker_stat_of now) [i..<i + length xs] xs" for i and xs :: "'b worker_slot list"
    by (simp add: enumerate_eq_zip)
  have q: "length (filter wt_quarantined (map2 (worker_stat_of now) [i..<i + length xs] xs))
      = length (filter sl_quarantined xs)" for i and xs :: "'b worker_slot list"
  proof (induction xs arbitrary: i)
    case (Cons x xs)
    have "[i..<i + length (x # xs)] = i # [Suc i..<Suc i + length xs]" by (simp add: upt_conv_Cons del: upt_Suc)
    with Cons[of "Suc i"] show ?case by (simp add: worker_stat_of_def)
  qed simp
  show ?thesis
    using q[of 0 "sv_slots sv"] m[of 0 "sv_slots sv"]
    by (auto simp: snapshot_take_def Let_def queued_def collect_worker_status_def worker_stat_of_def
        nth_enumerate_eq unat_saturating_sub)
qed

theorem snapshot_consistent_witness:
  "sn_queued example_stats = 2 \<and> sn_lane_depths example_stats = Some [2]
   \<and> map (\<lambda>w. unat (wt_busy_ms w)) (sn_worker_status example_stats) = [3]"
proof -
  let ?sv = "example_server [(example_slot [1, 2] True False 0)\<lparr>sl_in_flight := 1, sl_last_started_ms := 4\<rparr>]"
  have d: "sn_lane_depths example_stats = Some [2]"
    by (simp add: example_stats_def snapshot_take_def Let_def lane_depths_def example_server_def server_inner_new_def
        example_config_def example_slot_def worker_slot_new_def example_lane_def list_flume_def map_filter_def)
  have "length (sv_slots ?sv) = 1" "ch_len list_flume (sv_req ?sv) = 0"
    by (simp_all add: example_server_def server_inner_new_def list_flume_def)
  with snapshot_consistent[of list_flume 7 ?sv, folded example_stats_def] d show ?thesis
    by (auto simp: Let_def example_server_def example_slot_def worker_slot_new_def length_Suc_conv)
qed

text \<open>
  Under load a snapshot may be torn: a request taken between the two reads makes the
  total differ from the queue and the lanes it reports.
\<close>

theorem snapshot_torn:
  "\<exists>later. let sv = example_server [example_slot [1, 2] True False 0]; s = snapshot_take list_flume later 7 sv in
     sn_queued s = 2 \<and> ch_len list_flume (sv_req sv) = 0 \<and> sn_lane_depths s = Some [1]"
  by (rule exI[of _ "\<lambda>_. example_server [example_slot [2] True False 0]"])
    (simp add: snapshot_take_def Let_def queued_def lane_depths_def example_server_def server_inner_new_def
      example_config_def example_slot_def worker_slot_new_def example_lane_def list_flume_def map_filter_def)

end
