(* ===== verification/Kino_Lifecycle.thy ===== *)
theory Kino_Lifecycle
  imports Kino_Queue Kino_Control
begin

text \<open>
  The lifecycle natives (\<open>ext/kino/src/server.rs\<close>): what the Ruby supervisor calls by
  server id to register, retire and abort workers, to drain and shut down a server, and to
  read its counters.

  The state is the table of servers, the responders that are still alive (\<open>None\<close> for one
  whose last owner is gone), and the unix sockets in the file system.
\<close>

section \<open>State\<close>

record ('c, 'o, 'f) world =
  wd_registry :: "'c server_inner registry"
  wd_responders :: "nat \<Rightarrow> ('o, 'f) responder option"
  wd_sockets :: "string set"

definition put_server :: "'c server_inner \<Rightarrow> ('c, 'o, 'f) world \<Rightarrow> ('c, 'o, 'f) world" where
  "put_server sv W = W\<lparr>wd_registry := registry_insert sv (wd_registry W)\<rparr>"

text \<open>The common shape of a native: do something to the server, if it is still there.\<close>

definition on_server ::
  "u64 \<Rightarrow> ('c server_inner \<Rightarrow> 'c server_inner) \<Rightarrow> ('c, 'o, 'f) world \<Rightarrow> ('c, 'o, 'f) world" where
  "on_server i f W = (case try_get i (wd_registry W) of None \<Rightarrow> W | Some sv \<Rightarrow> put_server (f sv) W)"

definition on_worker ::
  "u64 \<Rightarrow> nat \<Rightarrow> ('c worker_slot \<Rightarrow> 'c worker_slot) \<Rightarrow> ('c, 'o, 'f) world
     \<Rightarrow> ('c, 'o, 'f) world \<times> (kino_error + unit)" where
  "on_worker i w f W =
     (case try_get i (wd_registry W) of
        None \<Rightarrow> (W, Inr ())
      | Some sv \<Rightarrow> (case slot_ref sv w of Inl e \<Rightarrow> (W, Inl e) | Inr _ \<Rightarrow> (put_server (on_slot w f sv) W, Inr ())))"

section \<open>Registration and draining\<close>

definition register_worker ::
  "('x, 'c) flume \<Rightarrow> u64 \<Rightarrow> ('c, 'o, 'f) world \<Rightarrow> ('c, 'o, 'f) world \<times> (kino_error + nat)" where
  "register_worker F i W =
     (case registry_get i (wd_registry W) of
        Inl e \<Rightarrow> (W, Inl e)
      | Inr sv \<Rightarrow> (case server_register_worker F sv of (sv', w) \<Rightarrow> (put_server sv' W, Inr w)))"

definition stop_accepting :: "u64 \<Rightarrow> ('c, 'o, 'f) world \<Rightarrow> ('c, 'o, 'f) world" where
  "stop_accepting i = on_server i (\<lambda>sv. sv\<lparr>sv_state := STATE_DRAINING, sv_shutdown := True\<rparr>)"

definition control_ready :: "u64 \<Rightarrow> ('c, 'o, 'f) world \<Rightarrow> ('c, 'o, 'f) world" where
  "control_ready i = on_server i (\<lambda>sv. sv\<lparr>sv_state := STATE_READY\<rparr>)"

definition record_respawn :: "u64 \<Rightarrow> ('c, 'o, 'f) world \<Rightarrow> ('c, 'o, 'f) world" where
  "record_respawn i = on_server i (\<lambda>sv. sv\<lparr>sv_respawns := sv_respawns sv + 1\<rparr>)"

text \<open>Taking a sender out of its lock drops it.\<close>

definition close_req :: "('x, 'c) flume \<Rightarrow> 'c server_inner \<Rightarrow> 'c server_inner" where
  "close_req F sv =
     (if sv_req_tx sv then sv\<lparr>sv_req_tx := False, sv_req := ch_drop_sender F (sv_req sv)\<rparr> else sv)"

definition close_lane :: "('x, 'c) flume \<Rightarrow> 'c worker_slot \<Rightarrow> 'c worker_slot" where
  "close_lane F s =
     (if sl_lane_tx s then s\<lparr>sl_lane_tx := False, sl_lane := map_option (ch_drop_sender F) (sl_lane s)\<rparr> else s)"

definition close_queue :: "('x, 'c) flume \<Rightarrow> u64 \<Rightarrow> ('c, 'o, 'f) world \<Rightarrow> ('c, 'o, 'f) world" where
  "close_queue F i =
     on_server i (\<lambda>sv. let sv = close_req F sv in sv\<lparr>sv_slots := map (close_lane F) (sv_slots sv)\<rparr>)"

definition queue_stats :: "('x, 'c) flume \<Rightarrow> u64 \<Rightarrow> ('c, 'o, 'f) world \<Rightarrow> nat \<times> usize" where
  "queue_stats F i W =
     (case try_get i (wd_registry W) of None \<Rightarrow> (0, 0) | Some sv \<Rightarrow> (queued F sv, sv_in_flight sv))"

section \<open>Aborting\<close>

text \<open>
  Answering a responder that may be gone. On a full response channel the call blocks
  (\<open>respond_500_if_unsent\<close>), and what follows it does not happen.
\<close>

definition answer ::
  "'h header_ops \<Rightarrow> ('h response, 'o) oneshot \<Rightarrow> (frame_result, 'f) flume \<Rightarrow> nat
     \<Rightarrow> (nat \<Rightarrow> ('o, 'f) responder option) \<Rightarrow> (nat \<Rightarrow> ('o, 'f) responder option) outcome" where
  "answer H P G k rs =
     (case rs k of
        None \<Rightarrow> Returns rs
      | Some r \<Rightarrow>
          (case respond_500_if_unsent H P G r of
             Returns r' \<Rightarrow> Returns (rs(k \<mapsto> r')) | Blocked r' \<Rightarrow> Blocked (rs(k \<mapsto> r'))))"

fun answer_all ::
  "'h header_ops \<Rightarrow> ('h response, 'o) oneshot \<Rightarrow> (frame_result, 'f) flume \<Rightarrow> nat list
     \<Rightarrow> (nat \<Rightarrow> ('o, 'f) responder option) \<Rightarrow> (nat \<Rightarrow> ('o, 'f) responder option) outcome" where
  "answer_all H P G [] rs = Returns rs"
| "answer_all H P G (k # ks) rs =
     (case answer H P G k rs of Blocked rs' \<Rightarrow> Blocked rs' | Returns rs' \<Rightarrow> answer_all H P G ks rs')"

text \<open>
  Emptying a lane: dropping each context answers its client. The lane is closed, so the
  number of receives is bounded by what is queued.
\<close>

fun drain_lane ::
  "nat \<Rightarrow> 'h header_ops \<Rightarrow> ('h response, 'o) oneshot \<Rightarrow> (frame_result, 'f) flume
     \<Rightarrow> (('h, 'b) request_ctx, 'c) flume \<Rightarrow> 'c \<times> (nat \<Rightarrow> ('o, 'f) responder option)
     \<Rightarrow> ('c \<times> (nat \<Rightarrow> ('o, 'f) responder option)) outcome" where
  "drain_lane 0 H P G F (rx, rs) = Returns (rx, rs)"
| "drain_lane (Suc n) H P G F (rx, rs) =
     (case ch_try_recv F rx of
        (rx', Received ctx) \<Rightarrow>
          (case answer H P G (cx_responder ctx) rs of
             Blocked rs' \<Rightarrow> Blocked (rx', rs')
           | Returns rs' \<Rightarrow> drain_lane n H P G F (rx', rs'))
      | (rx', _) \<Rightarrow> Returns (rx', rs))"

definition abort_slot ::
  "'h header_ops \<Rightarrow> ('h response, 'o) oneshot \<Rightarrow> (frame_result, 'f) flume
     \<Rightarrow> (('h, 'b) request_ctx, 'c) flume \<Rightarrow> 'c worker_slot \<times> (nat \<Rightarrow> ('o, 'f) responder option)
     \<Rightarrow> ('c worker_slot \<times> (nat \<Rightarrow> ('o, 'f) responder option)) outcome" where
  "abort_slot H P G F st =
     (case st of (slot, rs) \<Rightarrow>
      (case answer_all H P G (sl_current slot) rs of
         Blocked rs' \<Rightarrow> Blocked (slot, rs')
       | Returns rs' \<Rightarrow>
           let slot = slot\<lparr>sl_current := []\<rparr>;
               slot = slot\<lparr>sl_in_flight := 0\<rparr>;
               slot = (close_lane F slot)\<lparr>sl_parked := True\<rparr>
           in case sl_lane slot of
                None \<Rightarrow> Returns (slot, rs')
              | Some rx \<Rightarrow>
                  (case drain_lane (ch_len F rx) H P G F (rx, rs') of
                     Returns (rx', rs'') \<Rightarrow> Returns (slot\<lparr>sl_lane := Some rx'\<rparr>, rs'')
                   | Blocked (rx', rs'') \<Rightarrow> Blocked (slot\<lparr>sl_lane := Some rx'\<rparr>, rs''))))"

fun abort_slots ::
  "'h header_ops \<Rightarrow> ('h response, 'o) oneshot \<Rightarrow> (frame_result, 'f) flume
     \<Rightarrow> (('h, 'b) request_ctx, 'c) flume \<Rightarrow> 'c worker_slot list \<times> (nat \<Rightarrow> ('o, 'f) responder option)
     \<Rightarrow> ('c worker_slot list \<times> (nat \<Rightarrow> ('o, 'f) responder option)) outcome" where
  "abort_slots H P G F ([], rs) = Returns ([], rs)"
| "abort_slots H P G F (slot # slots, rs) =
     (case abort_slot H P G F (slot, rs) of
        Blocked (slot', rs') \<Rightarrow> Blocked (slot' # slots, rs')
      | Returns (slot', rs') \<Rightarrow>
          (case abort_slots H P G F (slots, rs') of
             Blocked (slots', rs'') \<Rightarrow> Blocked (slot' # slots', rs'')
           | Returns (slots', rs'') \<Rightarrow> Returns (slot' # slots', rs'')))"

definition put_slots ::
  "'c server_inner \<Rightarrow> ('c, 'o, 'f) world \<Rightarrow> 'c worker_slot list \<times> (nat \<Rightarrow> ('o, 'f) responder option)
     \<Rightarrow> ('c, 'o, 'f) world" where
  "put_slots sv W st = put_server (sv\<lparr>sv_slots := fst st\<rparr>) (W\<lparr>wd_responders := snd st\<rparr>)"

definition abort_inflight ::
  "'h header_ops \<Rightarrow> ('h response, 'o) oneshot \<Rightarrow> (frame_result, 'f) flume
     \<Rightarrow> (('h, 'b) request_ctx, 'c) flume \<Rightarrow> u64 \<Rightarrow> nat \<Rightarrow> ('c, 'o, 'f) world
     \<Rightarrow> (('c, 'o, 'f) world \<times> (kino_error + unit)) outcome" where
  "abort_inflight H P G F i w W =
     (case try_get i (wd_registry W) of
        None \<Rightarrow> Returns (W, Inr ())
      | Some sv \<Rightarrow>
          (case slot_ref sv w of
             Inl e \<Rightarrow> Returns (W, Inl e)
           | Inr slot \<Rightarrow>
               (case abort_slot H P G F (slot, wd_responders W) of
                  Returns (slot', rs) \<Rightarrow> Returns (put_slots sv W ((sv_slots sv)[w := slot'], rs), Inr ())
                | Blocked (slot', rs) \<Rightarrow> Blocked (put_slots sv W ((sv_slots sv)[w := slot'], rs), Inr ()))))"

definition abort_all_inflight ::
  "'h header_ops \<Rightarrow> ('h response, 'o) oneshot \<Rightarrow> (frame_result, 'f) flume
     \<Rightarrow> (('h, 'b) request_ctx, 'c) flume \<Rightarrow> u64 \<Rightarrow> ('c, 'o, 'f) world \<Rightarrow> ('c, 'o, 'f) world outcome" where
  "abort_all_inflight H P G F i W =
     (case try_get i (wd_registry W) of
        None \<Rightarrow> Returns W
      | Some sv \<Rightarrow>
          (case abort_slots H P G F (sv_slots sv, wd_responders W) of
             Returns st \<Rightarrow> Returns (put_slots sv W st)
           | Blocked st \<Rightarrow> Blocked (put_slots sv W st)))"

definition interrupt_all_workers :: "u64 \<Rightarrow> ('c, 'o, 'f) world \<Rightarrow> ('c, 'o, 'f) world" where
  "interrupt_all_workers i =
     on_server i (\<lambda>sv. sv\<lparr>sv_slots := map (\<lambda>s. s\<lparr>sl_interrupted := True\<rparr>) (sv_slots sv)\<rparr>)"

section \<open>Shutdown\<close>

text \<open>\<open>listen::cleanup_unix\<close>.\<close>

definition cleanup_unix :: "string \<Rightarrow> string set \<Rightarrow> string set" where
  "cleanup_unix path sockets = sockets - {path}"

definition shutdown_runtime ::
  "(instant \<Rightarrow> duration \<Rightarrow> instant) \<Rightarrow> (instant \<Rightarrow> nat) \<Rightarrow> u64 \<Rightarrow> u64 \<Rightarrow> instant \<Rightarrow> ('c, 'o, 'f) world
     \<Rightarrow> ('c, 'o, 'f) world \<times> instant" where
  "shutdown_runtime rt_shutdown over i timeout_ms now W =
     (case registry_remove i (wd_registry W) of
        (g, None) \<Rightarrow> (W\<lparr>wd_registry := g\<rparr>, now)
      | (g, Some sv) \<Rightarrow>
          (W\<lparr>wd_registry := g,
             wd_sockets := (case sv_unix_path sv of None \<Rightarrow> wd_sockets W
                            | Some path \<Rightarrow> cleanup_unix path (wd_sockets W))\<rparr>,
           fst (runtime_shutdown rt_shutdown over (sv_runtime sv) (millis timeout_ms) now)))"

section \<open>Slots and counters\<close>

definition pin_keeper :: "u64 \<Rightarrow> ('c, 'o, 'f) world \<Rightarrow> kino_error + pin_slab" where
  "pin_keeper i W =
     (case registry_get i (wd_registry W) of Inl e \<Rightarrow> Inl e | Inr sv \<Rightarrow> Inr (sv_pin_slab sv))"

definition server_stats ::
  "('x, 'c) flume \<Rightarrow> u64 \<Rightarrow> ('c, 'o, 'f) world \<Rightarrow> nat \<times> usize \<times> u64 \<times> u64 \<times> u64 \<times> u64 \<times> nat list option" where
  "server_stats F i W =
     (case try_get i (wd_registry W) of
        None \<Rightarrow> (0, 0, 0, 0, 0, 0, None)
      | Some sv \<Rightarrow>
          let depths = lane_depths F sv;
              queued = ch_len F (sv_req sv) + (case depths of None \<Rightarrow> 0 | Some d \<Rightarrow> sum_list d)
          in (queued, sv_in_flight sv, sv_served sv, sv_rejected sv, sv_timeouts sv, sv_respawns sv, depths))"

text \<open>\<open>secs\<close> is the conversion of the summed microseconds to floating-point seconds.\<close>

definition queue_time :: "(u64 \<Rightarrow> 'n) \<Rightarrow> u64 \<Rightarrow> ('c, 'o, 'f) world \<Rightarrow> u64 \<times> 'n" where
  "queue_time secs i W =
     (case try_get i (wd_registry W) of
        None \<Rightarrow> (0, secs 0)
      | Some sv \<Rightarrow> let h = histogram_snapshot (sv_queue_histogram sv) in (qh_count h, secs (qh_sum_us h)))"

definition worker_stats ::
  "u64 \<Rightarrow> u64 \<Rightarrow> ('c, 'o, 'f) world \<Rightarrow> (nat \<times> u64 \<times> usize \<times> u64 \<times> bool \<times> bool) list" where
  "worker_stats now i W =
     (case try_get i (wd_registry W) of
        None \<Rightarrow> []
      | Some sv \<Rightarrow>
          map (\<lambda>w. (wt_index w, wt_served w, wt_in_flight w, wt_busy_ms w, wt_quarantined w, wt_retired w))
            (collect_worker_status now sv))"

definition quarantine_slot ::
  "u64 \<Rightarrow> nat \<Rightarrow> ('c, 'o, 'f) world \<Rightarrow> ('c, 'o, 'f) world \<times> (kino_error + unit)" where
  "quarantine_slot i w = on_worker i w (\<lambda>s. s\<lparr>sl_quarantined := True\<rparr>)"

definition retire_slot ::
  "u64 \<Rightarrow> nat \<Rightarrow> ('c, 'o, 'f) world \<Rightarrow> ('c, 'o, 'f) world \<times> (kino_error + unit)" where
  "retire_slot i w = on_worker i w retire"

definition reset_slot ::
  "u64 \<Rightarrow> nat \<Rightarrow> ('c, 'o, 'f) world \<Rightarrow> ('c, 'o, 'f) world \<times> (kino_error + unit)" where
  "reset_slot i w = on_worker i w reset"

definition set_active_workers :: "u64 \<Rightarrow> usize \<Rightarrow> ('c, 'o, 'f) world \<Rightarrow> ('c, 'o, 'f) world" where
  "set_active_workers i n = on_server i (\<lambda>sv. sv\<lparr>sv_active_workers := n\<rparr>)"

definition record_scale_up :: "u64 \<Rightarrow> ('c, 'o, 'f) world \<Rightarrow> ('c, 'o, 'f) world" where
  "record_scale_up i = on_server i (\<lambda>sv. sv\<lparr>sv_scale_ups := sv_scale_ups sv + 1\<rparr>)"

definition record_scale_down :: "u64 \<Rightarrow> ('c, 'o, 'f) world \<Rightarrow> ('c, 'o, 'f) world" where
  "record_scale_down i = on_server i (\<lambda>sv. sv\<lparr>sv_scale_downs := sv_scale_downs sv + 1\<rparr>)"

definition pool_stats :: "u64 \<Rightarrow> ('c, 'o, 'f) world \<Rightarrow> usize \<times> usize \<times> u64 \<times> u64" where
  "pool_stats i W =
     (case try_get i (wd_registry W) of
        None \<Rightarrow> (0, 0, 0, 0)
      | Some sv \<Rightarrow> (sv_active_workers sv, tp_max_workers (sv_topology sv), sv_scale_ups sv, sv_scale_downs sv))"

definition record_quarantine_replacement :: "u64 \<Rightarrow> ('c, 'o, 'f) world \<Rightarrow> ('c, 'o, 'f) world" where
  "record_quarantine_replacement i =
     on_server i (\<lambda>sv. sv\<lparr>sv_quarantine_replacements := sv_quarantine_replacements sv + 1\<rparr>)"

section \<open>The table of natives\<close>

text \<open>The natives that change the state, as the extension's \<open>init\<close> defines them by name.\<close>

datatype native =
    RegisterWorker | StopAccepting | ControlReady | RecordRespawn | CloseQueue | AbortInflight nat
  | AbortAllInflight | InterruptAllWorkers | ShutdownRuntime u64 | QuarantineSlot nat | RetireSlot nat
  | ResetSlot nat | SetActiveWorkers usize | RecordScaleUp | RecordScaleDown | RecordQuarantineReplacement

record ('h, 'o, 'f, 'b, 'c) native_libs =
  nl_headers :: "'h header_ops"
  nl_oneshot :: "('h response, 'o) oneshot"
  nl_frames :: "(frame_result, 'f) flume"
  nl_requests :: "(('h, 'b) request_ctx, 'c) flume"
  nl_rt_shutdown :: "instant \<Rightarrow> duration \<Rightarrow> instant"
  nl_over :: "instant \<Rightarrow> nat"

fun run_native ::
  "('h, 'o, 'f, 'b, 'c) native_libs \<Rightarrow> instant \<Rightarrow> native \<Rightarrow> u64 \<Rightarrow> ('c, 'o, 'f) world
     \<Rightarrow> (('c, 'o, 'f) world \<times> (kino_error + unit)) outcome" where
  "run_native L now RegisterWorker i W =
     (case register_worker (nl_requests L) i W of (W', r) \<Rightarrow> Returns (W', map_sum id (\<lambda>_. ()) r))"
| "run_native L now StopAccepting i W = Returns (stop_accepting i W, Inr ())"
| "run_native L now ControlReady i W = Returns (control_ready i W, Inr ())"
| "run_native L now RecordRespawn i W = Returns (record_respawn i W, Inr ())"
| "run_native L now CloseQueue i W = Returns (close_queue (nl_requests L) i W, Inr ())"
| "run_native L now (AbortInflight w) i W =
     abort_inflight (nl_headers L) (nl_oneshot L) (nl_frames L) (nl_requests L) i w W"
| "run_native L now AbortAllInflight i W =
     (case abort_all_inflight (nl_headers L) (nl_oneshot L) (nl_frames L) (nl_requests L) i W of
        Returns W' \<Rightarrow> Returns (W', Inr ()) | Blocked W' \<Rightarrow> Blocked (W', Inr ()))"
| "run_native L now InterruptAllWorkers i W = Returns (interrupt_all_workers i W, Inr ())"
| "run_native L now (ShutdownRuntime ms) i W =
     Returns (fst (shutdown_runtime (nl_rt_shutdown L) (nl_over L) i ms now W), Inr ())"
| "run_native L now (QuarantineSlot w) i W = Returns (quarantine_slot i w W)"
| "run_native L now (RetireSlot w) i W = Returns (retire_slot i w W)"
| "run_native L now (ResetSlot w) i W = Returns (reset_slot i w W)"
| "run_native L now (SetActiveWorkers n) i W = Returns (set_active_workers i n W, Inr ())"
| "run_native L now RecordScaleUp i W = Returns (record_scale_up i W, Inr ())"
| "run_native L now RecordScaleDown i W = Returns (record_scale_down i W, Inr ())"
| "run_native L now RecordQuarantineReplacement i W = Returns (record_quarantine_replacement i W, Inr ())"

section \<open>Aborting answers every client\<close>

text \<open>A responder that owes nothing more: the head is out and no stream is open.\<close>

definition settled :: "('o \<Rightarrow> 'r oneshot_view) \<Rightarrow> ('o, 'f) responder \<Rightarrow> bool" where
  "settled view r \<longleftrightarrow> rp_responded r \<and> \<not> rp_body_tx r \<and> view (rp_head r) \<noteq> Pending"

definition live_ok :: "(('o, 'f) responder \<Rightarrow> bool) \<Rightarrow> (nat \<Rightarrow> ('o, 'f) responder option) \<Rightarrow> bool" where
  "live_ok p rs \<longleftrightarrow> (\<forall>k r. rs k = Some r \<longrightarrow> p r)"

text \<open>From one table of responders to the next: those of \<open>ks\<close> are settled, settled ones do not change.\<close>

definition settles ::
  "('o \<Rightarrow> 'r oneshot_view) \<Rightarrow> nat set \<Rightarrow> (nat \<Rightarrow> ('o, 'f) responder option) \<Rightarrow> (nat \<Rightarrow> ('o, 'f) responder option) \<Rightarrow> bool" where
  "settles view ks rs rs' \<longleftrightarrow> dom rs' = dom rs \<and> (\<forall>k \<in> ks. \<forall>r. rs' k = Some r \<longrightarrow> settled view r)
     \<and> (\<forall>k r. rs k = Some r \<longrightarrow> settled view r \<longrightarrow> rs' k = Some r)"

lemma settles_refl: "settles view {} rs rs"
  by (simp add: settles_def)

lemma settles_trans:
  assumes "settles view A rs1 rs2" "settles view B rs2 rs3"
  shows "settles view (A \<union> B) rs1 rs3"
proof -
  have "settled view r" if "k \<in> A" "rs3 k = Some r" for k r
  proof -
    have "k \<in> dom rs2" using that(2) assms(2) by (auto simp: settles_def)
    then obtain r2 where "rs2 k = Some r2" by blast
    with that assms show ?thesis unfolding settles_def by (metis option.inject)
  qed
  moreover have "settled view r" if "k \<in> B" "rs3 k = Some r" for k r
    using assms(2) that unfolding settles_def by blast
  moreover have "rs3 k = Some r" if "rs1 k = Some r" "settled view r" for k r
    using assms that unfolding settles_def by blast
  moreover have "dom rs3 = dom rs1" using assms unfolding settles_def by (metis (no_types))
  ultimately show ?thesis unfolding settles_def by blast
qed

lemma settles_upd:
  "rs k = Some r \<Longrightarrow> settled view r' \<Longrightarrow> (settled view r \<Longrightarrow> r' = r) \<Longrightarrow> settles view {k} rs (rs(k \<mapsto> r'))"
  by (auto simp: settles_def)

lemma live_ok_upd: "live_ok p rs \<Longrightarrow> p r \<Longrightarrow> live_ok p (rs(k \<mapsto> r))"
  by (simp add: live_ok_def)

locale world_channels =
  rc: responder_channels P view listening G gitems gcap gsenders galive
  + rq: flume_channel F items cap senders alive
  for P :: "('h response, 'o) oneshot" and view listening
    and G :: "(frame_result, 'f) flume" and gitems gcap gsenders galive
    and F :: "(('h, 'b) request_ctx, 'c) flume" and items cap senders alive
begin

lemma respond_500_settles:
  assumes "rc.wf r" "respond_500_if_unsent H P G r = Returns r'"
  shows "settled view r' \<and> (settled view r \<longrightarrow> r' = r)"
proof -
  have "rc.wf r'" using rc.wf_respond_500[OF assms(1), of H] assms(2) by simp
  moreover have "rp_responded r' \<and> \<not> rp_body_tx r' \<and> (settled view r \<longrightarrow> r' = r)"
    using assms by (cases "rp_responded r")
      (auto simp: respond_500_if_unsent_def settled_def wf_responder_def split: if_splits option.splits prod.splits send_result.splits)
  ultimately show ?thesis by (auto simp: settled_def wf_responder_def)
qed

lemma answer_spec:
  assumes "live_ok rc.wf rs" "answer H P G k rs = x"
  shows "live_ok rc.wf (outcome_state x) \<and> (case x of Returns rs' \<Rightarrow> settles view {k} rs rs' | Blocked _ \<Rightarrow> True)
    \<and> (live_ok (\<lambda>r. \<not> rp_body_tx r) rs \<longrightarrow> (\<exists>rs'. x = Returns rs' \<and> live_ok (\<lambda>r. \<not> rp_body_tx r) rs'))"
proof (cases "rs k")
  case None
  with assms show ?thesis by (auto simp: answer_def settles_def)
next
  case (Some r)
  then have wf: "rc.wf r" using assms(1) by (auto simp: live_ok_def)
  note w = rc.wf_respond_500[OF wf, of H]
  have nb: "\<exists>r'. respond_500_if_unsent H P G r = Returns r'" if "\<not> rp_body_tx r"
    using that by (cases "rp_responded r") (auto simp: respond_500_if_unsent_def split: prod.splits bool.splits)
  show ?thesis
  proof (cases "respond_500_if_unsent H P G r")
    case (Returns r')
    then have r': "settled view r'" "settled view r \<Longrightarrow> r' = r" "rc.wf r'" and x: "x = Returns (rs(k \<mapsto> r'))"
      using respond_500_settles[OF wf Returns] assms(2) Some w by (auto simp: answer_def)
    have "\<not> rp_body_tx r'" using r'(1) by (simp add: settled_def)
    with live_ok_upd[OF assms(1) r'(3), of k] settles_upd[of rs k r view r', OF Some r'(1,2)] x live_ok_upd[where r = r' and k = k]
    show ?thesis by auto
  next
    case (Blocked r')
    with nb have "rp_body_tx r" by auto
    then have "\<not> live_ok (\<lambda>r. \<not> rp_body_tx r) rs" using Some by (auto simp: live_ok_def)
    moreover have "live_ok rc.wf (rs(k \<mapsto> r'))" using live_ok_upd[OF assms(1)] w Blocked by simp
    ultimately show ?thesis using Blocked assms(2) Some by (auto simp: answer_def)
  qed
qed

lemma answer_all_spec:
  "live_ok rc.wf rs \<Longrightarrow> answer_all H P G ks rs = x \<Longrightarrow>
    live_ok rc.wf (outcome_state x) \<and> (case x of Returns rs' \<Rightarrow> settles view (set ks) rs rs' | Blocked _ \<Rightarrow> True)
    \<and> (live_ok (\<lambda>r. \<not> rp_body_tx r) rs \<longrightarrow> (\<exists>rs'. x = Returns rs' \<and> live_ok (\<lambda>r. \<not> rp_body_tx r) rs'))"
proof (induction ks arbitrary: rs)
  case Nil
  then show ?case using settles_refl by auto
next
  case (Cons k ks)
  note a = answer_spec[OF Cons.prems(1) refl, of H k]
  show ?case
  proof (cases "answer H P G k rs")
    case (Returns rs1)
    with Cons a have "live_ok rc.wf rs1" "answer_all H P G ks rs1 = x" "settles view {k} rs rs1" by auto
    with Cons.IH[of rs1] Returns a settles_trans[of view "{k}" rs rs1 "set ks"] show ?thesis
      by (auto split: outcome.splits)
  next
    case (Blocked rs1)
    with Cons.prems a show ?thesis by auto
  qed
qed

lemma drain_lane_spec:
  "live_ok rc.wf rs \<Longrightarrow> length (items rx) \<le> n \<Longrightarrow> drain_lane n H P G F (rx, rs) = x \<Longrightarrow>
    live_ok rc.wf (snd (outcome_state x))
    \<and> cap (fst (outcome_state x)) = cap rx \<and> senders (fst (outcome_state x)) = senders rx \<and> alive (fst (outcome_state x)) = alive rx
    \<and> (case x of Returns (rx', rs') \<Rightarrow> items rx' = [] \<and> settles view (cx_responder ` set (items rx)) rs rs' | Blocked _ \<Rightarrow> True)
    \<and> (live_ok (\<lambda>r. \<not> rp_body_tx r) rs \<longrightarrow> (\<exists>rx' rs'. x = Returns (rx', rs') \<and> live_ok (\<lambda>r. \<not> rp_body_tx r) rs'))"
proof (induction n arbitrary: rx rs)
  case 0
  then show ?case using settles_refl by auto
next
  case (Suc n)
  show ?case
  proof (cases rule: rq.recv_cases[of rx])
    case (item ctx rx1)
    note a = answer_spec[OF Suc.prems(1) refl, of H "cx_responder ctx"]
    show ?thesis
    proof (cases "answer H P G (cx_responder ctx) rs")
      case (Returns rs1)
      have d: "drain_lane n H P G F (rx1, rs1) = x" using Suc.prems item Returns by simp
      have i: "live_ok rc.wf rs1" "length (items rx1) \<le> n" "settles view {cx_responder ctx} rs rs1"
        using a Returns Suc.prems item by auto
      have "settles view (cx_responder ` set (items rx)) rs rs'" if "settles view (cx_responder ` set (items rx1)) rs1 rs'" for rs'
        using settles_trans[OF i(3) that] item by simp
      with Suc.IH[OF i(1,2) d] item Returns a show ?thesis by (auto split: outcome.splits)
    next
      case (Blocked rs1)
      with Suc.prems a item show ?thesis by auto
    qed
  qed (use Suc.prems settles_refl in auto)
qed

lemma abort_slot_spec:
  assumes "live_ok rc.wf rs" "abort_slot H P G F (slot, rs) = x"
    and "wf_slot cap senders alive lanes slot"
  shows "live_ok rc.wf (snd (outcome_state x)) \<and> wf_slot cap senders alive lanes (fst (outcome_state x))
    \<and> (case x of
         Returns (slot', rs') \<Rightarrow> settles view (set (sl_current slot) \<union> cx_responder ` set (lane_items items slot)) rs rs'
           \<and> sl_current slot' = [] \<and> sl_in_flight slot' = 0 \<and> \<not> sl_lane_tx slot' \<and> lane_items items slot' = []
       | Blocked _ \<Rightarrow> True)
    \<and> (live_ok (\<lambda>r. \<not> rp_body_tx r) rs \<longrightarrow> (\<exists>st. x = Returns st \<and> live_ok (\<lambda>r. \<not> rp_body_tx r) (snd st)))"
proof -
  note a = answer_all_spec[OF assms(1) refl, of H "sl_current slot"]
  show ?thesis
  proof (cases "answer_all H P G (sl_current slot) rs")
    case (Blocked rs1)
    with a assms show ?thesis by (auto simp: abort_slot_def)
  next
    case (Returns rs1)
    then have ok: "live_ok rc.wf rs1" "settles view (set (sl_current slot)) rs rs1" using a by auto
    let ?slot = "(close_lane F (slot\<lparr>sl_current := [], sl_in_flight := 0\<rparr>))\<lparr>sl_parked := True\<rparr>"
    have s: "wf_slot cap senders alive lanes ?slot" "\<not> sl_lane_tx ?slot" "sl_current ?slot = []" "sl_in_flight ?slot = 0"
      using assms(3) by (auto simp: close_lane_def wf_slot_def rq.drop_view split: option.splits)
    have l: "lane_items items ?slot = lane_items items slot"
      by (auto simp: close_lane_def lane_items_def rq.drop_view split: option.splits)
    show ?thesis
    proof (cases "sl_lane ?slot")
      case None
      then have "lane_items items slot = []" "lane_items items ?slot = []" using l by (simp_all add: lane_items_def)
      with assms(2) Returns None ok s a show ?thesis by (auto simp: abort_slot_def Let_def)
    next
      case (Some rx)
      then have li: "lane_items items slot = items rx" using l by (simp add: lane_items_def)
      note d = drain_lane_spec[OF ok(1) _ refl, of rx "ch_len F rx" H, unfolded rq.len_items, OF order_refl]
      have w: "wf_slot cap senders alive lanes (?slot\<lparr>sl_lane := Some c\<rparr>)"
        if "cap c = cap rx" "senders c = senders rx" "alive c = alive rx" for c
        using s(1) Some that by (simp add: wf_slot_def)
      show ?thesis
      proof (cases "drain_lane (length (items rx)) H P G F (rx, rs1)")
        case R2: (Returns p)
        then obtain rx' rs' where p: "p = (rx', rs')" by force
        have "settles view (set (sl_current slot) \<union> cx_responder ` set (items rx)) rs rs'"
          using settles_trans[OF ok(2)] d R2 p by simp
        with assms(2) Returns Some R2 p d w s a li show ?thesis
          by (auto simp: abort_slot_def Let_def rq.len_items lane_items_def)
      next
        case B2: (Blocked p)
        then obtain rx' rs' where p: "p = (rx', rs')" by force
        with assms(2) Returns Some B2 d w s a show ?thesis
          by (auto simp: abort_slot_def Let_def rq.len_items)
      qed
    qed
  qed
qed

end

interpretation ref_world: world_channels cell_oneshot cell_view cell_listening
  list_flume lc_items lc_cap lc_senders lc_alive list_flume lc_items lc_cap lc_senders lc_alive
  by unfold_locales

section \<open>Every native keeps the world well-formed\<close>

definition wf_world ::
  "('c \<Rightarrow> nat) \<Rightarrow> ('c \<Rightarrow> nat) \<Rightarrow> ('c \<Rightarrow> bool) \<Rightarrow> ('c, 'o, 'f) world \<Rightarrow> bool" where
  "wf_world cap senders alive W \<longleftrightarrow>
     (\<forall>i sv. try_get i (wd_registry W) = Some sv \<longrightarrow> sv_id sv = i \<and> wf_slots cap senders alive sv)"

lemma try_get_put_server [simp]:
  "try_get j (wd_registry (put_server sv W)) = (if j = sv_id sv then Some sv else try_get j (wd_registry W))"
  by (simp add: put_server_def servers.look_ins)

lemma put_server_simps [simp]:
  "wd_responders (put_server sv W) = wd_responders W" "wd_sockets (put_server sv W) = wd_sockets W"
  by (simp_all add: put_server_def)

lemma wf_world_put:
  "wf_world cap senders alive W \<Longrightarrow> wf_slots cap senders alive sv \<Longrightarrow> wf_world cap senders alive (put_server sv W)"
  by (simp add: wf_world_def)

lemma wf_world_responders [simp]:
  "wf_world cap senders alive (W\<lparr>wd_responders := rs\<rparr>) = wf_world cap senders alive W"
  by (simp add: wf_world_def)

text \<open>A native that touches one server, and only in a way that keeps its slots.\<close>

lemma on_server_keeps:
  assumes "wf_world cap senders alive W"
    and "\<And>sv. wf_slots cap senders alive sv \<Longrightarrow> wf_slots cap senders alive (f sv)" "\<And>sv. sv_id (f sv) = sv_id sv"
  shows "wf_world cap senders alive (on_server i f W) \<and> wd_responders (on_server i f W) = wd_responders W
    \<and> (\<forall>j. j \<noteq> i \<longrightarrow> try_get j (wd_registry (on_server i f W)) = try_get j (wd_registry W))"
proof (cases "try_get i (wd_registry W)")
  case None
  with assms(1) show ?thesis by (simp add: on_server_def)
next
  case (Some sv)
  then have "sv_id sv = i" "wf_slots cap senders alive sv" using assms(1) by (auto simp: wf_world_def)
  with Some assms show ?thesis by (auto simp: on_server_def intro!: wf_world_put)
qed

lemma on_worker_keeps:
  assumes "wf_world cap senders alive W"
    and "\<And>s. sl_lane (f s) = sl_lane s" "\<And>s. sl_lane_tx (f s) = sl_lane_tx s"
  shows "wf_world cap senders alive (fst (on_worker i w f W)) \<and> wd_responders (fst (on_worker i w f W)) = wd_responders W
    \<and> (\<forall>j. j \<noteq> i \<longrightarrow> try_get j (wd_registry (fst (on_worker i w f W))) = try_get j (wd_registry W))"
proof (cases "try_get i (wd_registry W)")
  case None
  with assms(1) show ?thesis by (simp add: on_worker_def)
next
  case (Some sv)
  then have sv: "sv_id sv = i" "wf_slots cap senders alive sv" using assms(1) by (auto simp: wf_world_def)
  have "wf_slots cap senders alive (on_slot w f sv)" by (rule wf_slots_flags[OF assms(2,3) sv(2)])
  moreover have "sv_id (on_slot w f sv) = i" using sv(1) by (simp add: on_slot_def)
  ultimately show ?thesis
    using Some assms(1) by (auto simp: on_worker_def intro: wf_world_put split: sum.splits)
qed

lemma wf_slots_replace:
  "wf_slots cap senders alive sv \<Longrightarrow> list_all (wf_slot cap senders alive (sv_lanes sv)) slots \<Longrightarrow> length slots = length (sv_slots sv)
    \<Longrightarrow> wf_slots cap senders alive (sv\<lparr>sv_slots := slots\<rparr>)"
  by (simp add: wf_slots_def)

lemma wf_slots_same: "sv_slots sv' = sv_slots sv \<Longrightarrow> sv_lanes sv' = sv_lanes sv
    \<Longrightarrow> wf_slots cap senders alive sv' = wf_slots cap senders alive sv"
  by (simp add: wf_slots_def)

context world_channels
begin

lemma wf_close_lane: "wf_slot cap senders alive lanes s \<Longrightarrow> wf_slot cap senders alive lanes (close_lane F s)"
  by (auto simp: close_lane_def wf_slot_def rq.drop_view split: option.splits)

lemma wf_close_queue:
  assumes "wf_slots cap senders alive sv"
  shows "wf_slots cap senders alive (let sv = close_req F sv in sv\<lparr>sv_slots := map (close_lane F) (sv_slots sv)\<rparr>)"
proof -
  have c: "sv_slots (close_req F sv) = sv_slots sv" "sv_lanes (close_req F sv) = sv_lanes sv"
    by (simp_all add: close_req_def)
  have "list_all (wf_slot cap senders alive (sv_lanes sv)) (map (close_lane F) (sv_slots sv))"
    using assms wf_close_lane by (auto simp: wf_slots_def list_all_iff)
  with c wf_slots_same[OF c] assms show ?thesis by (auto simp: Let_def intro!: wf_slots_replace)
qed

lemma wf_register:
  assumes "wf_slots cap senders alive sv" "Suc (length (sv_slots sv)) < 2 ^ 64"
  shows "wf_slots cap senders alive (fst (server_register_worker F sv))"
  using assms rq.bounded_view[of LANE_DEPTH]
  by (auto simp: wf_slots_def server_register_worker_def Let_def wf_slot_def worker_slot_new_def LANE_DEPTH_def)

lemma abort_slots_spec:
  "live_ok rc.wf rs \<Longrightarrow> abort_slots H P G F (slots, rs) = x \<Longrightarrow> list_all (wf_slot cap senders alive lanes) slots \<Longrightarrow>
    live_ok rc.wf (snd (outcome_state x)) \<and> list_all (wf_slot cap senders alive lanes) (fst (outcome_state x))
    \<and> length (fst (outcome_state x)) = length slots"
proof (induction slots arbitrary: rs x)
  case Nil
  then show ?case by auto
next
  case (Cons s ss)
  note a = abort_slot_spec[OF Cons.prems(1) refl, where H = H and slot = s and lanes = lanes]
  obtain s1 rs1 where st: "outcome_state (abort_slot H P G F (s, rs)) = (s1, rs1)" by force
  have ok: "live_ok rc.wf rs1" "wf_slot cap senders alive lanes s1" using a st Cons.prems(3) by auto
  note ih = Cons.IH[OF ok(1) refl]
  show ?case
  proof (cases "abort_slot H P G F (s, rs)")
    case (Blocked p)
    with st Cons.prems ok show ?thesis by auto
  next
    case (Returns p)
    with st have p: "p = (s1, rs1)" by simp
    obtain ss2 rs2 where st2: "outcome_state (abort_slots H P G F (ss, rs1)) = (ss2, rs2)" by force
    show ?thesis
      using Returns p Cons.prems ok ih st2 by (cases "abort_slots H P G F (ss, rs1)") auto
  qed
qed

lemma put_slots_keeps:
  assumes "wf_world cap senders alive W" "try_get i (wd_registry W) = Some sv"
    and "list_all (wf_slot cap senders alive (sv_lanes sv)) (fst st)" "length (fst st) = length (sv_slots sv)"
    and "live_ok p (snd st)"
  shows "wf_world cap senders alive (put_slots sv W st) \<and> live_ok p (wd_responders (put_slots sv W st))
    \<and> (\<forall>j. j \<noteq> i \<longrightarrow> try_get j (wd_registry (put_slots sv W st)) = try_get j (wd_registry W))"
proof -
  have sv: "sv_id sv = i" "wf_slots cap senders alive sv" using assms(1,2) by (auto simp: wf_world_def)
  with assms show ?thesis
    by (auto simp: put_slots_def intro!: wf_world_put wf_slots_replace)
qed

lemma abort_inflight_keeps:
  assumes "wf_world cap senders alive W" "live_ok rc.wf (wd_responders W)" "abort_inflight H P G F i w W = x"
  shows "wf_world cap senders alive (fst (outcome_state x)) \<and> live_ok rc.wf (wd_responders (fst (outcome_state x)))
    \<and> (\<forall>j. j \<noteq> i \<longrightarrow> try_get j (wd_registry (fst (outcome_state x))) = try_get j (wd_registry W))"
proof (cases "try_get i (wd_registry W)")
  case (Some sv)
  then have sv: "sv_id sv = i" "wf_slots cap senders alive sv" using assms(1) by (auto simp: wf_world_def)
  show ?thesis
  proof (cases "w < length (sv_slots sv)")
    case False
    with Some assms show ?thesis by (auto simp: abort_inflight_def slot_ref_def)
  next
    case True
    let ?a = "abort_slot H P G F (sv_slots sv ! w, wd_responders W)"
    obtain s1 rs1 where st: "outcome_state ?a = (s1, rs1)" by force
    have slots: "wf_slot cap senders alive (sv_lanes sv) (sv_slots sv ! w)"
      using sv(2) True by (auto simp: wf_slots_def list_all_length)
    have "live_ok rc.wf rs1" "wf_slot cap senders alive (sv_lanes sv) s1"
      using abort_slot_spec[OF assms(2) refl slots, where H = H] st by auto
    moreover have "list_all (wf_slot cap senders alive (sv_lanes sv)) ((sv_slots sv)[w := s1])"
      using sv(2) calculation(2) by (auto simp: wf_slots_def list_all_iff dest: set_update_subset_insert[THEN subsetD])
    ultimately have "wf_world cap senders alive (put_slots sv W ((sv_slots sv)[w := s1], rs1))
        \<and> live_ok rc.wf (wd_responders (put_slots sv W ((sv_slots sv)[w := s1], rs1)))
        \<and> (\<forall>j. j \<noteq> i \<longrightarrow> try_get j (wd_registry (put_slots sv W ((sv_slots sv)[w := s1], rs1))) = try_get j (wd_registry W))"
      by (intro put_slots_keeps[OF assms(1) Some]) simp_all
    with st assms(3) Some True show ?thesis by (cases ?a) (auto simp: abort_inflight_def slot_ref_def)
  qed
qed (use assms in \<open>auto simp: abort_inflight_def\<close>)

lemma abort_all_keeps:
  assumes "wf_world cap senders alive W" "live_ok rc.wf (wd_responders W)" "abort_all_inflight H P G F i W = x"
  shows "wf_world cap senders alive (outcome_state x) \<and> live_ok rc.wf (wd_responders (outcome_state x))
    \<and> (\<forall>j. j \<noteq> i \<longrightarrow> try_get j (wd_registry (outcome_state x)) = try_get j (wd_registry W))"
proof (cases "try_get i (wd_registry W)")
  case (Some sv)
  then have sv: "list_all (wf_slot cap senders alive (sv_lanes sv)) (sv_slots sv)"
    using assms(1) by (auto simp: wf_world_def wf_slots_def)
  let ?a = "abort_slots H P G F (sv_slots sv, wd_responders W)"
  have "wf_world cap senders alive (put_slots sv W (outcome_state ?a))
      \<and> live_ok rc.wf (wd_responders (put_slots sv W (outcome_state ?a)))
      \<and> (\<forall>j. j \<noteq> i \<longrightarrow> try_get j (wd_registry (put_slots sv W (outcome_state ?a))) = try_get j (wd_registry W))"
    using abort_slots_spec[OF assms(2) refl sv, where H = H] by (intro put_slots_keeps[OF assms(1) Some]) simp_all
  with assms(3) Some show ?thesis by (cases ?a) (auto simp: abort_all_inflight_def)
qed (use assms in \<open>auto simp: abort_all_inflight_def\<close>)

lemma register_keeps:
  assumes "wf_world cap senders alive W" "\<And>sv. try_get i (wd_registry W) = Some sv \<Longrightarrow> Suc (length (sv_slots sv)) < 2 ^ 64"
  shows "wf_world cap senders alive (fst (register_worker F i W))
    \<and> wd_responders (fst (register_worker F i W)) = wd_responders W
    \<and> (\<forall>j. j \<noteq> i \<longrightarrow> try_get j (wd_registry (fst (register_worker F i W))) = try_get j (wd_registry W))"
proof (cases "try_get i (wd_registry W)")
  case None
  with assms(1) show ?thesis by (simp add: register_worker_def registry_get_def try_get_def)
next
  case (Some sv)
  then have sv: "sv_id sv = i" "wf_slots cap senders alive sv" using assms(1) by (auto simp: wf_world_def)
  have "sv_id (fst (server_register_worker F sv)) = i" using sv(1) by (simp add: server_register_worker_def Let_def)
  with wf_register[OF sv(2) assms(2)[OF Some]] Some assms(1) show ?thesis
    by (auto simp: register_worker_def registry_get_def try_get_def[symmetric] intro: wf_world_put split: prod.splits)
qed

end

lemma shutdown_keeps:
  assumes "wf_world cap senders alive W"
  shows "wf_world cap senders alive (fst (shutdown_runtime rt over i ms now W))
    \<and> wd_responders (fst (shutdown_runtime rt over i ms now W)) = wd_responders W
    \<and> (\<forall>j. try_get j (wd_registry (fst (shutdown_runtime rt over i ms now W)))
         = (if j = i then None else try_get j (wd_registry W)))"
proof -
  have r: "wd_registry (fst (shutdown_runtime rt over i ms now W)) = fst (registry_remove i (wd_registry W))"
    "wd_responders (fst (shutdown_runtime rt over i ms now W)) = wd_responders W"
    by (auto simp: shutdown_runtime_def split: prod.splits option.splits)
  have t: "try_get j (fst (registry_remove i (wd_registry W))) = (if j = i then None else try_get j (wd_registry W))" for j
    by (rule servers.look_rem)
  show ?thesis using assms r t by (simp add: wf_world_def)
qed

lemma on_server_same:
  assumes "wf_world cap senders alive W"
    and "\<And>sv. sv_slots (f sv) = sv_slots sv" "\<And>sv. sv_lanes (f sv) = sv_lanes sv" "\<And>sv. sv_id (f sv) = sv_id sv"
  shows "wf_world cap senders alive (on_server i f W) \<and> wd_responders (on_server i f W) = wd_responders W
    \<and> (\<forall>j. j \<noteq> i \<longrightarrow> try_get j (wd_registry (on_server i f W)) = try_get j (wd_registry W))"
  by (rule on_server_keeps) (simp_all add: assms wf_slots_same[OF assms(2,3)])

lemma wf_interrupt_all:
  "wf_slots cap senders alive sv \<Longrightarrow> wf_slots cap senders alive (sv\<lparr>sv_slots := map (\<lambda>s. s\<lparr>sl_interrupted := True\<rparr>) (sv_slots sv)\<rparr>)"
  by (auto simp: wf_slots_def wf_slot_def list_all_iff split: option.splits)

text \<open>The natives that set a flag or a counter of the server, and of one worker.\<close>

lemmas counter_natives = stop_accepting_def control_ready_def record_respawn_def set_active_workers_def
  record_scale_up_def record_scale_down_def record_quarantine_replacement_def

lemmas slot_natives = quarantine_slot_def retire_slot_def retire_def reset_slot_def reset_def

definition touches_only :: "u64 \<Rightarrow> ('c \<Rightarrow> nat) \<Rightarrow> ('c \<Rightarrow> nat) \<Rightarrow> ('c \<Rightarrow> bool) \<Rightarrow> (('o, 'f) responder \<Rightarrow> bool)
    \<Rightarrow> ('c, 'o, 'f) world \<Rightarrow> ('c, 'o, 'f) world \<Rightarrow> bool" where
  "touches_only i cap senders alive p W W' \<longleftrightarrow> wf_world cap senders alive W' \<and> live_ok p (wd_responders W')
     \<and> (\<forall>j. j \<noteq> i \<longrightarrow> try_get j (wd_registry W') = try_get j (wd_registry W))"

lemma plain_native_keeps:
  assumes "wf_world cap senders alive W" "live_ok p (wd_responders W)"
    and "op \<notin> {RegisterWorker, CloseQueue, AbortAllInflight} \<union> range AbortInflight"
  shows "touches_only i cap senders alive p W (fst (outcome_state (run_native L now op i W)))"
  using assms(2,3) shutdown_keeps[OF assms(1)]
  unfolding touches_only_def
  by (cases op) (simp_all add: counter_natives slot_natives on_server_same[OF assms(1)] on_worker_keeps[OF assms(1)]
      interrupt_all_workers_def on_server_keeps[OF assms(1) wf_interrupt_all])

section \<open>Properties\<close>

text \<open>
  C29: no native can break the world: whatever is called, for any server id and worker id,
  returning, raising or blocked, every server stays under its own id with well-formed
  slots, every responder stays consistent, and no other server is touched.
\<close>

theorem natives_keep_wf:
  assumes "world_channels (nl_oneshot L) view listening (nl_frames L) gitems gcap gsenders galive
      (nl_requests L) items cap senders alive"
    and "wf_world cap senders alive W" "live_ok (wf_responder view gcap gsenders) (wd_responders W)"
    and "\<And>sv. try_get i (wd_registry W) = Some sv \<Longrightarrow> Suc (length (sv_slots sv)) < 2 ^ 64"
  shows "let W' = fst (outcome_state (run_native L now op i W)) in
    wf_world cap senders alive W' \<and> live_ok (wf_responder view gcap gsenders) (wd_responders W')
    \<and> (\<forall>j. j \<noteq> i \<longrightarrow> try_get j (wd_registry W') = try_get j (wd_registry W))"
proof -
  have "touches_only i cap senders alive (wf_responder view gcap gsenders) W (fst (outcome_state (run_native L now op i W)))"
  proof (cases "op \<in> {RegisterWorker, CloseQueue, AbortAllInflight} \<union> range AbortInflight")
    case True
    then consider "op = RegisterWorker" | "op = CloseQueue" | w where "op = AbortInflight w" | "op = AbortAllInflight" by blast
    then show ?thesis
    proof cases
      case 1
      then show ?thesis
        using world_channels.register_keeps[OF assms(1,2), of i] assms(3,4)
        by (cases "register_worker (nl_requests L) i W") (simp add: touches_only_def)
    next
      case 2
      let ?f = "\<lambda>sv. let sv = close_req (nl_requests L) sv in sv\<lparr>sv_slots := map (close_lane (nl_requests L)) (sv_slots sv)\<rparr>"
      have "sv_id (?f sv) = sv_id sv" for sv by (simp add: close_req_def Let_def)
      with 2 show ?thesis
        using on_server_keeps[OF assms(2), of ?f i] world_channels.wf_close_queue[OF assms(1)] assms(3)
        by (simp add: close_queue_def touches_only_def)
    next
      case 3
      then show ?thesis
        using world_channels.abort_inflight_keeps[OF assms(1-3) refl] by (simp add: touches_only_def)
    next
      case 4
      then show ?thesis
        using world_channels.abort_all_keeps[OF assms(1-3) refl, of "nl_headers L" i]
        by (cases "abort_all_inflight (nl_headers L) (nl_oneshot L) (nl_frames L) (nl_requests L) i W")
          (simp_all add: touches_only_def)
    qed
  qed (rule plain_native_keeps[OF assms(2,3)])
  then show ?thesis by (simp add: touches_only_def Let_def)
qed

type_synonym example_world =
  "((header_list, bytes list_chan) request_ctx list_chan, header_list response cell, frame_result list_chan) world"

definition example_natives ::
  "(header_list, header_list response cell, frame_result list_chan, bytes list_chan,
    (header_list, bytes list_chan) request_ctx list_chan) native_libs" where
  "example_natives = \<lparr>nl_headers = list_headers, nl_oneshot = cell_oneshot, nl_frames = list_flume,
     nl_requests = list_flume, nl_rt_shutdown = (\<lambda>t d. t + d), nl_over = (\<lambda>_. 0)\<rparr>"

text \<open>One server with one worker that holds request 0.\<close>

definition example_world :: example_world where
  "example_world =
     \<lparr>wd_registry = registry_insert ((ctx_server [])\<lparr>sv_slots := [(sv_slots (ctx_server []) ! 0)\<lparr>sl_current := [0], sl_in_flight := 1\<rparr>]\<rparr>)
        registry_empty,
      wd_responders = [0 \<mapsto> responder_new cell_oneshot], wd_sockets = {}\<rparr>"

lemma example_world_get:
  "try_get j (wd_registry example_world) = (if j = 1
     then Some ((ctx_server [])\<lparr>sv_slots := [(sv_slots (ctx_server []) ! 0)\<lparr>sl_current := [0], sl_in_flight := 1\<rparr>]\<rparr>) else None)"
  by (simp add: example_world_def servers.look_ins ctx_server_def server_inner_new_def)
    (simp add: try_get_def registry_empty_def)

lemma example_world_ok:
  "wf_world lc_cap lc_senders lc_alive example_world"
  "live_ok (wf_responder cell_view lc_cap lc_senders) (wd_responders example_world)"
proof -
  show "wf_world lc_cap lc_senders lc_alive example_world"
    by (auto simp: wf_world_def example_world_get wf_slots_def wf_slot_def ctx_server_def worker_slot_new_def
        server_inner_new_def split: if_splits)
  show "live_ok (wf_responder cell_view lc_cap lc_senders) (wd_responders example_world)"
    using ref_responder.wf_new by (simp add: live_ok_def example_world_def)
qed

theorem natives_keep_wf_witness:
  "wf_world lc_cap lc_senders lc_alive (fst (outcome_state (run_native example_natives 0 (AbortInflight 0) 1 example_world)))"
proof -
  have "world_channels (nl_oneshot example_natives) cell_view cell_listening (nl_frames example_natives) lc_items lc_cap
      lc_senders lc_alive (nl_requests example_natives) lc_items lc_cap lc_senders lc_alive"
    unfolding example_natives_def native_libs.simps by (rule ref_world.world_channels_axioms)
  from natives_keep_wf[OF this example_world_ok, of 1 0 "AbortInflight 0"] show ?thesis
    by (simp add: example_world_get Let_def)
qed





text \<open>
  Shutdown is idempotent: afterwards the server is unknown and its unix socket gone,
  and a second call, whatever its timeout, returns at once and changes nothing.
\<close>

theorem shutdown_idempotent:
  "let W' = fst (shutdown_runtime rt over i ms now W) in
     try_get i (wd_registry W') = None
   \<and> (\<forall>sv path. try_get i (wd_registry W) = Some sv \<longrightarrow> sv_unix_path sv = Some path \<longrightarrow> path \<notin> wd_sockets W')
   \<and> (\<forall>rt' over' ms' t. shutdown_runtime rt' over' i ms' t W' = (W', t))"
proof -
  let ?W = "fst (shutdown_runtime rt over i ms now W)"
  have gone: "try_get i (wd_registry ?W) = None"
    by (auto simp: shutdown_runtime_def registry_remove_def try_get_def split: option.splits)
  then have "shutdown_runtime rt' over' i ms' t ?W = (?W, t)" for rt' over' ms' t
    by (auto simp: shutdown_runtime_def[of rt'] registry_remove_def try_get_def fun_upd_idem)
  moreover have "path \<notin> wd_sockets ?W" if "try_get i (wd_registry W) = Some sv" "sv_unix_path sv = Some path" for sv path
    using that by (auto simp: shutdown_runtime_def registry_remove_def try_get_def cleanup_unix_def)
  ultimately show ?thesis using gone by (simp add: Let_def)
qed

theorem shutdown_idempotent_witness:
  "try_get 1 (wd_registry (fst (shutdown_runtime (\<lambda>t d. t + d) (\<lambda>_. 0) 1 1000 0 example_world))) = None"
  using shutdown_idempotent[of "\<lambda>t d. t + d" "\<lambda>_. 0" 1 1000 0 example_world] by (simp add: Let_def)

lemma scan_lanes_closed:
  "\<forall>i \<in> set ixs. \<not> sl_lane_tx (slots ! i) \<Longrightarrow> scan_lanes F skip ixs slots op ctx = (slots, op, Some ctx)"
  by (induction ixs) (auto simp: try_lane_def)

lemma close_queue_server:
  "try_get i (wd_registry W) = Some sv \<Longrightarrow> sv_id sv = i \<Longrightarrow>
     try_get i (wd_registry (close_queue F i W)) =
       Some ((close_req F sv)\<lparr>sv_slots := map (close_lane F) (sv_slots sv)\<rparr>)"
  by (simp add: close_queue_def on_server_def close_req_def Let_def)



end
