(* ===== verification/Kino_Logging.thy ===== *)
theory Kino_Logging
  imports Kino_Env
begin

text \<open>
  What the native layer writes: ANSI styling (\<open>ext/kino/src/style.rs\<close>), server log lines
  (\<open>log.rs\<close>), the asynchronous sink and the log devices (\<open>logsink.rs\<close>), and the two access
  log records of a request (\<open>access_log.rs\<close>).

  Text is UTF-8. The local time stamp (\<open>jiff\<close>) is a parameter, and so are the
  one-decimal rendering of a floating-point quotient, \<open>fx n d\<close> for \<open>n / d\<close>, and the
  \<open>Debug\<close> rendering of a string.
\<close>

section \<open>Styling\<close>

datatype stream = Stdout | Stderr

text \<open>The facts color capability is decided from, read once per stream.\<close>

record terminal =
  tl_is_terminal :: "stream \<Rightarrow> bool"
  tl_no_color :: "string option"
  tl_term :: "string option"

definition enabled :: "terminal \<Rightarrow> stream \<Rightarrow> bool" where
  "enabled T stream \<longleftrightarrow>
     tl_is_terminal T stream \<and> tl_no_color T = None \<and> (case tl_term T of None \<Rightarrow> True | Some t \<Rightarrow> t \<noteq> ''dumb'')"

definition esc :: string where
  "esc = [CHR 0x1B, CHR ''['']"

definition sgr_reset :: string where
  "sgr_reset = esc @ ''0m''"

definition sgr :: "string \<Rightarrow> string \<Rightarrow> bool \<Rightarrow> string" where
  "sgr code txt color = (if color then esc @ code @ ''m'' @ txt @ sgr_reset else txt)"

definition DIM :: string where
  "DIM = ''90''"

definition BOLD_WHITE :: string where
  "BOLD_WHITE = ''1;97''"

definition WARN :: string where
  "WARN = ''33''"

definition ERROR :: string where
  "ERROR = ''91''"

definition status_sgr :: "u16 \<Rightarrow> string option" where
  "status_sgr status =
     (if 200 \<le> status \<and> status \<le> 299 then Some ''1;32''
      else if 300 \<le> status \<and> status \<le> 399 then Some ''1;33''
      else if 400 \<le> status \<and> status \<le> 499 then Some ''1;31''
      else if 500 \<le> status \<and> status \<le> 599 then Some ''1;91''
      else None)"

section \<open>Server log lines\<close>

datatype level = LevelInfo | LevelWarn | LevelError

definition level_parse :: "string \<Rightarrow> level option" where
  "level_parse name =
     (if name = ''info'' then Some LevelInfo
      else if name = ''warn'' then Some LevelWarn
      else if name = ''error'' then Some LevelError
      else None)"

definition level_stream :: "level \<Rightarrow> stream" where
  "level_stream l = (case l of LevelInfo \<Rightarrow> Stdout | LevelWarn \<Rightarrow> Stderr | LevelError \<Rightarrow> Stderr)"

definition level_sgr :: "level \<Rightarrow> string" where
  "level_sgr l = (case l of LevelInfo \<Rightarrow> DIM | LevelWarn \<Rightarrow> WARN | LevelError \<Rightarrow> ERROR)"

definition label :: "u32 \<Rightarrow> string \<Rightarrow> string" where
  "label pid source = ''kino['' @ show_nat (unat pid) @ ''] '' @ source @ '':''"

definition format_line :: "level \<Rightarrow> string \<Rightarrow> string \<Rightarrow> bool \<Rightarrow> string" where
  "format_line l lab message color = sgr (level_sgr l) lab color @ '' '' @ message"

text \<open>What was written to the two streams of the process.\<close>

record console =
  cn_stdout :: bytes
  cn_stderr :: bytes

definition emit :: "terminal \<Rightarrow> u32 \<Rightarrow> level \<Rightarrow> string \<Rightarrow> string \<Rightarrow> console \<Rightarrow> console" where
  "emit T pid l source message c =
     (let stream = level_stream l;
          lab = label pid source;
          line = format_line l lab message (enabled T stream)
      in case stream of
           Stdout \<Rightarrow> c\<lparr>cn_stdout := cn_stdout c @ line @ LF\<rparr>
         | Stderr \<Rightarrow> c\<lparr>cn_stderr := cn_stderr c @ line @ LF\<rparr>)"

definition log_line ::
  "terminal \<Rightarrow> (string \<Rightarrow> string) \<Rightarrow> u32 \<Rightarrow> string \<Rightarrow> string \<Rightarrow> string \<Rightarrow> console \<Rightarrow> console \<times> (kino_error + unit)" where
  "log_line T dbg pid l source message c =
     (case level_parse l of
        None \<Rightarrow> (c, Inl (ArgError (''unknown log level '' @ dbg l)))
      | Some lv \<Rightarrow> (emit T pid lv source message c, Inr ()))"

section \<open>The access log\<close>

definition stamped :: "string \<Rightarrow> string \<Rightarrow> bool \<Rightarrow> string" where
  "stamped now_stamp rec color = sgr DIM now_stamp color @ '' '' @ rec"

definition arrow_right :: string where
  "arrow_right = [CHR 0xE2, CHR 0x86, CHR 0x92]"

definition arrow_left :: string where
  "arrow_left = [CHR 0xE2, CHR 0x86, CHR 0x90]"

definition arrival_line :: "string \<Rightarrow> string \<Rightarrow> ip_addr \<Rightarrow> string" where
  "arrival_line method target ip = arrow_right @ '' '' @ method @ '' '' @ target @ ''  from '' @ show_ip ip"

definition arrival :: "terminal \<Rightarrow> string \<Rightarrow> string \<Rightarrow> string \<Rightarrow> ip_addr \<Rightarrow> string" where
  "arrival T now_stamp method target ip =
     (let color = enabled T Stdout;
          rec = sgr BOLD_WHITE (arrival_line method target ip) color
      in stamped now_stamp rec color)"

text \<open>\<open>{:.1}ms\<close> of a duration in milliseconds.\<close>

definition show_millis :: "(nat \<Rightarrow> nat \<Rightarrow> string) \<Rightarrow> duration \<Rightarrow> string" where
  "show_millis fx d = fx d 1000000 @ ''ms''"

definition completion_line :: "(nat \<Rightarrow> nat \<Rightarrow> string) \<Rightarrow> u16 \<Rightarrow> string \<Rightarrow> string \<Rightarrow> duration \<Rightarrow> string" where
  "completion_line fx status method target elapsed =
     arrow_left @ '' '' @ show_nat (unat status) @ '' '' @ method @ '' '' @ target @ ''  '' @ show_millis fx elapsed"

definition write_count :: "(nat \<Rightarrow> nat \<Rightarrow> string) \<Rightarrow> u64 \<Rightarrow> string" where
  "write_count fx n =
     (if n < 1000 then show_nat (unat n)
      else if n < 10000 then fx (unat n) 1000 @ ''k''
      else show_nat (unat (n div 1000)) @ ''k'')"

text \<open>\<open>Duration::saturating_sub\<close> is subtraction on naturals.\<close>

definition kino_time :: "duration \<Rightarrow> timing \<Rightarrow> duration" where
  "kino_time elapsed t = (elapsed - tm_ruby t) - tm_wait t"

definition write_breakdown :: "(nat \<Rightarrow> nat \<Rightarrow> string) \<Rightarrow> duration \<Rightarrow> timing \<Rightarrow> string" where
  "write_breakdown fx elapsed t =
     ''(ruby '' @ show_millis fx (tm_ruby t)
     @ (case tm_gc t of
          None \<Rightarrow> []
        | Some (gc, allocs) \<Rightarrow> '' [gc '' @ show_millis fx gc @ ''; '' @ write_count fx allocs @ '' obj]'')
     @ ''; kino '' @ show_millis fx (kino_time elapsed t) @ ''; wait '' @ show_millis fx (tm_wait t) @ '')''"

definition completion ::
  "terminal \<Rightarrow> (nat \<Rightarrow> nat \<Rightarrow> string) \<Rightarrow> string \<Rightarrow> u16 \<Rightarrow> string \<Rightarrow> string \<Rightarrow> duration \<Rightarrow> timing option \<Rightarrow> string" where
  "completion T fx now_stamp status method target elapsed timing =
     (let color = enabled T Stdout;
          rec = completion_line fx status method target elapsed;
          rec = (case status_sgr status of Some code \<Rightarrow> sgr code rec color | None \<Rightarrow> rec);
          line = stamped now_stamp rec color;
          line = (case timing of
                    None \<Rightarrow> line
                  | Some t \<Rightarrow> line @ '' '' @ (if color then esc @ DIM @ ''m'' else [])
                      @ write_breakdown fx elapsed t @ (if color then sgr_reset else []))
      in line @ LF)"

section \<open>The sink\<close>

definition SINK_BUFFER :: nat where
  "SINK_BUFFER = 8192"

text \<open>
  A sink: the channel its callers and the flusher thread share, where the flusher is, and
  the calls it has made on the output. The results of those calls are ignored by the code.
\<close>

datatype write_call = WriteAll bytes | Flush

datatype flusher_pc = FlWaiting | FlDraining | FlExited

record 'l sink =
  sk_ch :: 'l
  sk_pc :: flusher_pc
  sk_calls :: "write_call list"

definition sink_new :: "(string, 'l) flume \<Rightarrow> 'l sink" where
  "sink_new L = \<lparr>sk_ch = ch_bounded L SINK_BUFFER, sk_pc = FlWaiting, sk_calls = []\<rparr>"

definition write_line :: "(string, 'l) flume \<Rightarrow> string \<Rightarrow> 'l sink \<Rightarrow> 'l sink" where
  "write_line L line s = s\<lparr>sk_ch := fst (ch_try_send L (sk_ch s) line)\<rparr>"

definition sink_put :: "string \<Rightarrow> 'l sink \<Rightarrow> 'l sink" where
  "sink_put line s = s\<lparr>sk_calls := sk_calls s @ [WriteAll line, WriteAll LF]\<rparr>"

text \<open>
  One receive of the flusher and what follows it. A blocking receive on an empty channel
  leaves everything as it is. On its way out the thread drops the receiving end.
\<close>

definition flusher :: "(string, 'l) flume \<Rightarrow> 'l sink \<Rightarrow> 'l sink" where
  "flusher L s =
     (case sk_pc s of
        FlExited \<Rightarrow> s
      | FlWaiting \<Rightarrow>
          (case ch_try_recv L (sk_ch s) of
             (c, Received line) \<Rightarrow> sink_put line (s\<lparr>sk_ch := c, sk_pc := FlDraining\<rparr>)
           | (c, RecvEmpty) \<Rightarrow> s\<lparr>sk_ch := c\<rparr>
           | (c, RecvDisconnected) \<Rightarrow>
               s\<lparr>sk_ch := ch_drop_receiver L c, sk_pc := FlExited, sk_calls := sk_calls s @ [Flush]\<rparr>)
      | FlDraining \<Rightarrow>
          (case ch_try_recv L (sk_ch s) of
             (c, Received line) \<Rightarrow> sink_put line (s\<lparr>sk_ch := c\<rparr>)
           | (c, _) \<Rightarrow> s\<lparr>sk_ch := c, sk_pc := FlWaiting, sk_calls := sk_calls s @ [Flush]\<rparr>))"

text \<open>Dropping the sink drops its sender; the flusher goes on by itself.\<close>

definition sink_drop :: "(string, 'l) flume \<Rightarrow> 'l sink \<Rightarrow> 'l sink" where
  "sink_drop L s = s\<lparr>sk_ch := ch_drop_sender L (sk_ch s)\<rparr>"

section \<open>Log devices\<close>

text \<open>
  The table of open devices and the next id. \<open>dv_closed\<close> holds the sinks whose device was
  closed, whose flushers are still to finish.
\<close>

record 'l devices =
  dv_map :: "u64 \<rightharpoonup> 'l sink"
  dv_next :: u64
  dv_closed :: "'l sink list"

text \<open>\<open>open_file\<close> says what opening a path for appending gives: the error's text, if any.\<close>

definition device_open ::
  "(string, 'l) flume \<Rightarrow> (string \<Rightarrow> string option) \<Rightarrow> string option \<Rightarrow> 'l devices \<Rightarrow> 'l devices \<times> (kino_error + u64)" where
  "device_open L open_file path D =
     (let open_err = (case path of None \<Rightarrow> None | Some p \<Rightarrow> if p = [] then None else open_file p)
      in case open_err of
           Some e \<Rightarrow>
             (D, Inl (RubyError (''Kino::Logger::Device: cannot open '' @ (case path of None \<Rightarrow> [] | Some p \<Rightarrow> p) @ '': '' @ e)))
         | None \<Rightarrow>
             let i = dv_next D
             in (D\<lparr>dv_next := i + 1, dv_map := (dv_map D)(i \<mapsto> sink_new L)\<rparr>, Inr i))"

definition trim_end_newlines :: "string \<Rightarrow> string" where
  "trim_end_newlines s = rev (dropWhile (\<lambda>c. c = CHR 0x0A) (rev s))"

definition device_write :: "(string, 'l) flume \<Rightarrow> u64 \<Rightarrow> string \<Rightarrow> 'l devices \<Rightarrow> 'l devices" where
  "device_write L i message D =
     (case dv_map D i of
        None \<Rightarrow> D
      | Some s \<Rightarrow> D\<lparr>dv_map := (dv_map D)(i \<mapsto> write_line L (trim_end_newlines message) s)\<rparr>)"

definition device_close :: "(string, 'l) flume \<Rightarrow> u64 \<Rightarrow> 'l devices \<Rightarrow> 'l devices" where
  "device_close L i D =
     (case dv_map D i of
        None \<Rightarrow> D
      | Some s \<Rightarrow> D\<lparr>dv_map := (dv_map D)(i := None), dv_closed := sink_drop L s # dv_closed D\<rparr>)"

section \<open>Nothing accepted is lost\<close>

text \<open>The bytes a sequence of calls gives to the output.\<close>

definition sink_output :: "write_call list \<Rightarrow> bytes" where
  "sink_output calls = concat (map (\<lambda>c. case c of WriteAll b \<Rightarrow> b | Flush \<Rightarrow> []) calls)"

definition lines_text :: "string list \<Rightarrow> bytes" where
  "lines_text ls = concat (map (\<lambda>l. l @ LF) ls)"

lemma sink_output_simps [simp]:
  "sink_output [] = []"
  "sink_output (xs @ ys) = sink_output xs @ sink_output ys"
  "sink_output (WriteAll b # xs) = b @ sink_output xs"
  "sink_output (Flush # xs) = sink_output xs"
  by (simp_all add: sink_output_def)

lemma lines_text_simps [simp]:
  "lines_text [] = []"
  "lines_text (xs @ ys) = lines_text xs @ lines_text ys"
  "lines_text (l # ls) = l @ LF @ lines_text ls"
  by (simp_all add: lines_text_def)

lemma sink_output_puts: "sink_output (concat (map (\<lambda>l. [WriteAll l, WriteAll LF]) ls)) = lines_text ls"
  by (induction ls) simp_all

text \<open>
  A sink with its callers: lines are queued in any order with the receives of the flusher
  until the sink is dropped. \<open>ss_accepted\<close> records the lines the channel took.
\<close>

record 'l sink_sys =
  ss_sink :: "'l sink"
  ss_live :: bool
  ss_accepted :: "string list"

definition sink_start :: "(string, 'l) flume \<Rightarrow> 'l sink_sys \<Rightarrow> bool" where
  "sink_start L s \<longleftrightarrow> ss_sink s = sink_new L \<and> ss_live s \<and> ss_accepted s = []"

definition taken_line :: "(string, 'l) flume \<Rightarrow> string \<Rightarrow> 'l sink \<Rightarrow> string list" where
  "taken_line L line k = (if snd (ch_try_send L (sk_ch k) line) = Sent then [line] else [])"

inductive sink_step :: "(string, 'l) flume \<Rightarrow> 'l sink_sys \<Rightarrow> 'l sink_sys \<Rightarrow> bool" for L where
  ss_write: "ss_live s \<Longrightarrow> sink_step L s (s\<lparr>ss_sink := write_line L line (ss_sink s),
      ss_accepted := ss_accepted s @ taken_line L line (ss_sink s)\<rparr>)"
| ss_close: "ss_live s \<Longrightarrow> sink_step L s (s\<lparr>ss_live := False, ss_sink := sink_drop L (ss_sink s)\<rparr>)"
| ss_flush: "sink_step L s (s\<lparr>ss_sink := flusher L (ss_sink s)\<rparr>)"

inductive_cases sink_stepE: "sink_step L s t"

text \<open>
  What was written and what is queued make up what was accepted; and whatever was written
  has been flushed when the flusher waits or is gone.
\<close>

definition sink_inv ::
  "('l \<Rightarrow> string list) \<Rightarrow> ('l \<Rightarrow> nat) \<Rightarrow> ('l \<Rightarrow> nat) \<Rightarrow> ('l \<Rightarrow> bool) \<Rightarrow> 'l sink_sys \<Rightarrow> bool" where
  "sink_inv items cap senders alive s \<longleftrightarrow>
     (let k = ss_sink s in
      senders (sk_ch k) = of_bool (ss_live s)
      \<and> (if sk_pc k = FlExited
         then \<not> ss_live s \<and> sink_output (sk_calls k) = lines_text (ss_accepted s)
         else cap (sk_ch k) = SINK_BUFFER \<and> alive (sk_ch k)
           \<and> sink_output (sk_calls k) @ lines_text (items (sk_ch k)) = lines_text (ss_accepted s))
      \<and> (sk_pc k \<noteq> FlDraining \<longrightarrow> sk_calls k = [] \<or> last (sk_calls k) = Flush)
      \<and> (sk_pc k = FlExited \<longrightarrow> sk_calls k \<noteq> []))"

locale sink_channel = flume_channel L items cap senders alive
  for L :: "(string, 'l) flume" and items cap senders alive
begin

abbreviation inv :: "'l sink_sys \<Rightarrow> bool" where
  "inv \<equiv> sink_inv items cap senders alive"

lemma inv_start: "sink_start L s \<Longrightarrow> inv s"
  using bounded_view[of SINK_BUFFER]
  by (simp add: sink_start_def sink_inv_def sink_new_def SINK_BUFFER_def)

lemma inv_write:
  assumes "inv s" "ss_live s"
  shows "inv (s\<lparr>ss_sink := write_line L line (ss_sink s),
      ss_accepted := ss_accepted s @ taken_line L line (ss_sink s)\<rparr>)"
proof -
  obtain c r where t: "ch_try_send L (sk_ch (ss_sink s)) line = (c, r)" by fastforce
  have pc: "sk_pc (ss_sink s) \<noteq> FlExited" using assms by (auto simp: sink_inv_def Let_def)
  with assms have c0: "0 < cap (sk_ch (ss_sink s))"
    by (auto simp: sink_inv_def Let_def SINK_BUFFER_def)
  show ?thesis
    using assms pc t send_SentD[of "sk_ch (ss_sink s)" line c] send_not_Sent[OF t _ c0] c0
    by (cases "r = Sent") (auto simp: sink_inv_def Let_def write_line_def taken_line_def)
qed

lemma inv_close: "inv s \<Longrightarrow> ss_live s \<Longrightarrow> inv (s\<lparr>ss_live := False, ss_sink := sink_drop L (ss_sink s)\<rparr>)"
  by (auto simp: sink_inv_def Let_def sink_drop_def)

lemma inv_flush: "inv s \<Longrightarrow> inv (s\<lparr>ss_sink := flusher L (ss_sink s)\<rparr>)"
  by (cases rule: recv_cases[of "sk_ch (ss_sink s)"]; cases "sk_pc (ss_sink s)")
    (auto simp: sink_inv_def Let_def flusher_def sink_put_def)

text \<open>Once the sink is dropped, the flusher writes out the queue and leaves.\<close>

lemma flusher_drains:
  assumes "senders (sk_ch k) = 0" "sk_pc k = FlDraining" "items (sk_ch k) = ls"
  shows "\<exists>c. (flusher L ^^ (length ls + 2)) k = \<lparr>sk_ch = c, sk_pc = FlExited,
      sk_calls = sk_calls k @ concat (map (\<lambda>l. [WriteAll l, WriteAll LF]) ls) @ [Flush, Flush]\<rparr>"
  using assms
proof (induction ls arbitrary: k)
  case Nil
  then show ?case
    using recv_gone[of "sk_ch k"] by (cases k) (simp add: flusher_def)
next
  case (Cons l ls)
  then obtain c where c: "ch_try_recv L (sk_ch k) = (c, Received l)" "items c = ls" "senders c = 0"
    using recv_item[of "sk_ch k" l ls] by auto
  then have f: "flusher L k = sink_put l (k\<lparr>sk_ch := c\<rparr>)"
    using Cons.prems by (simp add: flusher_def)
  have "\<exists>c'. (flusher L ^^ (length ls + 2)) (flusher L k) = \<lparr>sk_ch = c', sk_pc = FlExited,
      sk_calls = sk_calls (flusher L k) @ concat (map (\<lambda>l. [WriteAll l, WriteAll LF]) ls) @ [Flush, Flush]\<rparr>"
    by (rule Cons.IH) (use c f Cons.prems in \<open>simp_all add: sink_put_def\<close>)
  then show ?case by (simp add: f sink_put_def funpow_swap1)
qed

lemma flusher_finishes:
  assumes "inv s" "\<not> ss_live s"
  shows "\<exists>n \<le> length (items (sk_ch (ss_sink s))) + 2.
      let k = (flusher L ^^ n) (ss_sink s)
      in sk_pc k = FlExited \<and> sink_output (sk_calls k) = lines_text (ss_accepted s) \<and> last (sk_calls k) = Flush"
proof -
  let ?k = "ss_sink s"
  have drain: "\<exists>n \<le> length (items (sk_ch k)) + 2. let k' = (flusher L ^^ n) k
      in sk_pc k' = FlExited \<and> last (sk_calls k') = Flush
        \<and> sink_output (sk_calls k') = sink_output (sk_calls k) @ lines_text (items (sk_ch k))"
    if "sk_pc k = FlDraining" "senders (sk_ch k) = 0" for k
    using flusher_drains[OF that(2,1) refl]
    by (auto simp: Let_def sink_output_puts intro!: exI[of _ "length (items (sk_ch k)) + 2"])
  have sn: "senders (sk_ch ?k) = 0" using assms by (simp add: sink_inv_def Let_def)
  show ?thesis
  proof (cases "sk_pc ?k")
    case FlExited
    with assms show ?thesis by (intro exI[of _ 0]) (auto simp: sink_inv_def Let_def)
  next
    case FlDraining
    with drain[OF FlDraining sn] assms show ?thesis by (auto simp: sink_inv_def Let_def)
  next
    case w: FlWaiting
    show ?thesis
    proof (cases rule: recv_cases[of "sk_ch ?k"])
      case (item l c)
      then have f: "flusher L ?k = sink_put l (?k\<lparr>sk_ch := c, sk_pc := FlDraining\<rparr>)"
        using w by (simp add: flusher_def)
      obtain n where "n \<le> length (items c) + 2"
          "let k' = (flusher L ^^ n) (flusher L ?k) in sk_pc k' = FlExited \<and> last (sk_calls k') = Flush
            \<and> sink_output (sk_calls k') = sink_output (sk_calls (flusher L ?k)) @ lines_text (items c)"
        using drain[of "flusher L ?k"] f item sn by (auto simp: sink_put_def)
      then show ?thesis using assms w item f
        by (intro exI[of _ "Suc n"]) (auto simp: sink_inv_def Let_def sink_put_def funpow_swap1)
    next
      case gone
      with w assms show ?thesis
        by (intro exI[of _ 1]) (auto simp: sink_inv_def Let_def flusher_def)
    qed (use sn in simp)
  qed
qed

lemma taken_line_iff:
  "inv s \<Longrightarrow> ss_live s
    \<Longrightarrow> taken_line L line (ss_sink s) = (if length (items (sk_ch (ss_sink s))) < SINK_BUFFER then [line] else [])"
  using send_Sent_iff[of "sk_ch (ss_sink s)" line]
  by (auto simp: sink_inv_def Let_def taken_line_def SINK_BUFFER_def split: if_splits)

lemma output_prefix: "inv s \<Longrightarrow> prefix (sink_output (sk_calls (ss_sink s))) (lines_text (ss_accepted s))"
  by (auto simp: sink_inv_def Let_def split: if_splits intro: prefixI[OF sym])

end

sublocale sink_channel \<subseteq> invariant_system "sink_start L" "sink_step L" "sink_inv items cap senders alive"
  by unfold_locales (auto elim!: sink_stepE intro: inv_start inv_write inv_close inv_flush)

context sink_channel
begin

lemma sink_reach: "reach (sink_start L) (sink_step L) s \<Longrightarrow> inv s"
  by (rule reach_Inv)

end

interpretation list_sink: sink_channel list_flume lc_items lc_cap lc_senders lc_alive
  by unfold_locales

section \<open>Properties\<close>

text \<open>
  C37: the log sink: in every state the callers and the flusher can reach, the bytes written
  are the start of the accepted lines, in order and each with its newline; a line is dropped
  only when 8192 lines are queued; and once the sink is dropped, the flusher thread ends,
  within as many receives as there are queued lines and two more, with every accepted line
  written and flushed.
\<close>

theorem sink_loses_nothing:
  assumes "flume_channel L items cap senders alive" "reach (sink_start L) (sink_step L) s"
  shows "prefix (sink_output (sk_calls (ss_sink s))) (lines_text (ss_accepted s))
    \<and> (ss_live s \<longrightarrow> taken_line L line (ss_sink s)
          = (if length (items (sk_ch (ss_sink s))) < SINK_BUFFER then [line] else []))
    \<and> (\<not> ss_live s \<longrightarrow> (\<exists>n \<le> length (items (sk_ch (ss_sink s))) + 2.
          let k = (flusher L ^^ n) (ss_sink s)
          in sk_pc k = FlExited \<and> sink_output (sk_calls k) = lines_text (ss_accepted s)
             \<and> last (sk_calls k) = Flush))"
proof -
  have ch: "sink_channel L items cap senders alive"
    using assms(1) by (simp add: sink_channel_def)
  have i: "sink_inv items cap senders alive s" by (rule sink_channel.sink_reach[OF ch assms(2)])
  show ?thesis
    using sink_channel.output_prefix[OF ch i] sink_channel.taken_line_iff[OF ch i]
      sink_channel.flusher_finishes[OF ch i] by blast
qed

definition example_sink :: "string list_chan sink_sys" where
  "example_sink =
     (let k = sink_drop list_flume (write_line list_flume ''hi'' (sink_new list_flume))
      in \<lparr>ss_sink = k, ss_live = False, ss_accepted = [''hi'']\<rparr>)"

theorem sink_loses_nothing_witness:
  "\<exists>n \<le> 3. sink_output (sk_calls ((flusher list_flume ^^ n) (ss_sink example_sink))) = ''hi'' @ LF"
proof -
  let ?L = "list_flume :: (string, string list_chan) flume"
  define s0 :: "string list_chan sink_sys" where
    "s0 = \<lparr>ss_sink = sink_new ?L, ss_live = True, ss_accepted = []\<rparr>"
  define s1 where "s1 = s0\<lparr>ss_sink := write_line ?L ''hi'' (ss_sink s0), ss_accepted := [''hi'']\<rparr>"
  have r0: "reach (sink_start ?L) (sink_step ?L) s0"
    by (rule reach_init) (simp add: s0_def sink_start_def)
  have t: "taken_line ?L ''hi'' (ss_sink s0) = [''hi'']" 
    by (simp add: s0_def taken_line_def sink_new_def list_flume_def SINK_BUFFER_def)
  have "sink_step ?L s0 s1"
    using ss_write[of s0 ?L "''hi''"] t by (simp add: s1_def) (simp add: s0_def)
  with r0 have r1: "reach (sink_start ?L) (sink_step ?L) s1" by (rule reach_step)
  have "sink_step ?L s1 example_sink"
    using ss_close[of s1 ?L] by (simp add: s1_def s0_def example_sink_def Let_def)
  with r1 have r: "reach (sink_start ?L) (sink_step ?L) example_sink" by (rule reach_step)
  have "length (lc_items (sk_ch (ss_sink example_sink))) = 1" "\<not> ss_live example_sink"
      "lines_text (ss_accepted example_sink) = ''hi'' @ LF"
    by (simp_all add: example_sink_def Let_def sink_drop_def write_line_def sink_new_def list_flume_def
        SINK_BUFFER_def)
  with sink_loses_nothing[OF list_ch.flume_channel_axioms r] show ?thesis
    by (auto simp: Let_def eval_nat_numeral)
qed

section \<open>Further facts\<close>

text \<open>
  The parts of the breakdown add up to the total, unless the measured parts already exceed
  it, when the server's own share is shown as zero.
\<close>

lemma kino_time_sums: "tm_ruby t + tm_wait t \<le> d \<Longrightarrow> tm_ruby t + kino_time d t + tm_wait t = d"
  by (simp add: kino_time_def)

lemma kino_time_floor: "d \<le> tm_ruby t + tm_wait t \<Longrightarrow> kino_time d t = 0"
  by (simp add: kino_time_def)

text \<open>An open device takes the message without its trailing newlines; a closed one ignores it.\<close>

lemma trim_end_newlines_append [simp]: "trim_end_newlines (s @ LF) = trim_end_newlines s"
  by (simp add: trim_end_newlines_def LF_def)

lemma device_open_write:
  assumes "device_open L open_file path D = (D', Inr i)"
  shows "dv_map (device_write L i (m @ LF) D') i = Some (write_line L (trim_end_newlines m) (sink_new L))"
  using assms by (auto simp: device_open_def device_write_def Let_def split: option.splits if_splits)

lemma device_write_closed: "device_write L i m (device_close L i D) = device_close L i D"
  by (auto simp: device_write_def device_close_def split: option.splits)

end
