(* ===== verification/Kino_Intake.thy ===== *)
theory Kino_Intake
  imports Kino_Lifecycle Kino_Logging
begin

text \<open>
  The intake of a request (\<open>handle_request\<close> in \<open>ext/kino/src/server.rs\<close>): from the parsed
  head to the response given back to hyper. \<open>handle_request\<close> is a future: it runs to its
  first await when it is first polled (\<open>intake_arrive\<close>), goes on when it is polled again
  (\<open>intake_poll\<close>), and is dropped at the await it has reached when the client hangs up
  (\<open>intake_hangup\<close>). Between two polls anything else in the process may happen.

  A send that waits for room in the shared queue is tried again at each poll.
\<close>

section \<open>Small pieces\<close>

definition unavailable :: "'h header_ops \<Rightarrow> 'c server_inner \<Rightarrow> 'c server_inner \<times> 'h response" where
  "unavailable H sv =
     (sv\<lparr>sv_rejected := sv_rejected sv + 1\<rparr>, plain_response H 503 (''Service Unavailable'' @ LF))"

definition branded :: "'h header_ops \<Rightarrow> 'h response \<Rightarrow> 'h response" where
  "branded H resp = resp\<lparr>rs_headers := hm_or_insert H (rs_headers resp) ''server'' ''Kino''\<rparr>"

text \<open>\<open>str::trim\<close> on ASCII text.\<close>

definition is_space :: "char \<Rightarrow> bool" where
  "is_space c \<longleftrightarrow> (let v = of_char c :: nat in 9 \<le> v \<and> v \<le> 13 \<or> v = 32)"

definition trim :: "string \<Rightarrow> string" where
  "trim s = rev (dropWhile is_space (rev (dropWhile is_space s)))"

definition content_length :: "'h header_ops \<Rightarrow> 'h \<Rightarrow> u64 option" where
  "content_length H headers =
     (case hm_get H headers ''content-length'' of
        None \<Rightarrow> None
      | Some v \<Rightarrow>
          (case header_to_str v of
             None \<Rightarrow> None
           | Some s \<Rightarrow> map_option of_nat (parse_uint (2 ^ 64 - 1) (trim s))))"

text \<open>The request as hyper hands it over; \<open>hq_end_stream\<close> says that it has no body.\<close>

record 'h http_request =
  hq_method :: string
  hq_uri :: uri
  hq_version :: http_version
  hq_headers :: 'h
  hq_end_stream :: bool

definition request_target :: "uri \<Rightarrow> string" where
  "request_target u = (case ur_query u of Some q \<Rightarrow> ur_path u @ ''?'' @ q | None \<Rightarrow> ur_path u)"

definition oversize :: "'h header_ops \<Rightarrow> 'c server_inner \<Rightarrow> 'h http_request \<Rightarrow> bool" where
  "oversize H sv rq \<longleftrightarrow>
     0 < sv_max_body_size sv
     \<and> (case content_length H (hq_headers rq) of None \<Rightarrow> False | Some len \<Rightarrow> sv_max_body_size sv < len)"

section \<open>State\<close>

text \<open>
  Where the future is: waiting for a lane or for room in the shared queue, with the request
  in hand and the deadline, or for the response head, with the deadline if there is one.
  \<open>ending\<close> records which way a finished request ended.
\<close>

datatype ('h, 'b) await_point =
  AtLane "('h, 'b) request_ctx" instant
| AtQueue "('h, 'b) request_ctx" instant
| AtHead "instant option"

datatype ending = Oversized | Rejected | HeadDelivered | HeadClosed | HeadTimedOut

text \<open>\<open>log_meta\<close>: the time of arrival, the method and the target, when there is an access log.\<close>

type_synonym log_meta = "(instant \<times> string \<times> string) option"

datatype ('h, 'b) request_fut =
  Awaiting log_meta "('h, 'b) await_point"
| Ended ending "'h response"
| Dropped

text \<open>
  The server, the responders and heads of its requests, its log sink, and the requests by
  number. The entry of a responder stands for both ends of its head channel.
\<close>

record ('h, 'b, 'c, 'o, 'f, 'l) intake =
  ik_server :: "'c server_inner"
  ik_responders :: "nat \<rightharpoonup> ('o, 'f) responder"
  ik_log :: "'l sink"
  ik_reqs :: "nat \<rightharpoonup> ('h, 'b) request_fut"

record ('h, 'b, 'c, 'o, 'f, 'l) intake_libs =
  il_headers :: "'h header_ops"
  il_oneshot :: "('h response, 'o) oneshot"
  il_frames :: "(frame_result, 'f) flume"
  il_body :: "(bytes, 'b) flume"
  il_queue :: "(('h, 'b) request_ctx, 'c) flume"
  il_sink :: "(string, 'l) flume"
  il_terminal :: terminal
  il_stamp :: "instant \<Rightarrow> string"
  il_fixed1 :: "nat \<Rightarrow> nat \<Rightarrow> string"

definition on_intake_server ::
  "('c server_inner \<Rightarrow> 'c server_inner) \<Rightarrow> ('h, 'b, 'c, 'o, 'f, 'l) intake \<Rightarrow> ('h, 'b, 'c, 'o, 'f, 'l) intake" where
  "on_intake_server f st = st\<lparr>ik_server := f (ik_server st)\<rparr>"

definition set_fut ::
  "nat \<Rightarrow> ('h, 'b) request_fut \<Rightarrow> ('h, 'b, 'c, 'o, 'f, 'l) intake \<Rightarrow> ('h, 'b, 'c, 'o, 'f, 'l) intake" where
  "set_fut k fut st = st\<lparr>ik_reqs := (ik_reqs st)(k \<mapsto> fut)\<rparr>"

section \<open>Leaving\<close>

text \<open>Dropping a request context that was not handed on answers its responder.\<close>

definition drop_ctx ::
  "('h, 'b, 'c, 'o, 'f, 'l) intake_libs \<Rightarrow> ('h, 'b) request_ctx \<Rightarrow> ('h, 'b, 'c, 'o, 'f, 'l) intake
     \<Rightarrow> ('h, 'b, 'c, 'o, 'f, 'l) intake" where
  "drop_ctx L ctx st =
     st\<lparr>ik_responders := outcome_state
          (answer (il_headers L) (il_oneshot L) (il_frames L) (cx_responder ctx) (ik_responders st))\<rparr>"

text \<open>
  Whichever way the future ends, the receiving end of the head channel is dropped, and the
  guard takes the request off the server's count.
\<close>

definition drop_future ::
  "('h, 'b, 'c, 'o, 'f, 'l) intake_libs \<Rightarrow> nat \<Rightarrow> ('h, 'b, 'c, 'o, 'f, 'l) intake
     \<Rightarrow> ('h, 'b, 'c, 'o, 'f, 'l) intake" where
  "drop_future L k st =
     on_intake_server (\<lambda>sv. sv\<lparr>sv_in_flight := sv_in_flight sv - 1\<rparr>)
       (st\<lparr>ik_responders := (ik_responders st)(k := map_option
             (\<lambda>r. r\<lparr>rp_head := os_drop_receiver (il_oneshot L) (rp_head r)\<rparr>) (ik_responders st k))\<rparr>)"

text \<open>The single exit: the completion record, the brand, and the end of the future.\<close>

definition intake_end ::
  "('h, 'b, 'c, 'o, 'f, 'l) intake_libs \<Rightarrow> instant \<Rightarrow> nat \<Rightarrow> log_meta \<Rightarrow> ending \<Rightarrow> 'h response
     \<Rightarrow> ('h, 'b, 'c, 'o, 'f, 'l) intake \<Rightarrow> ('h, 'b, 'c, 'o, 'f, 'l) intake" where
  "intake_end L now k meta why resp st =
     (let st = (case meta of
                  None \<Rightarrow> st
                | Some (start, method, target) \<Rightarrow>
                    st\<lparr>ik_log := write_line (il_sink L)
                        (completion (il_terminal L) (il_fixed1 L) (il_stamp L now) (rs_status resp)
                          method target (now - start) (rs_timing resp)) (ik_log st)\<rparr>)
      in set_fut k (Ended why (branded (il_headers L) resp)) (drop_future L k st))"

definition intake_reject ::
  "('h, 'b, 'c, 'o, 'f, 'l) intake_libs \<Rightarrow> instant \<Rightarrow> nat \<Rightarrow> log_meta \<Rightarrow> ('h, 'b) request_ctx
     \<Rightarrow> ('h, 'b, 'c, 'o, 'f, 'l) intake \<Rightarrow> ('h, 'b, 'c, 'o, 'f, 'l) intake" where
  "intake_reject L now k meta ctx st =
     (case unavailable (il_headers L) (ik_server st) of
        (sv, resp) \<Rightarrow> intake_end L now k meta Rejected resp (drop_ctx L ctx (st\<lparr>ik_server := sv\<rparr>)))"

section \<open>Waiting for the head\<close>

definition poll_head ::
  "('h, 'b, 'c, 'o, 'f, 'l) intake_libs \<Rightarrow> instant \<Rightarrow> nat \<Rightarrow> log_meta \<Rightarrow> instant option
     \<Rightarrow> ('h, 'b, 'c, 'o, 'f, 'l) intake \<Rightarrow> ('h, 'b, 'c, 'o, 'f, 'l) intake" where
  "poll_head L now k meta deadline st =
     (let H = il_headers L in
      case (case ik_responders st k of None \<Rightarrow> Closed | Some r \<Rightarrow> os_poll (il_oneshot L) (rp_head r)) of
        Delivered resp \<Rightarrow> intake_end L now k meta HeadDelivered resp st
      | Closed \<Rightarrow> intake_end L now k meta HeadClosed (plain_response H 500 (''Internal Server Error'' @ LF)) st
      | Pending \<Rightarrow>
          if (case deadline of None \<Rightarrow> False | Some d \<Rightarrow> d \<le> now)
          then intake_end L now k meta HeadTimedOut (plain_response H 504 (''Gateway Timeout'' @ LF))
                 (on_intake_server (\<lambda>sv. sv\<lparr>sv_timeouts := sv_timeouts sv + 1\<rparr>) st)
          else set_fut k (Awaiting meta (AtHead deadline)) st)"

definition head_deadline :: "instant \<Rightarrow> 'c server_inner \<Rightarrow> instant option" where
  "head_deadline now sv =
     (let ms = sv_request_timeout_ms sv in if 0 < ms then Some (now + millis ms) else None)"

definition await_head ::
  "('h, 'b, 'c, 'o, 'f, 'l) intake_libs \<Rightarrow> instant \<Rightarrow> nat \<Rightarrow> log_meta \<Rightarrow> ('h, 'b, 'c, 'o, 'f, 'l) intake
     \<Rightarrow> ('h, 'b, 'c, 'o, 'f, 'l) intake" where
  "await_head L now k meta st =
     poll_head L now k meta (head_deadline now (ik_server st)) st"

section \<open>Enqueueing\<close>

text \<open>
  One turn of \<open>dispatch_to_lane\<close>: \<open>None\<close> to sleep and try again with the request handed
  back, otherwise its answer.
\<close>

definition lane_turn ::
  "('x, 'c) flume \<Rightarrow> instant \<Rightarrow> instant \<Rightarrow> 'c server_inner \<Rightarrow> 'x \<Rightarrow> 'c server_inner \<times> bool option" where
  "lane_turn F deadline now sv ctx =
     (case try_dispatch F sv ctx of
        (sv', DispatchSent) \<Rightarrow> (sv', Some True)
      | (sv', DispatchClosed) \<Rightarrow> (sv', Some False)
      | (sv', DispatchFull _) \<Rightarrow> (sv', if deadline \<le> now then Some False else None))"

definition poll_lane ::
  "('h, 'b, 'c, 'o, 'f, 'l) intake_libs \<Rightarrow> instant \<Rightarrow> nat \<Rightarrow> log_meta \<Rightarrow> ('h, 'b) request_ctx \<Rightarrow> instant
     \<Rightarrow> ('h, 'b, 'c, 'o, 'f, 'l) intake \<Rightarrow> ('h, 'b, 'c, 'o, 'f, 'l) intake" where
  "poll_lane L now k meta ctx deadline st =
     (case lane_turn (il_queue L) deadline now (ik_server st) ctx of
        (sv, None) \<Rightarrow> set_fut k (Awaiting meta (AtLane ctx deadline)) (st\<lparr>ik_server := sv\<rparr>)
      | (sv, Some True) \<Rightarrow> await_head L now k meta (st\<lparr>ik_server := sv\<rparr>)
      | (sv, Some False) \<Rightarrow> intake_reject L now k meta ctx (st\<lparr>ik_server := sv\<rparr>))"

text \<open>The clone of the shared queue's sender lives as long as the send.\<close>

definition drop_tx :: "('x, 'c) flume \<Rightarrow> 'c server_inner \<Rightarrow> 'c server_inner" where
  "drop_tx F sv = sv\<lparr>sv_req := ch_drop_sender F (sv_req sv)\<rparr>"

definition clone_tx :: "('x, 'c) flume \<Rightarrow> 'c server_inner \<Rightarrow> 'c server_inner" where
  "clone_tx F sv = sv\<lparr>sv_req := ch_clone_sender F (sv_req sv)\<rparr>"

definition poll_queue ::
  "('h, 'b, 'c, 'o, 'f, 'l) intake_libs \<Rightarrow> instant \<Rightarrow> nat \<Rightarrow> log_meta \<Rightarrow> ('h, 'b) request_ctx \<Rightarrow> instant
     \<Rightarrow> ('h, 'b, 'c, 'o, 'f, 'l) intake \<Rightarrow> ('h, 'b, 'c, 'o, 'f, 'l) intake" where
  "poll_queue L now k meta ctx deadline st =
     (let F = il_queue L in
      case ch_try_send F (sv_req (ik_server st)) ctx of
        (c, res) \<Rightarrow>
          (let st = on_intake_server (\<lambda>sv. sv\<lparr>sv_req := c\<rparr>) st in
           case res of
             Sent \<Rightarrow> await_head L now k meta (on_intake_server (drop_tx F) st)
           | SendDisconnected ctx \<Rightarrow> intake_reject L now k meta ctx (on_intake_server (drop_tx F) st)
           | SendFull ctx \<Rightarrow>
               if deadline \<le> now then intake_reject L now k meta ctx (on_intake_server (drop_tx F) st)
               else set_fut k (Awaiting meta (AtQueue ctx deadline)) st))"

section \<open>The handler\<close>

definition intake_ctx ::
  "(bytes, 'b) flume \<Rightarrow> 'h header_ops \<Rightarrow> 'c server_inner \<Rightarrow> instant \<Rightarrow> nat \<Rightarrow> socket_addr \<Rightarrow> socket_addr
     \<Rightarrow> 'h http_request \<Rightarrow> ('h, 'b) request_ctx" where
  "intake_ctx B H sv now k remote_addr local_addr rq =
     \<lparr>cx_method = hq_method rq, cx_uri = hq_uri rq, cx_version = hq_version rq, cx_headers = hq_headers rq,
      cx_remote_addr = remote_addr, cx_local_addr = local_addr, cx_https = sv_https sv,
      cx_body_rx = (if oversize H sv rq \<or> hq_end_stream rq then None else Some (ch_bounded B BODY_BUFFER)),
      cx_leftover = None, cx_slot = None, cx_responder = k, cx_enqueued_at = now,
      cx_timed = sv_access_log sv, cx_wait = 0, cx_admitted_at = now, cx_gc = None\<rparr>"

definition intake_arrive ::
  "('h, 'b, 'c, 'o, 'f, 'l) intake_libs \<Rightarrow> instant \<Rightarrow> nat \<Rightarrow> socket_addr \<Rightarrow> socket_addr \<Rightarrow> 'h http_request
     \<Rightarrow> ('h, 'b, 'c, 'o, 'f, 'l) intake \<Rightarrow> ('h, 'b, 'c, 'o, 'f, 'l) intake" where
  "intake_arrive L now k remote_addr local_addr rq st =
     (let H = il_headers L;
          sv = ik_server st;
          target = request_target (hq_uri rq);
          meta = (if sv_access_log sv then Some (now, hq_method rq, target) else None);
          st = (if sv_access_log sv
                then st\<lparr>ik_log := write_line (il_sink L)
                       (arrival (il_terminal L) (il_stamp L now) (hq_method rq) target (sa_ip remote_addr)) (ik_log st)\<rparr>
                else st);
          st = st\<lparr>ik_responders := (ik_responders st)(k \<mapsto> responder_new (il_oneshot L))\<rparr>;
          ctx = intake_ctx (il_body L) H sv now k remote_addr local_addr rq;
          st = on_intake_server (\<lambda>sv. sv\<lparr>sv_in_flight := sv_in_flight sv + 1\<rparr>) st;
          deadline = now + millis (sv_queue_timeout_ms sv)
      in if oversize H sv rq then
           intake_end L now k meta Oversized (plain_response H 413 (''Payload Too Large'' @ LF)) (drop_ctx L ctx st)
         else if sv_lanes sv then poll_lane L now k meta ctx deadline st
         else if \<not> sv_req_tx sv then intake_reject L now k meta ctx st
         else poll_queue L now k meta ctx deadline (on_intake_server (clone_tx (il_queue L)) st))"

definition intake_poll ::
  "('h, 'b, 'c, 'o, 'f, 'l) intake_libs \<Rightarrow> instant \<Rightarrow> nat \<Rightarrow> ('h, 'b, 'c, 'o, 'f, 'l) intake
     \<Rightarrow> ('h, 'b, 'c, 'o, 'f, 'l) intake" where
  "intake_poll L now k st =
     (case ik_reqs st k of
        Some (Awaiting meta (AtLane ctx deadline)) \<Rightarrow> poll_lane L now k meta ctx deadline st
      | Some (Awaiting meta (AtQueue ctx deadline)) \<Rightarrow> poll_queue L now k meta ctx deadline st
      | Some (Awaiting meta (AtHead deadline)) \<Rightarrow> poll_head L now k meta deadline st
      | _ \<Rightarrow> st)"

text \<open>
  The client is gone: what the future holds at its await is dropped. No completion record
  is written.
\<close>

definition intake_hangup ::
  "('h, 'b, 'c, 'o, 'f, 'l) intake_libs \<Rightarrow> nat \<Rightarrow> ('h, 'b, 'c, 'o, 'f, 'l) intake
     \<Rightarrow> ('h, 'b, 'c, 'o, 'f, 'l) intake" where
  "intake_hangup L k st =
     (case ik_reqs st k of
        Some (Awaiting meta p) \<Rightarrow>
          set_fut k Dropped (drop_future L k
            (case p of
               AtLane ctx _ \<Rightarrow> drop_ctx L ctx st
             | AtQueue ctx _ \<Rightarrow> drop_ctx L ctx (on_intake_server (drop_tx (il_queue L)) st)
             | AtHead _ \<Rightarrow> st))
      | _ \<Rightarrow> st)"

text \<open>The state in which a request that has just arrived is dispatched.\<close>

definition arrived ::
  "('h, 'b, 'c, 'o, 'f, 'l) intake_libs \<Rightarrow> instant \<Rightarrow> nat \<Rightarrow> socket_addr \<Rightarrow> 'h http_request
     \<Rightarrow> ('h, 'b, 'c, 'o, 'f, 'l) intake \<Rightarrow> ('h, 'b, 'c, 'o, 'f, 'l) intake" where
  "arrived L now k remote_addr rq st =
     on_intake_server (\<lambda>sv. sv\<lparr>sv_in_flight := sv_in_flight sv + 1\<rparr>)
       (st\<lparr>ik_log := (if sv_access_log (ik_server st)
              then write_line (il_sink L) (arrival (il_terminal L) (il_stamp L now) (hq_method rq)
                (request_target (hq_uri rq)) (sa_ip remote_addr)) (ik_log st) else ik_log st),
          ik_responders := (ik_responders st)(k \<mapsto> responder_new (il_oneshot L))\<rparr>)"

lemma intake_arrive_eq:
  "intake_arrive L now k ra la rq st =
     (let meta = (if sv_access_log (ik_server st) then Some (now, hq_method rq, request_target (hq_uri rq)) else None);
          dl = now + millis (sv_queue_timeout_ms (ik_server st));
          ctx = intake_ctx (il_body L) (il_headers L) (ik_server st) now k ra la rq;
          st1 = arrived L now k ra rq st
      in if oversize (il_headers L) (ik_server st) rq then
           intake_end L now k meta Oversized (plain_response (il_headers L) 413 (''Payload Too Large'' @ LF)) (drop_ctx L ctx st1)
         else if sv_lanes (ik_server st) then poll_lane L now k meta ctx dl st1
         else if \<not> sv_req_tx (ik_server st) then intake_reject L now k meta ctx st1
         else poll_queue L now k meta ctx dl (on_intake_server (clone_tx (il_queue L)) st1))"
  by (simp add: intake_arrive_def arrived_def Let_def)

section \<open>The intake among everything else\<close>

text \<open>
  What else happens in the process: the server's queues, slots and other counters change in
  any way, except that the counters kept here are left alone and the queue's senders are
  only the server's own, which may be dropped. Responders of requests that were handed on
  are used in any order; before that, only the body forwarder holds one.
\<close>

definition leaves_intake :: "('c \<Rightarrow> nat) \<Rightarrow> ('c \<Rightarrow> nat) \<Rightarrow> 'c server_inner \<Rightarrow> 'c server_inner \<Rightarrow> bool" where
  "leaves_intake cap senders sv sv' \<longleftrightarrow>
     sv_in_flight sv' = sv_in_flight sv \<and> sv_rejected sv' = sv_rejected sv \<and> sv_timeouts sv' = sv_timeouts sv
     \<and> cap (sv_req sv') = cap (sv_req sv) \<and> (sv_req_tx sv' \<longrightarrow> sv_req_tx sv)
     \<and> senders (sv_req sv') + of_bool (sv_req_tx sv) = senders (sv_req sv) + of_bool (sv_req_tx sv')"

definition in_hand :: "('h, 'b) request_fut option \<Rightarrow> bool" where
  "in_hand x = (case x of Some (Awaiting _ (AtLane _ _)) \<Rightarrow> True | Some (Awaiting _ (AtQueue _ _)) \<Rightarrow> True | _ \<Rightarrow> False)"

definition is_abandon :: "'h responder_op \<Rightarrow> bool" where
  "is_abandon x = (case x of OpAbandon _ \<Rightarrow> True | _ \<Rightarrow> False)"

inductive intake_step ::
  "('h, 'b, 'c, 'o, 'f, 'l) intake_libs \<Rightarrow> ('c \<Rightarrow> nat) \<Rightarrow> ('c \<Rightarrow> nat) \<Rightarrow> ('h, 'b, 'c, 'o, 'f, 'l) intake
     \<Rightarrow> ('h, 'b, 'c, 'o, 'f, 'l) intake \<Rightarrow> bool" for L cap senders where
  ik_arrive: "ik_reqs st k = None
    \<Longrightarrow> intake_step L cap senders st (intake_arrive L now k remote_addr local_addr rq st)"
| ik_poll: "intake_step L cap senders st (intake_poll L now k st)"
| ik_hangup: "intake_step L cap senders st (intake_hangup L k st)"
| ik_other: "leaves_intake cap senders (ik_server st) sv
    \<Longrightarrow> (\<And>k. in_hand (ik_reqs st k) \<Longrightarrow> list_all is_abandon (ops k))
    \<Longrightarrow> intake_step L cap senders st (st\<lparr>ik_server := sv, ik_log := log,
          ik_responders := (\<lambda>k. map_option (responder_run (il_headers L) (il_oneshot L) (il_frames L) (ops k))
             (ik_responders st k))\<rparr>)"

inductive_cases intake_stepE: "intake_step L cap senders st st'"

definition intake_start :: "('c \<Rightarrow> nat) \<Rightarrow> ('c \<Rightarrow> nat) \<Rightarrow> ('h, 'b, 'c, 'o, 'f, 'l) intake \<Rightarrow> bool" where
  "intake_start cap senders st \<longleftrightarrow>
     ik_reqs st = Map.empty \<and> ik_responders st = Map.empty
     \<and> (let sv = ik_server st in sv_in_flight sv = 0 \<and> sv_rejected sv = 0 \<and> sv_timeouts sv = 0
          \<and> 0 < cap (sv_req sv) \<and> senders (sv_req sv) = of_bool (sv_req_tx sv))"

section \<open>The invariant\<close>

definition is_live :: "('h, 'b) request_fut \<Rightarrow> bool" where
  "is_live fut = (case fut of Awaiting _ _ \<Rightarrow> True | _ \<Rightarrow> False)"

definition is_sending :: "('h, 'b) request_fut \<Rightarrow> bool" where
  "is_sending fut = (case fut of Awaiting _ (AtQueue _ _) \<Rightarrow> True | _ \<Rightarrow> False)"

definition is_ended :: "ending \<Rightarrow> ('h, 'b) request_fut \<Rightarrow> bool" where
  "is_ended why fut = (case fut of Ended w _ \<Rightarrow> w = why | _ \<Rightarrow> False)"

text \<open>How many requests other than those in \<open>X\<close> have a future of some kind.\<close>

definition tally ::
  "(('h, 'b) request_fut \<Rightarrow> bool) \<Rightarrow> nat set \<Rightarrow> (nat \<rightharpoonup> ('h, 'b) request_fut) \<Rightarrow> nat" where
  "tally p X reqs = card {k. k \<notin> X \<and> (\<exists>fut. reqs k = Some fut \<and> p fut)}"

text \<open>What a finished request was answered, in terms of its responder.\<close>

definition answered_as ::
  "'h header_ops \<Rightarrow> ('o \<Rightarrow> 'h response oneshot_view) \<Rightarrow> ending \<Rightarrow> ('o, 'f) responder \<Rightarrow> 'h response \<Rightarrow> bool" where
  "answered_as H view why r resp =
     (case why of
        Oversized \<Rightarrow> resp = branded H (plain_response H 413 (''Payload Too Large'' @ LF))
      | Rejected \<Rightarrow> resp = branded H (plain_response H 503 (''Service Unavailable'' @ LF))
      | HeadTimedOut \<Rightarrow> resp = branded H (plain_response H 504 (''Gateway Timeout'' @ LF))
      | HeadClosed \<Rightarrow> view (rp_head r) = Closed \<and> resp = branded H (internal_server_error H)
      | HeadDelivered \<Rightarrow> (\<exists>head. view (rp_head r) = Delivered head \<and> resp = branded H head))"

definition fut_ok ::
  "'h header_ops \<Rightarrow> ('o \<Rightarrow> 'h response oneshot_view) \<Rightarrow> ('o \<Rightarrow> bool) \<Rightarrow> (('o, 'f) responder \<Rightarrow> bool)
     \<Rightarrow> nat \<Rightarrow> ('o, 'f) responder option \<Rightarrow> ('h, 'b) request_fut option \<Rightarrow> bool" where
  "fut_ok H view listening ok k rsp fut =
     (case fut of
        None \<Rightarrow> rsp = None
      | Some fut \<Rightarrow> (\<exists>r. rsp = Some r \<and> ok r \<and>
          (case fut of
             Awaiting _ p \<Rightarrow> listening (rp_head r) \<and>
               (case p of
                  AtLane ctx _ \<Rightarrow> \<not> rp_responded r \<and> cx_responder ctx = k
                | AtQueue ctx _ \<Rightarrow> \<not> rp_responded r \<and> cx_responder ctx = k
                | AtHead _ \<Rightarrow> True)
           | Ended why resp \<Rightarrow> answered_as H view why r resp
           | Dropped \<Rightarrow> True)))"

text \<open>
  The state while request \<open>k\<close> is being worked on: the others are accounted for, \<open>k\<close> is
  counted in flight, holds a queue sender if \<open>s\<close>, and has added \<open>a\<close> rejections and \<open>b\<close>
  timeouts.
\<close>

definition mid ::
  "'h header_ops \<Rightarrow> ('o \<Rightarrow> 'h response oneshot_view) \<Rightarrow> ('o \<Rightarrow> bool) \<Rightarrow> (('o, 'f) responder \<Rightarrow> bool)
     \<Rightarrow> ('c \<Rightarrow> nat) \<Rightarrow> ('c \<Rightarrow> nat) \<Rightarrow> nat \<Rightarrow> bool \<Rightarrow> bool \<Rightarrow> bool \<Rightarrow> ('h, 'b, 'c, 'o, 'f, 'l) intake \<Rightarrow> bool" where
  "mid H view listening ok cap senders k s a b st \<longleftrightarrow>
     (let sv = ik_server st; reqs = ik_reqs st in
      finite (dom reqs) \<and> 0 < cap (sv_req sv)
      \<and> sv_in_flight sv = of_nat (tally is_live {k} reqs) + 1
      \<and> sv_rejected sv = of_nat (tally (is_ended Rejected) {k} reqs) + of_bool a
      \<and> sv_timeouts sv = of_nat (tally (is_ended HeadTimedOut) {k} reqs) + of_bool b
      \<and> senders (sv_req sv) = of_bool (sv_req_tx sv) + tally is_sending {k} reqs + of_bool s
      \<and> (\<exists>r. ik_responders st k = Some r \<and> ok r)
      \<and> (\<forall>j. j \<noteq> k \<longrightarrow> fut_ok H view listening ok j (ik_responders st j) (reqs j)))"

definition intake_inv ::
  "'h header_ops \<Rightarrow> ('o \<Rightarrow> 'h response oneshot_view) \<Rightarrow> ('o \<Rightarrow> bool) \<Rightarrow> (('o, 'f) responder \<Rightarrow> bool)
     \<Rightarrow> ('c \<Rightarrow> nat) \<Rightarrow> ('c \<Rightarrow> nat) \<Rightarrow> ('h, 'b, 'c, 'o, 'f, 'l) intake \<Rightarrow> bool" where
  "intake_inv H view listening ok cap senders st \<longleftrightarrow>
     (let sv = ik_server st; reqs = ik_reqs st in
      finite (dom reqs) \<and> 0 < cap (sv_req sv)
      \<and> sv_in_flight sv = of_nat (tally is_live {} reqs)
      \<and> sv_rejected sv = of_nat (tally (is_ended Rejected) {} reqs)
      \<and> sv_timeouts sv = of_nat (tally (is_ended HeadTimedOut) {} reqs)
      \<and> senders (sv_req sv) = of_bool (sv_req_tx sv) + tally is_sending {} reqs
      \<and> (\<forall>j. fut_ok H view listening ok j (ik_responders st j) (reqs j)))"

lemma tally_upd:
  assumes "finite (dom reqs)"
  shows "tally p {} (reqs(k \<mapsto> fut)) = tally p {k} reqs + of_bool (p fut)"
proof -
  let ?A = "{j. j \<noteq> k \<and> (\<exists>f. reqs j = Some f \<and> p f)}"
  have fin: "finite ?A" using assms by (rule finite_subset[rotated]) auto
  have "{j. \<exists>f. (reqs(k \<mapsto> fut)) j = Some f \<and> p f} = (if p fut then insert k ?A else ?A)" by auto
  with fin show ?thesis by (auto simp: tally_def)
qed

lemma tally_split:
  assumes "finite (dom reqs)"
  shows "tally p {} reqs = tally p {k} reqs + of_bool (\<exists>fut. reqs k = Some fut \<and> p fut)"
proof (cases "reqs k")
  case None
  then have "{j. \<exists>f. reqs j = Some f \<and> p f} = {j. j \<noteq> k \<and> (\<exists>f. reqs j = Some f \<and> p f)}" by auto
  with None show ?thesis by (simp add: tally_def)
next
  case (Some fut)
  then have "tally p {} reqs = tally p {} (reqs(k \<mapsto> fut))" by (simp add: fun_upd_idem)
  with Some show ?thesis by (simp add: tally_upd[OF assms])
qed

lemma tally_skip [simp]: "tally p {k} (reqs(k \<mapsto> fut)) = tally p {k} reqs"
  unfolding tally_def by (rule arg_cong[where f = card]) auto

lemma tally_empty [simp]: "tally p X Map.empty = 0"
  by (simp add: tally_def)

lemma fut_okD: "fut_ok H view listening ok k rsp (Some fut) \<Longrightarrow> \<exists>r. rsp = Some r \<and> ok r"
  by (auto simp: fut_ok_def)

lemma intake_inv_fut:
  "intake_inv H view listening ok cap senders st \<Longrightarrow> fut_ok H view listening ok j (ik_responders st j) (ik_reqs st j)"
  by (simp add: intake_inv_def Let_def)

text \<open>Entering and leaving the work on a request.\<close>

lemma mid_enter:
  assumes "intake_inv H view listening ok cap senders st" "ik_reqs st k = Some (Awaiting meta p)"
  shows "mid H view listening ok cap senders k (is_sending (Awaiting meta p)) False False st"
proof -
  have "fut_ok H view listening ok k (ik_responders st k) (Some (Awaiting meta p))"
    using intake_inv_fut[OF assms(1), of k] assms(2) by simp
  with assms fut_okD[OF this] show ?thesis
    by (auto simp: intake_inv_def mid_def Let_def tally_split[of "ik_reqs st" _ k] is_live_def is_ended_def)
qed

lemma mid_stay:
  assumes "mid H view listening ok cap senders k (is_sending (Awaiting meta p)) False False st"
    and "fut_ok H view listening ok k (ik_responders st k) (Some (Awaiting meta p))"
  shows "intake_inv H view listening ok cap senders (set_fut k (Awaiting meta p) st)"
  using assms
  by (auto simp: intake_inv_def mid_def Let_def set_fut_def tally_upd is_live_def is_ended_def)

lemma mid_leave:
  assumes "mid H view listening ok cap senders k False (is_ended Rejected fut) (is_ended HeadTimedOut fut) st"
    and "\<not> is_live fut" "fut_ok H view listening ok k (ik_responders (drop_future L k st) k) (Some fut)"
  shows "intake_inv H view listening ok cap senders (set_fut k fut (drop_future L k st))"
  using assms
  by (auto simp: intake_inv_def mid_def Let_def set_fut_def tally_upd drop_future_def on_intake_server_def
      is_live_def is_sending_def split: request_fut.splits)

locale intake_channels =
  world_channels "il_oneshot L" view listening "il_frames L" gitems gcap gsenders galive
    "il_queue L" items cap senders alive
  for L :: "('h, 'b, 'c, 'o, 'f, 'l) intake_libs"
    and view :: "'o \<Rightarrow> 'h response oneshot_view" and listening
    and gitems gcap gsenders galive items cap senders alive
begin

abbreviation at_mid :: "nat \<Rightarrow> bool \<Rightarrow> bool \<Rightarrow> bool \<Rightarrow> ('h, 'b, 'c, 'o, 'f, 'l) intake \<Rightarrow> bool" where
  "at_mid \<equiv> mid (il_headers L) view listening rc.wf cap senders"

abbreviation inv :: "('h, 'b, 'c, 'o, 'f, 'l) intake \<Rightarrow> bool" where
  "inv \<equiv> intake_inv (il_headers L) view listening rc.wf cap senders"

text \<open>What the future's own steps do to the accounts.\<close>

lemma mid_log: "at_mid k s a b st \<Longrightarrow> at_mid k s a b (st\<lparr>ik_log := l\<rparr>)"
  by (simp add: mid_def)

lemma mid_server:
  assumes "at_mid k s a b st"
    and "sv_in_flight sv = sv_in_flight (ik_server st)" "sv_rejected sv = sv_rejected (ik_server st)"
      "sv_timeouts sv = sv_timeouts (ik_server st)" "sv_req_tx sv = sv_req_tx (ik_server st)"
      "cap (sv_req sv) = cap (sv_req (ik_server st))"
      "senders (sv_req sv) + of_bool s = senders (sv_req (ik_server st)) + of_bool s'"
  shows "at_mid k s' a b (st\<lparr>ik_server := sv\<rparr>)"
  using assms by (auto simp: mid_def Let_def)

lemma drop_ctx_mid:
  assumes "at_mid k s a b st" "cx_responder ctx = k"
  shows "at_mid k s a b (drop_ctx L ctx st)"
proof -
  obtain r where "ik_responders st k = Some r" "rc.wf r" using assms(1) by (auto simp: mid_def Let_def)
  moreover have "rc.wf (outcome_state (respond_500_if_unsent (il_headers L) (il_oneshot L) (il_frames L) r))"
    using \<open>rc.wf r\<close> by (rule rc.wf_respond_500)
  ultimately show ?thesis using assms
    by (auto simp: mid_def Let_def drop_ctx_def answer_def split: outcome.splits)
qed

lemma drop_ctx_server [simp]: "ik_server (drop_ctx L ctx st) = ik_server st"
  by (simp add: drop_ctx_def)

lemma wf_drop_receiver: "rc.wf (r\<lparr>rp_head := os_drop_receiver (il_oneshot L) h\<rparr>) = rc.wf (r\<lparr>rp_head := h\<rparr>)"
  using rc.os.drop_receiver_view[of h] by (simp add: wf_responder_def)

lemma answered_as_drop:
  "answered_as H view why (r\<lparr>rp_head := os_drop_receiver (il_oneshot L) (rp_head r)\<rparr>) resp = answered_as H view why r resp"
  using rc.os.drop_receiver_view[of "rp_head r"] by (simp add: answered_as_def split: ending.splits)

lemma end_inv:
  assumes "at_mid k False (why = Rejected) (why = HeadTimedOut) st"
    and "\<And>r. ik_responders st k = Some r \<Longrightarrow> rc.wf r
      \<Longrightarrow> answered_as (il_headers L) view why r (branded (il_headers L) resp)"
  shows "inv (intake_end L now k meta why resp st)"
proof -
  have "inv (set_fut k (Ended why (branded (il_headers L) resp)) (drop_future L k st'))"
    if "at_mid k False (why = Rejected) (why = HeadTimedOut) st'" "ik_responders st' = ik_responders st" for st'
  proof (rule mid_leave)
    obtain r where r: "ik_responders st k = Some r" "rc.wf r" using assms(1) by (auto simp: mid_def Let_def)
    then show "fut_ok (il_headers L) view listening rc.wf k (ik_responders (drop_future L k st') k)
        (Some (Ended why (branded (il_headers L) resp)))"
      using assms(2)[OF r] that(2) wf_drop_receiver[of "rp_head r" r]
      by (auto simp: fut_ok_def drop_future_def on_intake_server_def answered_as_drop)
  qed (use that in \<open>simp_all add: is_ended_def is_live_def\<close>)
  from this[of st] this[of "st\<lparr>ik_log := l\<rparr>" for l] mid_log[OF assms(1)] assms(1) show ?thesis
    by (auto simp: intake_end_def Let_def split: option.splits prod.splits)
qed

lemma reject_inv:
  assumes "at_mid k False False False st" "cx_responder ctx = k"
  shows "inv (intake_reject L now k meta ctx st)"
proof -
  have "at_mid k False True False (drop_ctx L ctx (st\<lparr>ik_server := (ik_server st)\<lparr>sv_rejected := sv_rejected (ik_server st) + 1\<rparr>\<rparr>))"
    by (rule drop_ctx_mid) (use assms in \<open>auto simp: mid_def Let_def\<close>)
  then show ?thesis
    by (auto simp: intake_reject_def unavailable_def answered_as_def intro!: end_inv)
qed

lemma poll_head_inv:
  assumes "at_mid k False False False st" "ik_responders st k = Some r" "listening (rp_head r)"
  shows "inv (poll_head L now k meta dl st)"
proof (cases "view (rp_head r)")
  case Pending
  have "at_mid k False False True (on_intake_server (\<lambda>sv. sv\<lparr>sv_timeouts := sv_timeouts sv + 1\<rparr>) st)"
    using assms(1) by (auto simp: mid_def Let_def on_intake_server_def)
  then have t: "inv (intake_end L now k meta HeadTimedOut (plain_response (il_headers L) 504 (''Gateway Timeout'' @ LF))
      (on_intake_server (\<lambda>sv. sv\<lparr>sv_timeouts := sv_timeouts sv + 1\<rparr>) st))"
    by (auto simp: answered_as_def intro!: end_inv)
  have "rc.wf r" using assms(1,2) by (auto simp: mid_def Let_def)
  then have "inv (set_fut k (Awaiting meta (AtHead dl)) st)"
    using assms by (intro mid_stay) (simp_all add: is_sending_def fut_ok_def)
  with t Pending assms(2) show ?thesis
    by (simp add: poll_head_def Let_def rc.os.poll_view)
next
  case (Delivered resp)
  then have "inv (intake_end L now k meta HeadDelivered resp st)"
    using assms(1,2) by (auto simp: answered_as_def intro!: end_inv)
  with Delivered assms(2) show ?thesis by (simp add: poll_head_def Let_def rc.os.poll_view)
next
  case Closed
  then have "inv (intake_end L now k meta HeadClosed (internal_server_error (il_headers L)) st)"
    using assms(1,2) by (auto simp: answered_as_def intro!: end_inv)
  with Closed assms(2) show ?thesis
    by (simp add: poll_head_def Let_def rc.os.poll_view internal_server_error_def)
qed

lemma await_head_inv:
  "at_mid k False False False st \<Longrightarrow> ik_responders st k = Some r \<Longrightarrow> listening (rp_head r)
    \<Longrightarrow> inv (await_head L now k meta st)"
  by (simp add: await_head_def poll_head_inv)

lemma try_dispatch_keeps:
  assumes "try_dispatch F sv ctx = (sv', d)"
  shows "sv_in_flight sv' = sv_in_flight sv" "sv_rejected sv' = sv_rejected sv" "sv_timeouts sv' = sv_timeouts sv"
    "sv_req_tx sv' = sv_req_tx sv" "sv_req sv' = sv_req sv" "sv_request_timeout_ms sv' = sv_request_timeout_ms sv"
  using assms by (auto simp: try_dispatch_def Let_def split: if_splits prod.splits option.splits)

lemma lane_turn_keeps:
  assumes "lane_turn F dl now sv ctx = (sv', d)"
  shows "sv_in_flight sv' = sv_in_flight sv" "sv_rejected sv' = sv_rejected sv" "sv_timeouts sv' = sv_timeouts sv"
    "sv_req_tx sv' = sv_req_tx sv" "sv_req sv' = sv_req sv"
  using assms try_dispatch_keeps[of F sv ctx] by (auto simp: lane_turn_def split: prod.splits dispatch.splits)

lemma poll_lane_inv:
  assumes "at_mid k False False False st" "ik_responders st k = Some r" "listening (rp_head r)"
    and "\<not> rp_responded r" "cx_responder ctx = k"
  shows "inv (poll_lane L now k meta ctx dl st)"
proof -
  obtain sv d where t: "lane_turn (il_queue L) dl now (ik_server st) ctx = (sv, d)" by fastforce
  have m: "at_mid k False False False (st\<lparr>ik_server := sv\<rparr>)"
    by (rule mid_server[OF assms(1)]) (simp_all add: lane_turn_keeps[OF t])
  have "rc.wf r" using assms(1,2) by (auto simp: mid_def Let_def)
  then have "inv (set_fut k (Awaiting meta (AtLane ctx dl)) (st\<lparr>ik_server := sv\<rparr>))"
    using assms m by (intro mid_stay) (simp_all add: is_sending_def fut_ok_def)
  with t m assms reject_inv[OF m assms(5)] await_head_inv[OF m, of r] show ?thesis
    by (auto simp: poll_lane_def split: option.splits bool.splits)
qed

end

context intake_channels
begin

lemma poll_queue_inv:
  assumes "at_mid k True False False st" "ik_responders st k = Some r" "listening (rp_head r)"
    and "\<not> rp_responded r" "cx_responder ctx = k"
  shows "inv (poll_queue L now k meta ctx dl st)"
proof -
  let ?sv = "ik_server st"
  obtain c res where t: "ch_try_send (il_queue L) (sv_req ?sv) ctx = (c, res)" by fastforce
  have cap: "0 < cap (sv_req ?sv)" using assms(1) by (simp add: mid_def Let_def)
  have c: "cap c = cap (sv_req ?sv) \<and> senders c = senders (sv_req ?sv)"
    "\<And>x. res = SendFull x \<or> res = SendDisconnected x \<Longrightarrow> x = ctx"
    using rq.send_SentD[of _ ctx c, OF _ cap] rq.send_not_Sent[OF t _ cap] t by (cases "res = Sent"; auto)+
  have pos: "0 < senders (sv_req ?sv)" using assms(1) by (simp add: mid_def Let_def)
  have m1: "at_mid k True False False (on_intake_server (\<lambda>sv. sv\<lparr>sv_req := c\<rparr>) st)"
    unfolding on_intake_server_def by (rule mid_server[OF assms(1)]) (simp_all add: c)
  have m2: "at_mid k False False False (on_intake_server (drop_tx (il_queue L)) (on_intake_server (\<lambda>sv. sv\<lparr>sv_req := c\<rparr>) st))"
    unfolding on_intake_server_def
    by (rule mid_server[OF m1[unfolded on_intake_server_def]]) (use c pos in \<open>simp_all add: drop_tx_def\<close>)
  have "rc.wf r" using assms(1,2) by (auto simp: mid_def Let_def)
  then have "inv (set_fut k (Awaiting meta (AtQueue ctx dl)) (on_intake_server (\<lambda>sv. sv\<lparr>sv_req := c\<rparr>) st))"
    using assms m1 by (intro mid_stay) (simp_all add: is_sending_def fut_ok_def on_intake_server_def)
  with t c(2) reject_inv[OF m2 assms(5)] await_head_inv[OF m2, of r] assms(2,3) show ?thesis
    by (auto simp: poll_queue_def Let_def on_intake_server_def split: send_result.splits)
qed

lemma fut_ok_awaiting:
  assumes "inv st" "ik_reqs st k = Some (Awaiting meta p)"
  shows "\<exists>r. ik_responders st k = Some r \<and> rc.wf r \<and> listening (rp_head r)
    \<and> (\<forall>ctx d. p = AtLane ctx d \<or> p = AtQueue ctx d \<longrightarrow> \<not> rp_responded r \<and> cx_responder ctx = k)"
proof -
  have "fut_ok (il_headers L) view listening rc.wf k (ik_responders st k) (Some (Awaiting meta p))"
    using intake_inv_fut[OF assms(1), of k] assms(2) by simp
  then show ?thesis by (cases p) (auto simp: fut_ok_def)
qed

lemma poll_inv: "inv st \<Longrightarrow> inv (intake_poll L now k st)"
proof -
  assume i: "inv st"
  show ?thesis
  proof (cases "\<exists>meta p. ik_reqs st k = Some (Awaiting meta p)")
    case True
    then obtain meta p where a: "ik_reqs st k = Some (Awaiting meta p)" by blast
    from mid_enter[OF i a] have m: "at_mid k (is_sending (Awaiting meta p)) False False st" .
    from fut_ok_awaiting[OF i a] obtain r where r: "ik_responders st k = Some r" "rc.wf r" "listening (rp_head r)"
      "\<forall>ctx d. p = AtLane ctx d \<or> p = AtQueue ctx d \<longrightarrow> \<not> rp_responded r \<and> cx_responder ctx = k"
      by blast
    with a m r show ?thesis
      by (cases p) (auto simp: intake_poll_def is_sending_def intro: poll_lane_inv poll_queue_inv poll_head_inv)
  next
    case False
    with i show ?thesis by (auto simp: intake_poll_def split: option.splits request_fut.splits)
  qed
qed

lemma hangup_inv: "inv st \<Longrightarrow> inv (intake_hangup L k st)"
proof -
  assume i: "inv st"
  show ?thesis
  proof (cases "\<exists>meta p. ik_reqs st k = Some (Awaiting meta p)")
    case True
    then obtain meta p where a: "ik_reqs st k = Some (Awaiting meta p)" by blast
    from mid_enter[OF i a] have m: "at_mid k (is_sending (Awaiting meta p)) False False st" .
    from fut_ok_awaiting[OF i a] obtain r where r: "ik_responders st k = Some r" "rc.wf r" "listening (rp_head r)"
      "\<forall>ctx d. p = AtLane ctx d \<or> p = AtQueue ctx d \<longrightarrow> \<not> rp_responded r \<and> cx_responder ctx = k"
      by blast
    define st' where "st' = (case p of
               AtLane ctx _ \<Rightarrow> drop_ctx L ctx st
             | AtQueue ctx _ \<Rightarrow> drop_ctx L ctx (on_intake_server (drop_tx (il_queue L)) st)
             | AtHead _ \<Rightarrow> st)"
    have "at_mid k False False False (on_intake_server (drop_tx (il_queue L)) st)" if "is_sending (Awaiting meta p)"
      unfolding on_intake_server_def
      by (rule mid_server[OF m]) (use m that in \<open>auto simp: drop_tx_def mid_def Let_def\<close>)
    then have m': "at_mid k False False False st'"
      using m r by (auto simp: st'_def is_sending_def split: await_point.splits intro: drop_ctx_mid)
    then have "inv (set_fut k Dropped (drop_future L k st'))"
    proof (intro mid_leave)
      obtain r' where "ik_responders st' k = Some r'" "rc.wf r'" using m' by (auto simp: mid_def Let_def)
      then show "fut_ok (il_headers L) view listening rc.wf k (ik_responders (drop_future L k st') k) (Some Dropped)"
        using wf_drop_receiver[of "rp_head r'" r'] by (simp add: fut_ok_def drop_future_def on_intake_server_def)
    qed (simp_all add: is_ended_def is_live_def)
    with a show ?thesis by (simp add: intake_hangup_def st'_def)
  next
    case False
    with i show ?thesis by (auto simp: intake_hangup_def split: option.splits request_fut.splits)
  qed
qed

lemma arrived_mid:
  assumes "inv st" "ik_reqs st k = None"
  shows "at_mid k False False False (arrived L now k ra rq st)"
  using assms rc.wf_new
  by (auto simp: intake_inv_def mid_def Let_def arrived_def on_intake_server_def tally_split[of "ik_reqs st" _ k])

lemma arrive_inv:
  assumes "inv st" "ik_reqs st k = None"
  shows "inv (intake_arrive L now k ra la rq st)"
proof -
  define st1 where "st1 = arrived L now k ra rq st"
  define ctx where "ctx = intake_ctx (il_body L) (il_headers L) (ik_server st) now k ra la rq"
  have m: "at_mid k False False False st1" unfolding st1_def by (rule arrived_mid[OF assms])
  have m': "at_mid k True False False (on_intake_server (clone_tx (il_queue L)) st1)"
    unfolding on_intake_server_def by (rule mid_server[OF m]) (simp_all add: clone_tx_def)
  have r: "ik_responders st1 k = Some (responder_new (il_oneshot L))"
    "listening (rp_head (responder_new (il_oneshot L) :: ('o, 'f) responder))"
    "\<not> rp_responded (responder_new (il_oneshot L) :: ('o, 'f) responder)" "cx_responder ctx = k"
    using rc.os.new_view by (simp_all add: st1_def arrived_def on_intake_server_def responder_new_def ctx_def intake_ctx_def)
  have big: "inv (intake_end L now k meta Oversized (plain_response (il_headers L) 413 (''Payload Too Large'' @ LF))
      (drop_ctx L ctx st1))" for meta
    using drop_ctx_mid[OF m r(4)] by (intro end_inv) (simp_all add: answered_as_def)
  show ?thesis
    using big reject_inv[OF m r(4)] poll_lane_inv[OF m r] poll_queue_inv[OF m' _ r(2-4)] r(1)
    by (simp add: intake_arrive_eq Let_def on_intake_server_def flip: st1_def ctx_def)
qed

end

text \<open>Steps of the rest of the process.\<close>

lemma abandon_responded: "list_all is_abandon ops \<Longrightarrow> rp_responded (responder_run H P F ops r) = rp_responded r"
  by (induction ops arbitrary: r) (auto simp: is_abandon_def abandon_body_def split: responder_op.splits)

context responder_channels
begin

lemma apply_listening:
  "wf r \<Longrightarrow> listening (rp_head (responder_apply H P F x r)) = listening (rp_head r)"
proof (cases "rp_responded r")
  case False
  assume "wf r"
  then have p: "view (rp_head r) = Pending" using False by (simp add: wf_responder_def)
  have sent: "listening h = listening (rp_head r)" if "os_send P (rp_head r) resp = (h, b)" for resp h b
    using os.send_keeps_listening[OF p, of resp] that by simp
  show ?thesis
    using False os.send_keeps_listening[OF p] os.drop_sender_view[OF p]
    by (cases x) (auto simp: abandon_body_def send_response_def send_stream_head_def body_sender_def
        finish_stream_def respond_500_if_unsent_def Let_def split: option.splits prod.splits send_result.splits bool.splits dest: sent)
qed (simp add: apply_responded)

lemma run_listening:
  "wf r \<Longrightarrow> listening (rp_head (responder_run H P F ops r)) = listening (rp_head r)"
  by (induction ops arbitrary: r) (auto simp: apply_listening wf_apply)

lemma run_not_pending:
  "wf r \<Longrightarrow> view (rp_head r) \<noteq> Pending \<Longrightarrow> rp_head (responder_run H P F ops r) = rp_head r"
  by (rule run_responded) (simp add: wf_responder_def)

end

context intake_channels
begin

lemma other_fut_ok:
  assumes "fut_ok (il_headers L) view listening rc.wf k rsp fut" "in_hand fut \<Longrightarrow> list_all is_abandon ops"
  shows "fut_ok (il_headers L) view listening rc.wf k
    (map_option (responder_run (il_headers L) (il_oneshot L) (il_frames L) ops) rsp) fut"
proof (cases fut)
  case None
  with assms show ?thesis by (simp add: fut_ok_def)
next
  case (Some f)
  let ?run = "responder_run (il_headers L) (il_oneshot L) (il_frames L) ops"
  from assms(1) Some obtain r where r: "rsp = Some r" "rc.wf r" by (auto simp: fut_ok_def)
  have head: "view (rp_head r) = v \<Longrightarrow> v \<noteq> Pending \<Longrightarrow> view (rp_head (?run r)) = v" for v
    using rc.run_not_pending[OF r(2)] by metis
  have "answered_as (il_headers L) view why (?run r) resp" if "answered_as (il_headers L) view why r resp" for why resp
    using that head by (auto simp: answered_as_def split: ending.splits)
  with assms Some r rc.wf_run[OF r(2)] rc.run_listening[OF r(2)]
    abandon_responded[of ops "il_headers L" "il_oneshot L" "il_frames L" r] show ?thesis
    by (auto simp: fut_ok_def in_hand_def split: request_fut.splits await_point.splits)
qed

lemma other_inv:
  assumes "inv st" "leaves_intake cap senders (ik_server st) sv"
    and "\<And>k. in_hand (ik_reqs st k) \<Longrightarrow> list_all is_abandon (ops k)"
  shows "inv (st\<lparr>ik_server := sv, ik_log := log, ik_responders :=
      (\<lambda>k. map_option (responder_run (il_headers L) (il_oneshot L) (il_frames L) (ops k)) (ik_responders st k))\<rparr>)"
proof -
  have "\<forall>j. fut_ok (il_headers L) view listening rc.wf j (ik_responders st j) (ik_reqs st j)"
    using assms(1) by (simp add: intake_inv_def Let_def)
  then have "\<forall>j. fut_ok (il_headers L) view listening rc.wf j
      (map_option (responder_run (il_headers L) (il_oneshot L) (il_frames L) (ops j)) (ik_responders st j)) (ik_reqs st j)"
    using other_fut_ok assms(3) by blast
  with assms(1,2) show ?thesis by (auto simp: intake_inv_def leaves_intake_def Let_def)
qed

lemma start_inv: "intake_start cap senders st \<Longrightarrow> inv st"
  by (auto simp: intake_start_def intake_inv_def Let_def fut_ok_def)

end

sublocale intake_channels \<subseteq> invariant_system "intake_start cap senders" "intake_step L cap senders"
  "intake_inv (il_headers L) view listening (wf_responder view gcap gsenders) cap senders"
  by unfold_locales (auto elim!: intake_stepE intro: start_inv arrive_inv poll_inv hangup_inv other_inv)

text \<open>
  What follows: the future of the request that was worked on, and that a poll past the
  deadline moves on.
\<close>

lemma intake_end_fut [simp]:
  "ik_reqs (intake_end L now k meta why resp st) k = Some (Ended why (branded (il_headers L) resp))"
  by (simp add: intake_end_def Let_def set_fut_def)

lemma intake_reject_fut [simp]:
  "ik_reqs (intake_reject L now k meta ctx st) k
     = Some (Ended Rejected (branded (il_headers L) (plain_response (il_headers L) 503 (''Service Unavailable'' @ LF))))"
  by (simp add: intake_reject_def unavailable_def)

lemma poll_head_fut:
  "\<exists>why resp. ik_reqs (poll_head L now k meta dl st) k = Some (Ended why resp)
   \<or> ik_reqs (poll_head L now k meta dl st) k = Some (Awaiting meta (AtHead dl)) \<and> (\<forall>d. dl = Some d \<longrightarrow> now < d)"
  by (auto simp: poll_head_def Let_def set_fut_def split: oneshot_view.splits option.splits)

lemma await_head_fut:
  "(\<exists>why resp. ik_reqs (await_head L now k meta st) k = Some (Ended why resp))
   \<or> ik_reqs (await_head L now k meta st) k = Some (Awaiting meta (AtHead (head_deadline now (ik_server st))))"
  using poll_head_fut[of L now k meta "head_deadline now (ik_server st)" st] by (auto simp: await_head_def)

lemma lane_turn_timeout:
  "lane_turn F dl now sv ctx = (sv', x) \<Longrightarrow> sv_request_timeout_ms sv' = sv_request_timeout_ms sv \<and> (dl \<le> now \<longrightarrow> x \<noteq> None)"
  by (auto simp: lane_turn_def try_dispatch_def Let_def split: prod.splits dispatch.splits option.splits if_splits)

lemma poll_lane_past:
  assumes "d \<le> now"
  shows "(\<exists>why resp. ik_reqs (poll_lane L now k meta ctx d st) k = Some (Ended why resp))
    \<or> ik_reqs (poll_lane L now k meta ctx d st) k = Some (Awaiting meta (AtHead (head_deadline now (ik_server st))))"
proof -
  obtain sv x where t: "lane_turn (il_queue L) d now (ik_server st) ctx = (sv, x)" by fastforce
  with lane_turn_timeout[OF t] assms await_head_fut[of L now k meta "st\<lparr>ik_server := sv\<rparr>"] show ?thesis
    by (auto simp: poll_lane_def head_deadline_def split: option.splits bool.splits)
qed

lemma poll_queue_past:
  assumes "d \<le> now"
  shows "(\<exists>why resp. ik_reqs (poll_queue L now k meta ctx d st) k = Some (Ended why resp))
    \<or> ik_reqs (poll_queue L now k meta ctx d st) k = Some (Awaiting meta (AtHead (head_deadline now (ik_server st))))"
proof -
  obtain c x where t: "ch_try_send (il_queue L) (sv_req (ik_server st)) ctx = (c, x)" by fastforce
  with assms await_head_fut[of L now k meta "on_intake_server (drop_tx (il_queue L)) (on_intake_server (\<lambda>sv. sv\<lparr>sv_req := c\<rparr>) st)"]
  show ?thesis
    by (auto simp: poll_queue_def Let_def head_deadline_def on_intake_server_def drop_tx_def split: send_result.splits)
qed

lemma poll_past_deadline:
  assumes "ik_reqs st k = Some (Awaiting meta p)" "p = AtLane ctx d \<or> p = AtQueue ctx d" "d \<le> now"
  shows "(\<exists>why resp. ik_reqs (intake_poll L now k st) k = Some (Ended why resp))
    \<or> ik_reqs (intake_poll L now k st) k = Some (Awaiting meta (AtHead (head_deadline now (ik_server st))))"
  using assms poll_lane_past[OF assms(3), of L k meta ctx st] poll_queue_past[OF assms(3), of L k meta ctx st]
  by (auto simp: intake_poll_def)

lemma poll_ended: "ik_reqs st k = Some (Ended why resp) \<Longrightarrow> intake_poll L now k st = st"
  by (simp add: intake_poll_def)

context intake_channels
begin

lemma intake_reach: "reach (intake_start cap senders) (intake_step L cap senders) st \<Longrightarrow> inv st"
  by (rule reach_Inv)

lemma inv_accounts:
  assumes "inv st"
  shows "sv_in_flight (ik_server st) = of_nat (card {k. \<exists>meta p. ik_reqs st k = Some (Awaiting meta p)})
    \<and> sv_rejected (ik_server st) = of_nat (card {k. \<exists>resp. ik_reqs st k = Some (Ended Rejected resp)})
    \<and> sv_timeouts (ik_server st) = of_nat (card {k. \<exists>resp. ik_reqs st k = Some (Ended HeadTimedOut resp)})
    \<and> senders (sv_req (ik_server st)) = of_bool (sv_req_tx (ik_server st))
        + card {k. \<exists>meta ctx d. ik_reqs st k = Some (Awaiting meta (AtQueue ctx d))}"
proof -
  have "is_live fut = (\<exists>meta p. fut = Awaiting meta p)" "is_ended why fut = (\<exists>resp. fut = Ended why resp)"
    for fut :: "('h, 'b) request_fut" and why
    by (cases fut; auto simp: is_live_def is_ended_def)+
  moreover have "is_sending fut = (\<exists>meta ctx d. fut = Awaiting meta (AtQueue ctx d))" for fut :: "('h, 'b) request_fut"
    by (auto simp: is_sending_def split: request_fut.splits await_point.splits)
  ultimately show ?thesis using assms
    by (auto simp: intake_inv_def Let_def tally_def intro!: arg_cong[where f = card] arg_cong[where f = of_nat])
qed

lemma inv_answers:
  assumes "inv st" "ik_reqs st k = Some (Ended why resp)"
  shows "\<exists>r. ik_responders st k = Some r \<and> rc.wf r \<and> answered_as (il_headers L) view why r resp"
  using intake_inv_fut[OF assms(1), of k] assms(2) by (auto simp: fut_ok_def)

lemma poll_head_answered:
  assumes "ik_reqs st k = Some (Awaiting meta (AtHead dl))" "ik_responders st k = Some r" "view (rp_head r) \<noteq> Pending"
  shows "ik_reqs (intake_poll L now k st) k =
    Some (case view (rp_head r) of
      Delivered head \<Rightarrow> Ended HeadDelivered (branded (il_headers L) head)
    | _ \<Rightarrow> Ended HeadClosed (branded (il_headers L) (internal_server_error (il_headers L))))"
  using assms
  by (auto simp: intake_poll_def poll_head_def Let_def rc.os.poll_view internal_server_error_def split: oneshot_view.splits)

lemma poll_head_timeout:
  assumes "ik_reqs st k = Some (Awaiting meta (AtHead (Some d)))" "d \<le> now"
  shows "\<exists>why resp. ik_reqs (intake_poll L now k st) k = Some (Ended why resp)"
  using assms poll_head_fut[of L now k meta "Some d" st] by (auto simp: intake_poll_def)

end

section \<open>Properties\<close>


type_synonym example_intake =
  "(header_list, bytes list_chan, (header_list, bytes list_chan) request_ctx list_chan,
    header_list response cell, frame_result list_chan, string list_chan) intake"

definition example_intake_libs ::
  "(header_list, bytes list_chan, (header_list, bytes list_chan) request_ctx list_chan,
    header_list response cell, frame_result list_chan, string list_chan) intake_libs" where
  "example_intake_libs = \<lparr>il_headers = list_headers, il_oneshot = cell_oneshot, il_frames = list_flume,
     il_body = list_flume, il_queue = list_flume, il_sink = list_flume,
     il_terminal = \<lparr>tl_is_terminal = (\<lambda>_. False), tl_no_color = None, tl_term = None\<rparr>,
     il_stamp = (\<lambda>_. ''now''), il_fixed1 = (\<lambda>n d. show_nat (n div d) @ ''.0'')\<rparr>"

interpretation ref_intake: intake_channels example_intake_libs cell_view cell_listening
  lc_items lc_cap lc_senders lc_alive lc_items lc_cap lc_senders lc_alive
  using ref_world.world_channels_axioms by (simp add: intake_channels_def example_intake_libs_def)

text \<open>
  Two requests to a server with room for one in its shared queue: the first waits for its
  head, the second for room.
\<close>

definition example_intake :: example_intake where
  "example_intake =
     \<lparr>ik_server = server_inner_new
        (list_flume :: ((header_list, bytes list_chan) request_ctx, (header_list, bytes list_chan) request_ctx list_chan) flume)
        False (example_config\<lparr>sc_lanes := False, sc_queue_depth := 1, sc_request_timeout_ms := 5,
          sc_max_body_size := 10\<rparr>) False None 1,
      ik_responders = Map.empty, ik_log = sink_new list_flume, ik_reqs = Map.empty\<rparr>"

definition example_addr :: socket_addr where
  "example_addr = \<lparr>sa_ip = V4 127 0 0 1, sa_port = 9292\<rparr>"

definition example_get :: "header_list \<Rightarrow> header_list http_request" where
  "example_get headers = \<lparr>hq_method = ''GET'', hq_uri = \<lparr>ur_path = ''/'', ur_query = None, ur_authority = None\<rparr>,
     hq_version = HTTP_11, hq_headers = headers, hq_end_stream = True\<rparr>"

lemmas intake_eval = example_intake_def example_intake_libs_def example_get_def intake_arrive_def
  intake_poll_def poll_queue_def poll_head_def await_head_def head_deadline_def intake_end_def intake_reject_def unavailable_def
  drop_ctx_def drop_future_def answer_def respond_500_if_unsent_def set_fut_def on_intake_server_def
  clone_tx_def drop_tx_def intake_ctx_def oversize_def content_length_def hm_get_def list_headers_def
  server_inner_new_def example_config_def list_flume_def cell_oneshot_def responder_new_def millis_def Let_def

lemma example_one:
  "\<exists>ctx sv. intake_arrive example_intake_libs 0 0 example_addr example_addr (example_get []) example_intake
    = example_intake\<lparr>ik_server := sv, ik_responders := [0 \<mapsto> responder_new cell_oneshot],
       ik_reqs := [0 \<mapsto> Awaiting None (AtHead (Some 5000000))]\<rparr>
    \<and> sv = (ik_server example_intake)\<lparr>sv_in_flight := 1, sv_req := (sv_req (ik_server example_intake))\<lparr>lc_items := [ctx]\<rparr>\<rparr>"
  by (simp add: intake_eval)

definition example_two :: example_intake where
  "example_two =
     (let arrive = (\<lambda>k. intake_arrive example_intake_libs 0 k example_addr example_addr (example_get []))
      in arrive 1 (arrive 0 example_intake))"

lemma example_two_reach:
  "reach (intake_start lc_cap lc_senders) (intake_step example_intake_libs lc_cap lc_senders) example_two"
proof -
  have "intake_start lc_cap lc_senders example_intake"
    by (simp add: intake_start_def example_intake_def server_inner_new_def list_flume_def example_config_def)
  note r0 = reach_init[where init = "intake_start lc_cap lc_senders" and step = "intake_step example_intake_libs lc_cap lc_senders", OF this]
  let ?a = "\<lambda>k. intake_arrive example_intake_libs 0 k example_addr example_addr (example_get [])"
  have "ik_reqs example_intake 0 = None" by (simp add: example_intake_def)
  note r1 = reach_step[OF r0 ik_arrive[OF this, of example_intake_libs lc_cap lc_senders 0 example_addr example_addr "example_get []"]]
  have "ik_reqs (?a 0 example_intake) 1 = None" using example_one by auto
  note r2 = reach_step[OF r1 ik_arrive[OF this, of example_intake_libs lc_cap lc_senders 0 example_addr example_addr "example_get []"]]
  then show ?thesis by (simp add: example_two_def Let_def)
qed

lemma example_two_reqs:
  "\<exists>ctx. ik_reqs example_two
    = [0 \<mapsto> Awaiting None (AtHead (Some 5000000)), 1 \<mapsto> Awaiting None (AtQueue ctx 1000000)]"
  by (simp add: example_two_def intake_eval) (rule exI, rule refl)



text \<open>The first request is answered by a worker.\<close>

definition example_answered :: example_intake where
  "example_answered = intake_poll example_intake_libs 7 0
     (example_two\<lparr>ik_responders := (\<lambda>k. map_option (responder_run list_headers cell_oneshot list_flume
        (if k = 0 then [OpSend (plain_response list_headers 200 ''ok'')] else [])) (ik_responders example_two k))\<rparr>)"


text \<open>
  C18: no request waits for ever. A poll past the queue deadline ends the request or hands it
  on; a poll that finds the head, or the responder gone, ends it with that answer; and with
  a request timeout set, a poll that comes that much later than the one past the queue
  deadline ends it whatever happened in between.
\<close>

theorem intake_deadlines:
  assumes "intake_channels L view listening gitems gcap gsenders galive items cap senders alive"
    and "ik_reqs st k = Some (Awaiting meta p)"
  shows "(\<forall>ctx d. (p = AtLane ctx d \<or> p = AtQueue ctx d) \<and> d \<le> now \<longrightarrow>
        (\<exists>why resp. ik_reqs (intake_poll L now k st) k = Some (Ended why resp))
        \<or> ik_reqs (intake_poll L now k st) k = Some (Awaiting meta (AtHead (head_deadline now (ik_server st)))))
    \<and> (\<forall>dl r. p = AtHead dl \<and> ik_responders st k = Some r \<and> view (rp_head r) \<noteq> Pending \<longrightarrow>
        ik_reqs (intake_poll L now k st) k = Some (case view (rp_head r) of
            Delivered head \<Rightarrow> Ended HeadDelivered (branded (il_headers L) head)
          | _ \<Rightarrow> Ended HeadClosed (branded (il_headers L) (internal_server_error (il_headers L)))))
    \<and> (\<forall>ctx d st' later. (p = AtLane ctx d \<or> p = AtQueue ctx d) \<and> d \<le> now
        \<and> 0 < sv_request_timeout_ms (ik_server st) \<and> now + millis (sv_request_timeout_ms (ik_server st)) \<le> later
        \<and> ik_reqs st' k = ik_reqs (intake_poll L now k st) k \<longrightarrow>
        (\<exists>why resp. ik_reqs (intake_poll L later k st') k = Some (Ended why resp)))"
proof -
  have "\<exists>why resp. ik_reqs (intake_poll L later k st') k = Some (Ended why resp)"
    if "p = AtLane ctx d \<or> p = AtQueue ctx d" "d \<le> now" "0 < sv_request_timeout_ms (ik_server st)"
      "now + millis (sv_request_timeout_ms (ik_server st)) \<le> later"
      "ik_reqs st' k = ik_reqs (intake_poll L now k st) k" for ctx d st' later
    using poll_past_deadline[OF assms(2) that(1,2), of L] that(3-5)
      intake_channels.poll_head_timeout[OF assms(1), of st' k meta _ later] poll_ended[of st' k _ _ L later]
    by (auto simp: head_deadline_def Let_def)
  with poll_past_deadline[OF assms(2), of _ _ now L]
    intake_channels.poll_head_answered[OF assms(1), of st k meta _ _ now] assms(2)
  show ?thesis by blast
qed

theorem intake_deadlines_witness:
  "\<exists>resp. ik_reqs (intake_poll example_intake_libs 1000000 1 example_two) 1 = Some (Ended Rejected resp)"
proof -
  obtain ctx where ctx: "ik_reqs example_two 1 = Some (Awaiting None (AtQueue ctx 1000000))"
    using example_two_reqs by auto
  have "(\<exists>why resp. ik_reqs (intake_poll example_intake_libs 1000000 1 example_two) 1 = Some (Ended why resp))
      \<or> ik_reqs (intake_poll example_intake_libs 1000000 1 example_two) 1
        = Some (Awaiting None (AtHead (head_deadline 1000000 (ik_server example_two))))"
    using intake_deadlines[OF ref_intake.intake_channels_axioms ctx] by blast
  moreover have "\<exists>resp. ik_reqs (intake_poll example_intake_libs 1000000 1 example_two) 1 = Some (Ended Rejected resp)"
    by (simp add: example_two_def intake_eval)
  ultimately show ?thesis by blast
qed

lemma trim_show_nat [simp]: "trim (show_nat n) = show_nat n"
proof -
  have sp: "\<not> is_space c" if "c \<in> set (show_nat n)" for c
    using show_nat_chars[OF that] by (auto simp: is_space_def digit_def Let_def)
  have d: "dropWhile is_space xs = xs" if "set xs \<subseteq> set (show_nat n)" for xs
    using that sp by (cases xs) auto
  show ?thesis by (simp add: trim_def d)
qed

lemma header_to_str_show_nat [simp]: "header_to_str (show_nat n) = Some (show_nat n)"
  by (auto simp: header_to_str_def digit_def dest!: show_nat_chars)

lemma oversize_declared:
  assumes "hm_get H (hq_headers rq) ''content-length'' = Some (show_nat n)" "n < 2 ^ 64"
  shows "oversize H sv rq \<longleftrightarrow> 0 < sv_max_body_size sv \<and> unat (sv_max_body_size sv) < n"
proof -
  have "parse_uint (2 ^ 64 - 1) (show_nat n) = Some n" by (rule parse_uint_show_nat) (use assms(2) in simp)
  then show ?thesis using assms by (simp add: oversize_def content_length_def word_less_nat_alt)
qed

lemma poll_head_not_oversized: "ik_reqs (poll_head L now k meta dl st) k \<noteq> Some (Ended Oversized resp)"
  by (auto simp: poll_head_def Let_def set_fut_def split: oneshot_view.splits)

lemma poll_lane_not_oversized: "ik_reqs (poll_lane L now k meta ctx dl st) k \<noteq> Some (Ended Oversized resp)"
  by (auto simp: poll_lane_def await_head_def set_fut_def poll_head_not_oversized split: prod.splits option.splits bool.splits)

lemma poll_queue_not_oversized: "ik_reqs (poll_queue L now k meta ctx dl st) k \<noteq> Some (Ended Oversized resp)"
  by (auto simp: poll_queue_def Let_def await_head_def set_fut_def poll_head_not_oversized
      split: prod.splits send_result.splits)

lemma intake_end_server: "ik_server (intake_end L now k meta why resp st)
    = (ik_server st)\<lparr>sv_in_flight := sv_in_flight (ik_server st) - 1\<rparr>"
  by (simp add: intake_end_def Let_def set_fut_def drop_future_def on_intake_server_def split: option.splits prod.splits)



section \<open>Against the other components\<close>

text \<open>What workers and the natives do to the queue is among the steps allowed to the rest.\<close>

context flume_channel
begin

lemma close_req_leaves: "0 < senders (sv_req sv) \<or> \<not> sv_req_tx sv \<Longrightarrow> leaves_intake cap senders sv (close_req F sv)"
  by (auto simp: leaves_intake_def close_req_def)

lemma req_recv_leaves: "leaves_intake cap senders sv (fst (req_recv F sv))"
  by (cases rule: recv_cases[of "sv_req sv"]) (auto simp: leaves_intake_def req_recv_def)

lemma lane_recv_leaves: "leaves_intake cap senders sv (fst (lane_recv F w sv))"
  by (auto simp: leaves_intake_def lane_recv_def on_slot_def split: option.splits prod.splits)

text \<open>\<open>dispatch_to_lane\<close> is its turns, with the sleep between them.\<close>

lemma dispatch_loop_turn:
  assumes "wf_slots cap senders alive (others now sv)"
  shows "dispatch_loop F others over deadline now sv ctx =
    (case lane_turn F deadline now (others now sv) ctx of
       (sv', Some sent) \<Rightarrow> (sv', sent, now)
     | (sv', None) \<Rightarrow> dispatch_loop F others over deadline (now + retry_sleep + over now) sv' ctx)"
proof -
  have "x = ctx" if "try_dispatch F (others now sv) ctx = (sv', DispatchFull x)" for sv' x
    using try_dispatch_moves[OF assms that] by simp
  then show ?thesis
    by (subst dispatch_loop.simps) (auto simp: lane_turn_def split: prod.splits dispatch.splits)
qed

end

end
