(* ===== verification/Kino_System.thy ===== *)
theory Kino_System
  imports Kino_Intake
begin

text \<open>
  The composition of the data plane: requests come in (\<open>Kino_Intake\<close>), workers take them from
  the shared queue and the lanes and admit them (\<open>Kino_Queue\<close>), answer them or drop their
  handles (\<open>Kino_Responder\<close>, \<open>Kino_Request\<close>), and the supervisor drains and aborts
  (\<open>Kino_Lifecycle\<close>), in any interleaving of these steps. Shown here: the system refines
  the intake with an unspecified rest of the process, and the request of every client that
  still waits is in exactly one place, where somebody will answer it.
\<close>

section \<open>The system\<close>

text \<open>The intake, and the request contexts that handles of workers wrap.\<close>

record ('h, 'b, 'c, 'o, 'f, 'l) system =
  sy_intake :: "('h, 'b, 'c, 'o, 'f, 'l) intake"
  sy_held :: "('h, 'b) request_ctx list"

abbreviation sy_server :: "('h, 'b, 'c, 'o, 'f, 'l) system \<Rightarrow> 'c server_inner" where
  "sy_server S \<equiv> ik_server (sy_intake S)"

definition put_sys :: "'c server_inner \<Rightarrow> ('h, 'b) request_ctx list \<Rightarrow> ('h, 'b, 'c, 'o, 'f, 'l) system
    \<Rightarrow> ('h, 'b, 'c, 'o, 'f, 'l) system" where
  "put_sys sv held S = S\<lparr>sy_intake := (sy_intake S)\<lparr>ik_server := sv\<rparr>, sy_held := held\<rparr>"

definition use_responder ::
  "('h, 'b, 'c, 'o, 'f, 'l) intake_libs \<Rightarrow> nat \<Rightarrow> 'h responder_op list \<Rightarrow> ('h, 'b, 'c, 'o, 'f, 'l) intake
     \<Rightarrow> ('h, 'b, 'c, 'o, 'f, 'l) intake" where
  "use_responder L k ops st =
     st\<lparr>ik_responders := (ik_responders st)(k := map_option
          (responder_run (il_headers L) (il_oneshot L) (il_frames L) ops) (ik_responders st k))\<rparr>"

text \<open>The requests that slots list as current: those an abort answers.\<close>

definition currents :: "'c server_inner \<Rightarrow> nat set" where
  "currents sv = (\<Union>s \<in> set (sv_slots sv). set (sl_current s))"

text \<open>
  What else the natives and the workers do to the server: flags, counters, senders and new
  slots. The queues keep their contents, and no request becomes current.
\<close>

definition frame ::
  "('c \<Rightarrow> 'x list) \<Rightarrow> ('c \<Rightarrow> nat) \<Rightarrow> ('c \<Rightarrow> nat) \<Rightarrow> ('c \<Rightarrow> bool) \<Rightarrow> 'c server_inner \<Rightarrow> 'c server_inner \<Rightarrow> bool" where
  "frame items cap senders alive sv sv' \<longleftrightarrow>
     leaves_intake cap senders sv sv' \<and> waiting items sv' = waiting items sv
     \<and> wf_slots cap senders alive sv' \<and> currents sv' \<subseteq> currents sv"

text \<open>
  \<open>admitted_server\<close> and \<open>stamp_ctx\<close> are what \<open>admit\<close> does to the server and to the context,
  beside the environment it builds.
\<close>

inductive system_step ::
  "('h, 'b, 'c, 'o, 'f, 'l) intake_libs \<Rightarrow> ('c \<Rightarrow> ('h, 'b) request_ctx list) \<Rightarrow> ('c \<Rightarrow> nat) \<Rightarrow> ('c \<Rightarrow> nat)
     \<Rightarrow> ('c \<Rightarrow> bool) \<Rightarrow> ('h, 'b, 'c, 'o, 'f, 'l) system \<Rightarrow> ('h, 'b, 'c, 'o, 'f, 'l) system \<Rightarrow> bool"
  for L items cap senders alive where
  sy_arrive: "ik_reqs (sy_intake S) k = None
    \<Longrightarrow> system_step L items cap senders alive S
          (S\<lparr>sy_intake := intake_arrive L now k remote_addr local_addr rq (sy_intake S)\<rparr>)"
| sy_poll: "system_step L items cap senders alive S (S\<lparr>sy_intake := intake_poll L now k (sy_intake S)\<rparr>)"
| sy_hangup: "system_step L items cap senders alive S (S\<lparr>sy_intake := intake_hangup L k (sy_intake S)\<rparr>)"
| sy_forwarder: "list_all is_abandon ops
    \<Longrightarrow> system_step L items cap senders alive S (S\<lparr>sy_intake := use_responder L k ops (sy_intake S)\<rparr>)"
| sy_take: "req_recv (il_queue L) (sy_server S) = (sv, Received ctx)
    \<Longrightarrow> system_step L items cap senders alive S (put_sys sv (ctx # sy_held S) S)"
| sy_take_lane: "w < length (sv_slots (sy_server S)) \<Longrightarrow> lane_recv (il_queue L) w (sy_server S) = (sv, Received ctx)
    \<Longrightarrow> system_step L items cap senders alive S (put_sys sv (ctx # sy_held S) S)"
| sy_admit: "ctx \<in> set (sy_held S) \<Longrightarrow> w < length (sv_slots (sy_server S))
    \<Longrightarrow> system_step L items cap senders alive S
          (put_sys (admitted_server now ms w ctx (sy_server S)) (stamp_ctx now w ctx # remove1 ctx (sy_held S)) S)"
| sy_use: "ctx \<in> set (sy_held S)
    \<Longrightarrow> system_step L items cap senders alive S
          (S\<lparr>sy_intake := use_responder L (cx_responder ctx) ops (sy_intake S)\<rparr>)"
| sy_drop: "ctx \<in> set (sy_held S)
    \<Longrightarrow> system_step L items cap senders alive S
          (S\<lparr>sy_intake := drop_ctx L ctx (sy_intake S), sy_held := remove1 ctx (sy_held S)\<rparr>)"
| sy_abort: "k \<in> currents (sy_server S)
    \<Longrightarrow> system_step L items cap senders alive S (S\<lparr>sy_intake := use_responder L k [OpAbort] (sy_intake S)\<rparr>)"
| sy_frame: "frame items cap senders alive (sy_server S) sv
    \<Longrightarrow> system_step L items cap senders alive S (put_sys sv (sy_held S) S)"

inductive_cases system_stepE: "system_step L items cap senders alive S S'"

definition system_start ::
  "('c \<Rightarrow> ('h, 'b) request_ctx list) \<Rightarrow> ('c \<Rightarrow> nat) \<Rightarrow> ('c \<Rightarrow> nat) \<Rightarrow> ('c \<Rightarrow> bool)
     \<Rightarrow> ('h, 'b, 'c, 'o, 'f, 'l) system \<Rightarrow> bool" where
  "system_start items cap senders alive S \<longleftrightarrow>
     intake_start cap senders (sy_intake S) \<and> sy_held S = [] \<and> waiting items (sy_server S) = {#}
     \<and> wf_slots cap senders alive (sy_server S) \<and> currents (sy_server S) = {}"

section \<open>Who has a request\<close>

text \<open>How many contexts of request \<open>k\<close> are queued or with a worker.\<close>

definition owners :: "('c \<Rightarrow> ('h, 'b) request_ctx list) \<Rightarrow> nat \<Rightarrow> ('h, 'b, 'c, 'o, 'f, 'l) system \<Rightarrow> nat" where
  "owners items k S =
     size (filter_mset (\<lambda>ctx. cx_responder ctx = k) (waiting items (sy_server S) + mset (sy_held S)))"

definition at_head :: "('h, 'b) request_fut option \<Rightarrow> bool" where
  "at_head x = (case x of Some (Awaiting _ (AtHead _)) \<Rightarrow> True | _ \<Rightarrow> False)"

text \<open>
  One owner at most, none before arrival, and exactly one while the client waits for a head
  that is not out.
\<close>

definition owned ::
  "('o \<Rightarrow> 'r oneshot_view) \<Rightarrow> nat \<Rightarrow> ('o, 'f) responder option \<Rightarrow> ('h, 'b) request_fut option \<Rightarrow> bool" where
  "owned view n rsp fut \<longleftrightarrow>
     n + of_bool (in_hand fut) \<le> 1 \<and> (fut = None \<longrightarrow> n = 0)
     \<and> (at_head fut \<longrightarrow> n = 0 \<longrightarrow> (\<exists>r. rsp = Some r \<and> view (rp_head r) \<noteq> Pending))"

definition handed_on :: "('h, 'b) request_fut option \<Rightarrow> bool" where
  "handed_on fut \<longleftrightarrow> fut \<noteq> None \<and> \<not> in_hand fut"

definition system_inv ::
  "('h, 'b, 'c, 'o, 'f, 'l) intake_libs \<Rightarrow> ('o \<Rightarrow> 'h response oneshot_view) \<Rightarrow> ('o \<Rightarrow> bool)
     \<Rightarrow> (('o, 'f) responder \<Rightarrow> bool) \<Rightarrow> ('c \<Rightarrow> ('h, 'b) request_ctx list) \<Rightarrow> ('c \<Rightarrow> nat) \<Rightarrow> ('c \<Rightarrow> nat)
     \<Rightarrow> ('c \<Rightarrow> bool) \<Rightarrow> ('h, 'b, 'c, 'o, 'f, 'l) system \<Rightarrow> bool" where
  "system_inv L view listening ok items cap senders alive S \<longleftrightarrow>
     intake_inv (il_headers L) view listening ok cap senders (sy_intake S)
     \<and> wf_slots cap senders alive (sy_server S)
     \<and> (\<forall>k. owned view (owners items k S) (ik_responders (sy_intake S) k) (ik_reqs (sy_intake S) k))
     \<and> (\<forall>k \<in> currents (sy_server S). handed_on (ik_reqs (sy_intake S) k))"

section \<open>The intake's own steps\<close>

text \<open>
  A step of the future of \<open>k\<close> that has the request in hand: it stays there, is queued, or
  the future is over and the context dropped.
\<close>

definition handed ::
  "('c \<Rightarrow> ('h, 'b) request_ctx list) \<Rightarrow> ('c \<Rightarrow> nat) \<Rightarrow> ('c \<Rightarrow> nat) \<Rightarrow> ('c \<Rightarrow> bool) \<Rightarrow> nat
     \<Rightarrow> ('h, 'b, 'c, 'o, 'f, 'l) intake \<Rightarrow> ('h, 'b, 'c, 'o, 'f, 'l) intake \<Rightarrow> bool" where
  "handed items cap senders alive k st st' \<longleftrightarrow>
     (\<forall>j. j \<noteq> k \<longrightarrow> ik_reqs st' j = ik_reqs st j \<and> ik_responders st' j = ik_responders st j)
     \<and> ik_reqs st' k \<noteq> None
     \<and> wf_slots cap senders alive (ik_server st') \<and> currents (ik_server st') = currents (ik_server st)
     \<and> (let Q = waiting items (ik_server st); Q' = waiting items (ik_server st') in
          in_hand (ik_reqs st' k) \<and> Q' = Q
        \<or> \<not> in_hand (ik_reqs st' k) \<and> (\<exists>ctx. cx_responder ctx = k \<and> Q' = add_mset ctx Q)
        \<or> \<not> in_hand (ik_reqs st' k) \<and> \<not> at_head (ik_reqs st' k) \<and> Q' = Q)"

definition same_queues :: "('c \<Rightarrow> 'x list) \<Rightarrow> 'c server_inner \<Rightarrow> 'c server_inner \<Rightarrow> bool" where
  "same_queues items sv sv' \<longleftrightarrow>
     sv_slots sv' = sv_slots sv \<and> sv_lanes sv' = sv_lanes sv \<and> items (sv_req sv') = items (sv_req sv)"

lemma same_queuesD:
  assumes "same_queues items sv sv'"
  shows "waiting items sv' = waiting items sv" "currents sv' = currents sv"
    "wf_slots cap senders alive sv' = wf_slots cap senders alive sv"
  using assms by (simp_all add: same_queues_def waiting_def currents_def wf_slots_def)

text \<open>Nothing but request \<open>k\<close> is touched, and no queue.\<close>

definition quiet :: "('c \<Rightarrow> 'x list) \<Rightarrow> nat \<Rightarrow> ('h, 'b, 'c, 'o, 'f, 'l) intake \<Rightarrow> ('h, 'b, 'c, 'o, 'f, 'l) intake \<Rightarrow> bool" where
  "quiet items k st st' \<longleftrightarrow> same_queues items (ik_server st) (ik_server st')
     \<and> (\<forall>j. j \<noteq> k \<longrightarrow> ik_reqs st' j = ik_reqs st j \<and> ik_responders st' j = ik_responders st j)"

lemma quiet_trans: "quiet items k st st' \<Longrightarrow> quiet items k st' st'' \<Longrightarrow> quiet items k st st''"
  by (auto simp: quiet_def same_queues_def)

lemma quiet_set_fut: "quiet items k st (set_fut k fut st)"
  by (simp add: quiet_def same_queues_def set_fut_def)

lemma quiet_server: "same_queues items (ik_server st) (f (ik_server st)) \<Longrightarrow> quiet items k st (on_intake_server f st)"
  by (simp add: quiet_def on_intake_server_def)

lemma drop_ctx_reqs [simp]: "ik_reqs (drop_ctx L ctx st) = ik_reqs st"
  by (simp add: drop_ctx_def)

lemma drop_ctx_quiet: "cx_responder ctx = k \<Longrightarrow> quiet items k st (drop_ctx L ctx st)"
  by (auto simp: quiet_def same_queues_def drop_ctx_def answer_def split: option.splits outcome.splits)

lemma drop_future_quiet: "quiet items k st (drop_future L k st)"
  by (simp add: quiet_def same_queues_def drop_future_def on_intake_server_def)

lemma intake_end_quiet: "quiet items k st (intake_end L now k meta why resp st)"
proof -
  have "quiet items k st (set_fut k fut (drop_future L k (st\<lparr>ik_log := l\<rparr>)))" for l fut
    by (rule quiet_trans[OF _ quiet_set_fut], rule quiet_trans[OF _ drop_future_quiet])
      (simp add: quiet_def same_queues_def)
  from this[of _ "ik_log st"] this show ?thesis
    by (auto simp: intake_end_def Let_def split: option.splits prod.splits)
qed

lemma intake_reject_quiet:
  assumes "cx_responder ctx = k"
  shows "quiet items k st (intake_reject L now k meta ctx st)"
  unfolding intake_reject_def unavailable_def prod.case
  by (rule quiet_trans[OF _ intake_end_quiet], rule quiet_trans[OF _ drop_ctx_quiet[OF assms]])
    (simp add: quiet_def same_queues_def)

lemma poll_head_quiet: "quiet items k st (poll_head L now k meta dl st)"
proof -
  have "quiet items k st (intake_end L now k meta why resp
      (on_intake_server (\<lambda>sv. sv\<lparr>sv_timeouts := sv_timeouts sv + 1\<rparr>) st))" for why resp
    by (rule quiet_trans[OF _ intake_end_quiet], rule quiet_server) (simp add: same_queues_def)
  then show ?thesis
    by (auto simp: poll_head_def Let_def intake_end_quiet quiet_set_fut split: oneshot_view.splits)
qed

lemma poll_head_not_in_hand: "ik_reqs (poll_head L now k meta dl st) k \<noteq> None \<and> \<not> in_hand (ik_reqs (poll_head L now k meta dl st) k)"
  using poll_head_fut[of L now k meta dl st] by (auto simp: in_hand_def)

lemma handed_quiet:
  assumes "quiet items k st st'" "wf_slots cap senders alive (ik_server st)" "ik_reqs st' k \<noteq> None"
    and "\<not> at_head (ik_reqs st' k)"
  shows "handed items cap senders alive k st st'"
  using assms same_queuesD[of items "ik_server st" "ik_server st'"] by (auto simp: handed_def quiet_def Let_def)

lemma handed_queued:
  assumes "\<And>j. j \<noteq> k \<Longrightarrow> ik_reqs st1 j = ik_reqs st j \<and> ik_responders st1 j = ik_responders st j"
    and "wf_slots cap senders alive (ik_server st1)" "currents (ik_server st1) = currents (ik_server st)"
    and "waiting items (ik_server st1) = add_mset ctx (waiting items (ik_server st))" "cx_responder ctx = k"
  shows "handed items cap senders alive k st (await_head L now k meta st1)"
  using assms poll_head_quiet[of items k st1 L now meta "head_deadline now (ik_server st1)"]
    poll_head_not_in_hand[of L now k meta "head_deadline now (ik_server st1)" st1]
    same_queuesD[of items "ik_server st1" "ik_server (await_head L now k meta st1)"]
  by (auto simp: handed_def quiet_def Let_def await_head_def)

lemma sum_list_update_add:
  fixes g :: "'a \<Rightarrow> 'm multiset"
  assumes "w < length xs" "g y = add_mset x (g (xs ! w))"
  shows "sum_list (map g (xs[w := y])) = add_mset x (sum_list (map g xs))"
  using sum_list_update_remove[of w "xs[w := y]" g x "xs ! w"] assms by simp

lemma currents_nth: "currents sv = (\<Union>i < length (sv_slots sv). set (sl_current (sv_slots sv ! i)))"
  by (auto simp: currents_def set_conv_nth[of "sv_slots sv"])

lemma currents_on_slot:
  assumes "set (sl_current (f (sv_slots sv ! w))) = set (sl_current (sv_slots sv ! w))" "w < length (sv_slots sv)"
  shows "currents (on_slot w f sv) = currents sv"
proof -
  have "set (sl_current ((sv_slots sv)[w := f (sv_slots sv ! w)] ! i)) = set (sl_current (sv_slots sv ! i))"
    if "i < length (sv_slots sv)" for i
    using assms that by (cases "i = w") auto
  then show ?thesis by (simp add: currents_nth on_slot_def)
qed

context flume_channel
begin

lemma push_lane_waiting:
  assumes "wf_slots cap senders alive sv" "i < length (sv_slots sv)" "accepts F (sv_slots sv ! i)"
    and "sv_slots sv' = (sv_slots sv)[i := push_lane F ctx (sv_slots sv ! i)]" "sv_req sv' = sv_req sv"
  shows "waiting items sv' = add_mset ctx (waiting items sv)" "currents sv' = currents sv"
proof -
  have ok: "wf_slot cap senders alive (sv_lanes sv) (sv_slots sv ! i)"
    using assms(1,2) by (auto simp: wf_slots_def list_all_length)
  have "mset (lane_items items (push_lane F ctx (sv_slots sv ! i))) = add_mset ctx (mset (lane_items items (sv_slots sv ! i)))"
    using push_lane_items[OF ok assms(3), of ctx] assms(3)
    by (auto simp: lane_items_def accepts_def split: option.splits)
  with assms(2,4,5) show "waiting items sv' = add_mset ctx (waiting items sv)"
    by (simp add: waiting_def sum_list_update_add[where x = ctx])
  have "currents (on_slot i (push_lane F ctx) sv) = currents sv"
    using assms(2) by (intro currents_on_slot) (simp_all add: push_lane_def)
  then show "currents sv' = currents sv" using assms(4) by (simp add: currents_def on_slot_def)
qed

end

context intake_channels
begin

abbreviation hands :: "nat \<Rightarrow> ('h, 'b, 'c, 'o, 'f, 'l) intake \<Rightarrow> ('h, 'b, 'c, 'o, 'f, 'l) intake \<Rightarrow> bool" where
  "hands \<equiv> handed items cap senders alive"

lemma lane_turn_moves:
  assumes "wf_slots cap senders alive sv" "lane_turn (il_queue L) dl now sv ctx = (sv', d)"
  shows "wf_slots cap senders alive sv'" "currents sv' = currents sv"
    "waiting items sv' = (if d = Some True then add_mset ctx (waiting items sv) else waiting items sv)"
proof -
  obtain r where t: "try_dispatch (il_queue L) sv ctx = (sv', r)" and d: "d = Some True \<longleftrightarrow> r = DispatchSent"
    using assms(2) by (auto simp: lane_turn_def split: prod.splits dispatch.splits if_splits)
  note m = rq.try_dispatch_moves[OF assms(1) t] and q = try_dispatch_keeps(5)[OF t]
  show "wf_slots cap senders alive sv'" using m by blast
  have "currents sv' = currents sv \<and> waiting items sv' = (if d = Some True then add_mset ctx (waiting items sv) else waiting items sv)"
  proof (cases "r = DispatchSent")
    case True
    with m d q rq.push_lane_waiting[OF assms(1), of _ sv' ctx] show ?thesis by auto
  next
    case False
    with m have "sv_slots sv' = sv_slots sv" by (cases r) auto
    with False d q show ?thesis by (simp add: currents_def waiting_def)
  qed
  then show "currents sv' = currents sv"
    "waiting items sv' = (if d = Some True then add_mset ctx (waiting items sv) else waiting items sv)" by blast+
qed

lemma poll_lane_hands:
  assumes "wf_slots cap senders alive (ik_server st)" "cx_responder ctx = k"
  shows "hands k st (poll_lane L now k meta ctx dl st)"
proof -
  obtain sv d where t: "lane_turn (il_queue L) dl now (ik_server st) ctx = (sv, d)" by fastforce
  note m = lane_turn_moves[OF assms(1) t]
  consider "d = None" | "d = Some True" | "d = Some False" by (cases d) auto
  then show ?thesis
  proof cases
    case 1
    with t m show ?thesis by (simp add: poll_lane_def handed_def set_fut_def in_hand_def)
  next
    case 2
    with t m assms(2) show ?thesis by (simp add: poll_lane_def handed_queued)
  next
    case 3
    have "quiet items k (st\<lparr>ik_server := sv\<rparr>) (intake_reject L now k meta ctx (st\<lparr>ik_server := sv\<rparr>))"
      using assms(2) by (rule intake_reject_quiet)
    with t m 3 show ?thesis
      using same_queuesD[of items sv "ik_server (intake_reject L now k meta ctx (st\<lparr>ik_server := sv\<rparr>))"]
      by (auto simp: poll_lane_def handed_def quiet_def in_hand_def at_head_def)
  qed
qed

lemma handed_trans:
  assumes "quiet items k st st1" "handed items cap senders alive k st1 st'"
  shows "handed items cap senders alive k st st'"
  using assms same_queuesD[of items "ik_server st" "ik_server st1"] by (auto simp: handed_def quiet_def Let_def)

lemma drop_tx_quiet: "quiet items k st (on_intake_server (drop_tx (il_queue L)) st)"
  by (rule quiet_server) (simp add: same_queues_def drop_tx_def)

lemma clone_tx_quiet: "quiet items k st (on_intake_server (clone_tx (il_queue L)) st)"
  by (rule quiet_server) (simp add: same_queues_def clone_tx_def)

lemma reject_hands:
  "wf_slots cap senders alive (ik_server st) \<Longrightarrow> cx_responder ctx = k
    \<Longrightarrow> hands k st (intake_reject L now k meta ctx st)"
  by (rule handed_quiet[OF intake_reject_quiet]) (simp_all add: at_head_def)

lemma poll_queue_hands:
  assumes "wf_slots cap senders alive (ik_server st)" "cx_responder ctx = k" "0 < cap (sv_req (ik_server st))"
  shows "hands k st (poll_queue L now k meta ctx dl st)"
proof -
  let ?sv = "ik_server st"
  obtain c res where t: "ch_try_send (il_queue L) (sv_req ?sv) ctx = (c, res)" by fastforce
  define st1 where "st1 = on_intake_server (drop_tx (il_queue L)) (on_intake_server (\<lambda>sv. sv\<lparr>sv_req := c\<rparr>) st)"
  show ?thesis
  proof (cases "res = Sent")
    case True
    then have "items c = items (sv_req ?sv) @ [ctx]" using rq.send_SentD t assms(3) by blast
    then have "hands k st (await_head L now k meta st1)"
      using assms by (intro handed_queued)
        (simp_all add: st1_def on_intake_server_def drop_tx_def wf_slots_def currents_def waiting_def)
    with True t show ?thesis by (simp add: poll_queue_def st1_def)
  next
    case False
    with rq.send_not_Sent[OF t _ assms(3)] have c: "c = sv_req ?sv" "res = SendFull ctx \<or> res = SendDisconnected ctx" by auto
    have same: "on_intake_server (\<lambda>sv. sv\<lparr>sv_req := c\<rparr>) st = st" by (simp add: on_intake_server_def c(1))
    have q: "quiet items k st st1" unfolding st1_def same by (rule drop_tx_quiet)
    then have "wf_slots cap senders alive (ik_server st1)"
      using assms(1) same_queuesD[of items ?sv "ik_server st1"] by (simp add: quiet_def)
    then have "hands k st (intake_reject L now k meta ctx st1)"
      by (rule handed_trans[OF q reject_hands]) (rule assms(2))
    moreover have "hands k st (set_fut k (Awaiting meta (AtQueue ctx dl)) st)"
      by (rule handed_quiet[OF quiet_set_fut assms(1)]) (simp_all add: set_fut_def at_head_def)
    ultimately show ?thesis using t c(2) same by (auto simp: poll_queue_def st1_def Let_def)
  qed
qed

lemma arrived_quiet: "quiet items k st (arrived L now k ra rq st)"
  by (simp add: quiet_def arrived_def on_intake_server_def same_queues_def)

lemma quiet_wf: "quiet items k st st' \<Longrightarrow> wf_slots cap senders alive (ik_server st) \<Longrightarrow> wf_slots cap senders alive (ik_server st')"
  using same_queuesD(3)[of items "ik_server st" "ik_server st'"] by (simp add: quiet_def)

lemma arrive_hands:
  assumes "wf_slots cap senders alive (ik_server st)" "0 < cap (sv_req (ik_server st))"
  shows "hands k st (intake_arrive L now k ra la rq st)"
proof -
  define ctx where "ctx = intake_ctx (il_body L) (il_headers L) (ik_server st) now k ra la rq"
  define st1 where "st1 = arrived L now k ra rq st"
  define st2 where "st2 = on_intake_server (clone_tx (il_queue L)) st1"
  have k: "cx_responder ctx = k" by (simp add: ctx_def intake_ctx_def)
  have q1: "quiet items k st st1" unfolding st1_def by (rule arrived_quiet)
  have q2: "quiet items k st st2"
    unfolding st2_def by (rule quiet_trans[OF q1 clone_tx_quiet])
  have cap: "0 < cap (sv_req (ik_server st2))"
    using assms(2) by (simp add: st2_def st1_def arrived_def on_intake_server_def clone_tx_def)
  have big: "hands k st (intake_end L now k meta Oversized resp (drop_ctx L ctx st1))" for meta resp
    by (rule handed_quiet[OF quiet_trans[OF q1 quiet_trans[OF drop_ctx_quiet[OF k] intake_end_quiet]] assms(1)])
      (simp_all add: at_head_def)
  show ?thesis
    using big handed_trans[OF q1 poll_lane_hands[OF quiet_wf[OF q1 assms(1)] k]]
      handed_trans[OF q1 reject_hands[OF quiet_wf[OF q1 assms(1)] k]]
      handed_trans[OF q2 poll_queue_hands[OF quiet_wf[OF q2 assms(1)] k cap]]
    unfolding st2_def st1_def ctx_def by (simp add: intake_arrive_eq Let_def)
qed

lemma poll_hands:
  assumes "inv st" "wf_slots cap senders alive (ik_server st)" "in_hand (ik_reqs st k)"
  shows "hands k st (intake_poll L now k st)"
proof -
  obtain meta ctx dl p where a: "ik_reqs st k = Some (Awaiting meta p)" "p = AtLane ctx dl \<or> p = AtQueue ctx dl"
    using assms(3) by (auto simp: in_hand_def split: option.splits request_fut.splits await_point.splits)
  have k: "cx_responder ctx = k" using fut_ok_awaiting[OF assms(1) a(1)] a(2) by blast
  have cap: "0 < cap (sv_req (ik_server st))" using assms(1) by (simp add: intake_inv_def Let_def)
  from a poll_lane_hands[OF assms(2) k] poll_queue_hands[OF assms(2) k cap] show ?thesis
    by (auto simp: intake_poll_def)
qed

lemma hangup_hands:
  assumes "inv st" "wf_slots cap senders alive (ik_server st)" "in_hand (ik_reqs st k)"
  shows "hands k st (intake_hangup L k st)"
proof -
  obtain meta ctx dl p where a: "ik_reqs st k = Some (Awaiting meta p)" "p = AtLane ctx dl \<or> p = AtQueue ctx dl"
    using assms(3) by (auto simp: in_hand_def split: option.splits request_fut.splits await_point.splits)
  have k: "cx_responder ctx = k" using fut_ok_awaiting[OF assms(1) a(1)] a(2) by blast
  have "hands k st (set_fut k Dropped (drop_future L k (drop_ctx L ctx st')))" if "quiet items k st st'" for st'
    by (rule handed_quiet[OF quiet_trans[OF that quiet_trans[OF drop_ctx_quiet[OF k]
            quiet_trans[OF drop_future_quiet quiet_set_fut]]] assms(2)])
      (simp_all add: set_fut_def at_head_def)
  from this[of st] this[OF drop_tx_quiet] a show ?thesis
    by (auto simp: intake_hangup_def quiet_def same_queues_def)
qed

end

section \<open>Every step keeps the books\<close>

lemma owners_handed:
  assumes "handed items cap senders alive k (sy_intake S) st'"
  shows "owners items j (S\<lparr>sy_intake := st'\<rparr>) = owners items j S
    + of_bool (j = k \<and> waiting items (ik_server st') \<noteq> waiting items (sy_server S))"
  using assms by (auto simp: handed_def owners_def Let_def)

lemma owned_handed:
  assumes "handed items cap senders alive k (sy_intake S) st'" "owners items k S = 0"
    and "\<And>j. owned view (owners items j S) (ik_responders (sy_intake S) j) (ik_reqs (sy_intake S) j)"
  shows "owned view (owners items j (S\<lparr>sy_intake := st'\<rparr>)) (ik_responders st' j) (ik_reqs st' j)"
proof (cases "j = k")
  case True
  with assms(1,2) show ?thesis
    unfolding owned_def owners_handed[OF assms(1)]
    by (auto simp: handed_def Let_def at_head_def in_hand_def split: option.splits request_fut.splits await_point.splits)
next
  case False
  with assms(1) assms(3)[of j] show ?thesis by (simp add: owners_handed[OF assms(1)] handed_def)
qed

lemma held_owner:
  assumes "ctx \<in> set (sy_held S)"
  shows "0 < owners items (cx_responder ctx) S"
proof -
  obtain M where "mset (sy_held S) = add_mset ctx M"
    using multi_member_split[of ctx "mset (sy_held S)"] assms by auto
  then show ?thesis by (simp add: owners_def)
qed

lemma owned_handed_on: "owned view n rsp fut \<Longrightarrow> 0 < n \<Longrightarrow> handed_on fut"
  by (auto simp: owned_def handed_on_def split: if_splits)

lemma fut_cases:
  obtains (hand) "in_hand (Some fut)" | (head) meta dl where "fut = Awaiting meta (AtHead dl)"
    | (over) "\<not> is_live fut"
proof (cases fut)
  case (Awaiting meta p)
  then show ?thesis using that(1,2) by (cases p) (auto simp: in_hand_def)
qed (use that(3) in \<open>auto simp: is_live_def\<close>)

lemma owned_drop:
  assumes "owned view (n + 1) rsp' fut" "\<exists>r. rsp = Some r \<and> view (rp_head r) \<noteq> Pending"
  shows "owned view n rsp fut"
  using assms by (auto simp: owned_def)

lemma drop_ctx_use: "drop_ctx L ctx st = use_responder L (cx_responder ctx) [OpAbort] st"
  by (cases "ik_responders st (cx_responder ctx)")
    (auto simp: drop_ctx_def use_responder_def answer_def responder_run_def fun_upd_idem split: outcome.splits)

lemma run_nothing [simp]: "map_option (responder_run H P G []) x = x"
  by (cases x) (simp_all add: responder_run_def)

lemma use_responder_simps [simp]:
  "ik_reqs (use_responder L k ops st) = ik_reqs st" "ik_server (use_responder L k ops st) = ik_server st"
  "j \<noteq> k \<Longrightarrow> ik_responders (use_responder L k ops st) j = ik_responders st j"
  by (simp_all add: use_responder_def)

lemma put_sys_simps [simp]:
  "sy_server (put_sys sv held S) = sv" "sy_held (put_sys sv held S) = held"
  "ik_reqs (sy_intake (put_sys sv held S)) = ik_reqs (sy_intake S)"
  "ik_responders (sy_intake (put_sys sv held S)) = ik_responders (sy_intake S)"
  by (simp_all add: put_sys_def)

lemma leaves_intake_refl [simp]: "leaves_intake cap senders sv sv"
  by (simp add: leaves_intake_def)

context intake_channels
begin

abbreviation sinv :: "('h, 'b, 'c, 'o, 'f, 'l) system \<Rightarrow> bool" where
  "sinv \<equiv> system_inv L view listening rc.wf items cap senders alive"

abbreviation sstep :: "('h, 'b, 'c, 'o, 'f, 'l) system \<Rightarrow> ('h, 'b, 'c, 'o, 'f, 'l) system \<Rightarrow> bool" where
  "sstep \<equiv> system_step L items cap senders alive"

text \<open>Each step is one the intake allows to itself or to the rest of the process.\<close>

lemma use_is_other:
  assumes "in_hand (ik_reqs st k) \<Longrightarrow> list_all is_abandon ops"
  shows "intake_step L cap senders st (use_responder L k ops st)"
proof -
  let ?ops = "\<lambda>j. if j = k then ops else []"
  have "use_responder L k ops st = st\<lparr>ik_server := ik_server st, ik_log := ik_log st,
      ik_responders := \<lambda>j. map_option (responder_run (il_headers L) (il_oneshot L) (il_frames L) (?ops j)) (ik_responders st j)\<rparr>"
    by (auto simp: use_responder_def intro!: arg_cong[where f = "\<lambda>r. st\<lparr>ik_responders := r\<rparr>"])
  moreover have "intake_step L cap senders st (st\<lparr>ik_server := ik_server st, ik_log := ik_log st,
      ik_responders := \<lambda>j. map_option (responder_run (il_headers L) (il_oneshot L) (il_frames L) (?ops j)) (ik_responders st j)\<rparr>)"
    by (rule ik_other) (use assms in auto)
  ultimately show ?thesis by simp
qed

lemma server_is_other:
  assumes "leaves_intake cap senders (ik_server st) sv"
  shows "intake_step L cap senders st (st\<lparr>ik_server := sv\<rparr>)"
proof -
  have "intake_step L cap senders st (st\<lparr>ik_server := sv, ik_log := ik_log st,
      ik_responders := \<lambda>j. map_option (responder_run (il_headers L) (il_oneshot L) (il_frames L) []) (ik_responders st j)\<rparr>)"
    by (rule ik_other) (use assms in auto)
  then show ?thesis by simp
qed

lemma admitted_leaves:
  "leaves_intake cap senders sv (admitted_server now ms w ctx sv)"
  by (simp add: leaves_intake_def admitted_server_def on_slot_def)

lemma held_not_in_hand: "sinv S \<Longrightarrow> ctx \<in> set (sy_held S) \<Longrightarrow> \<not> in_hand (ik_reqs (sy_intake S) (cx_responder ctx))"
  using held_owner[of ctx S items] owned_handed_on unfolding system_inv_def handed_on_def by blast

lemma step_refines:
  assumes "sstep S S'" "sinv S"
  shows "intake_step L cap senders (sy_intake S) (sy_intake S')"
  using assms
proof cases
  case (sy_take sv ctx)
  then show ?thesis using rq.req_recv_leaves[of "sy_server S"] by (simp add: put_sys_def server_is_other)
next
  case (sy_take_lane w sv ctx)
  then show ?thesis using rq.lane_recv_leaves[of "sy_server S" w] by (simp add: put_sys_def server_is_other)
next
  case (sy_admit ctx w now ms)
  then show ?thesis by (simp add: put_sys_def server_is_other admitted_leaves)
next
  case (sy_use ctx ops)
  then show ?thesis using held_not_in_hand[OF assms(2), of ctx] by (auto intro!: use_is_other)
next
  case (sy_drop ctx)
  then show ?thesis using held_not_in_hand[OF assms(2), of ctx] by (auto simp: drop_ctx_use intro!: use_is_other)
next
  case (sy_abort k)
  then show ?thesis using assms(2) by (auto simp: system_inv_def handed_on_def intro!: use_is_other)
next
  case (sy_frame sv)
  then show ?thesis by (simp add: put_sys_def frame_def server_is_other)
qed (auto intro: ik_arrive ik_poll ik_hangup use_is_other)

text \<open>What a step owes beside the intake's own invariant.\<close>

abbreviation books :: "('h, 'b, 'c, 'o, 'f, 'l) system \<Rightarrow> bool" where
  "books S \<equiv> wf_slots cap senders alive (sy_server S)
     \<and> (\<forall>k. owned view (owners items k S) (ik_responders (sy_intake S) k) (ik_reqs (sy_intake S) k))
     \<and> (\<forall>k \<in> currents (sy_server S). handed_on (ik_reqs (sy_intake S) k))"

lemma sinv_books: "sinv S \<longleftrightarrow> inv (sy_intake S) \<and> books S"
  by (auto simp: system_inv_def)

lemma books_handed:
  assumes "books S" "hands k (sy_intake S) st'" "owners items k S = 0"
    and "in_hand (ik_reqs (sy_intake S) k) \<or> k \<notin> currents (sy_server S)"
  shows "books (S\<lparr>sy_intake := st'\<rparr>)"
proof -
  have "owned view (owners items j (S\<lparr>sy_intake := st'\<rparr>)) (ik_responders st' j) (ik_reqs st' j)" for j
    using assms(1) by (intro owned_handed[OF assms(2,3)]) blast
  moreover have "handed_on (ik_reqs st' j)" if "j \<in> currents (ik_server st')" for j
    using that assms by (cases "j = k") (auto simp: handed_def handed_on_def)
  ultimately show ?thesis using assms(2) by (simp add: handed_def)
qed

text \<open>Polling or dropping a future that has handed its request on.\<close>

lemma books_quiet:
  assumes "books S" "quiet items k (sy_intake S) st'" "\<not> in_hand (ik_reqs st' k)" "ik_reqs st' k \<noteq> None"
    and "at_head (ik_reqs st' k) \<Longrightarrow> at_head (ik_reqs (sy_intake S) k) \<and> ik_responders st' k = ik_responders (sy_intake S) k"
  shows "books (S\<lparr>sy_intake := st'\<rparr>)"
proof -
  note q = same_queuesD[of items "sy_server S" "ik_server st'"]
  have "owners items j (S\<lparr>sy_intake := st'\<rparr>) = owners items j S" for j
    using assms(2) q(1) by (simp add: owners_def quiet_def)
  moreover have "owned view (owners items j S) (ik_responders st' j) (ik_reqs st' j)" for j
  proof (cases "j = k")
    case True
    then have "owned view (owners items k S) (ik_responders (sy_intake S) k) (ik_reqs (sy_intake S) k)"
      using assms(1) by blast
    with True assms(3-5) show ?thesis by (auto simp: owned_def split: if_splits)
  next
    case False
    with assms(1,2) show ?thesis by (simp add: quiet_def)
  qed
  moreover have "handed_on (ik_reqs st' j)" if "j \<in> currents (sy_server S)" for j
    using that assms(1-4) by (cases "j = k") (auto simp: quiet_def handed_on_def)
  ultimately show ?thesis using assms(1,2) q(2,3) by (simp add: quiet_def)
qed

lemma inv_responder: "inv st \<Longrightarrow> ik_responders st k = Some r \<Longrightarrow> rc.wf r"
  using intake_inv_fut[of "il_headers L" view listening rc.wf cap senders st k]
  by (cases "ik_reqs st k") (auto simp: fut_ok_def)

lemma books_use:
  assumes "books S" "inv (sy_intake S)"
  shows "books (S\<lparr>sy_intake := use_responder L k ops (sy_intake S)\<rparr>)"
proof -
  have "\<exists>r'. ik_responders (use_responder L k ops (sy_intake S)) j = Some r' \<and> view (rp_head r') \<noteq> Pending"
    if r: "ik_responders (sy_intake S) j = Some r" "view (rp_head r) \<noteq> Pending" for j r
  proof (cases "j = k")
    case True
    with r inv_responder[OF assms(2) r(1)] show ?thesis by (simp add: use_responder_def rc.run_not_pending)
  qed (use r in simp)
  then have "owned view n (ik_responders (use_responder L k ops (sy_intake S)) j) fut"
    if "owned view n (ik_responders (sy_intake S) j) fut" for n j and fut :: "('h, 'b) request_fut option"
    using that by (fastforce simp: owned_def)
  moreover have "owners items j (S\<lparr>sy_intake := use_responder L k ops (sy_intake S)\<rparr>) = owners items j S" for j
    by (simp add: owners_def)
  ultimately show ?thesis using assms(1) by simp
qed

lemma abort_responds: "rp_responded (responder_run H P G [OpAbort] r)"
  by (cases "rp_responded r")
    (auto simp: responder_run_def respond_500_if_unsent_def claim_def split: bool.splits option.splits prod.splits send_result.splits)

lemma books_drop:
  assumes "books S" "inv (sy_intake S)" "ctx \<in> set (sy_held S)"
  shows "books (S\<lparr>sy_intake := drop_ctx L ctx (sy_intake S), sy_held := remove1 ctx (sy_held S)\<rparr>)"
proof -
  define k where "k = cx_responder ctx"
  define st where "st = drop_ctx L ctx (sy_intake S)"
  define S' where "S' = S\<lparr>sy_intake := st, sy_held := remove1 ctx (sy_held S)\<rparr>"
  have b: "books (S\<lparr>sy_intake := st\<rparr>)" unfolding st_def drop_ctx_use by (rule books_use[OF assms(1,2)])
  have n: "owners items j (S\<lparr>sy_intake := st\<rparr>) = owners items j S' + of_bool (j = k)" for j
    using multi_member_split[of ctx "mset (sy_held S)"] assms(3) by (auto simp: owners_def S'_def k_def)
  have own: "owned view (owners items j S' + of_bool (j = k)) (ik_responders st j) (ik_reqs st j)" for j
    unfolding n[symmetric] using b by simp
  have "ik_reqs (sy_intake S) k \<noteq> None" using own[of k] by (auto simp: owned_def st_def)
  then obtain r where r: "ik_responders (sy_intake S) k = Some r" "rc.wf r"
    using intake_inv_fut[OF assms(2), of k] by (auto simp: fut_ok_def)
  let ?r = "responder_run (il_headers L) (il_oneshot L) (il_frames L) [OpAbort] r"
  have "ik_responders st k = Some ?r" using r by (simp add: st_def k_def drop_ctx_use use_responder_def)
  moreover have "view (rp_head ?r) \<noteq> Pending"
    using rc.wf_run[OF r(2), of "il_headers L" "[OpAbort]"] abort_responds[of "il_headers L" "il_oneshot L" "il_frames L" r]
    unfolding wf_responder_def by blast
  ultimately have "owned view (owners items j S') (ik_responders st j) (ik_reqs st j)" for j
    using own[of j] owned_drop[of view "owners items k S'" "ik_responders st k" "ik_reqs st k" "ik_responders st k"]
    by (cases "j = k") auto
  with b have "books S'" by (simp add: S'_def)
  then show ?thesis by (simp add: S'_def st_def)
qed

lemma books_take:
  assumes "books S" "waiting items (sy_server S) = add_mset ctx (waiting items sv)"
    and "wf_slots cap senders alive sv" "currents sv = currents (sy_server S)"
  shows "books (put_sys sv (ctx # sy_held S) S)"
proof -
  have "owners items k (put_sys sv (ctx # sy_held S) S) = owners items k S" for k
    using assms(2) by (simp add: owners_def)
  with assms(1,3,4) show ?thesis by simp
qed

lemma admitted_currents:
  assumes "w < length (sv_slots sv)"
  shows "currents (admitted_server now ms w ctx sv) = insert (cx_responder ctx) (currents sv)"
proof -
  have "sv_slots (admitted_server now ms w ctx sv) ! i = sv_slots sv ! i" if "i \<noteq> w" for i
    using that by (simp add: admitted_server_def on_slot_def)
  then have "set (sl_current (sv_slots (admitted_server now ms w ctx sv) ! i)) =
      (if i = w then insert (cx_responder ctx) (set (sl_current (sv_slots sv ! i))) else set (sl_current (sv_slots sv ! i)))"
    for i using assms by simp
  with assms show ?thesis by (auto simp: currents_nth split: if_splits)
qed

lemma admitted_wf: "wf_slots cap senders alive sv \<Longrightarrow> wf_slots cap senders alive (admitted_server now ms w ctx sv)"
  unfolding admitted_server_def by (intro wf_slots_flags) (simp_all add: wf_slots_def)

lemma books_admit:
  assumes "books S" "ctx \<in> set (sy_held S)" "w < length (sv_slots (sy_server S))"
  shows "books (put_sys (admitted_server now ms w ctx (sy_server S)) (stamp_ctx now w ctx # remove1 ctx (sy_held S)) S)"
proof -
  obtain M where "mset (sy_held S) = add_mset ctx M"
    using multi_member_split[of ctx "mset (sy_held S)"] assms(2) by auto
  then have "owners items k (put_sys (admitted_server now ms w ctx (sy_server S)) (stamp_ctx now w ctx # remove1 ctx (sy_held S)) S)
      = owners items k S" for k
    by (simp add: owners_def stamp_ctx_def)
  moreover have "handed_on (ik_reqs (sy_intake S) (cx_responder ctx))"
    using assms(1) held_owner[OF assms(2), of items] owned_handed_on by blast
  ultimately show ?thesis
    using assms(1) admitted_wf[of "sy_server S" now ms w ctx] admitted_currents[OF assms(3), of now ms ctx] by auto
qed

lemma books_poll:
  assumes "books S" "inv (sy_intake S)"
  shows "books (S\<lparr>sy_intake := intake_poll L now k (sy_intake S)\<rparr>)"
proof (cases "ik_reqs (sy_intake S) k")
  case (Some fut)
  have own: "owned view (owners items k S) (ik_responders (sy_intake S) k) (Some fut)" using assms(1) Some by metis
  show ?thesis
  proof (cases rule: fut_cases[of fut])
    case hand
    then have "owners items k S = 0" using own by (simp add: owned_def)
    with hand assms Some poll_hands[OF assms(2) _ , of k now] show ?thesis
      by (intro books_handed[where k = k]) auto
  next
    case (head meta dl)
    have "ik_responders (poll_head L now k meta dl (sy_intake S)) = ik_responders (sy_intake S)"
      if "at_head (ik_reqs (poll_head L now k meta dl (sy_intake S)) k)"
      using that by (auto simp: poll_head_def Let_def set_fut_def at_head_def split: oneshot_view.splits if_splits)
    then show ?thesis
      using head Some poll_head_not_in_hand[of L now k meta dl "sy_intake S"]
      by (intro books_quiet[OF assms(1), where k = k]) (auto simp: intake_poll_def poll_head_quiet at_head_def)
  next
    case over
    with assms(1) Some show ?thesis by (cases fut) (simp_all add: intake_poll_def is_live_def)
  qed
qed (use assms(1) in \<open>simp add: intake_poll_def\<close>)

lemma books_hangup:
  assumes "books S" "inv (sy_intake S)"
  shows "books (S\<lparr>sy_intake := intake_hangup L k (sy_intake S)\<rparr>)"
proof (cases "ik_reqs (sy_intake S) k")
  case (Some fut)
  have own: "owned view (owners items k S) (ik_responders (sy_intake S) k) (Some fut)" using assms(1) Some by metis
  show ?thesis
  proof (cases rule: fut_cases[of fut])
    case hand
    then have "owners items k S = 0" using own by (simp add: owned_def)
    with hand assms Some hangup_hands[OF assms(2) _ , of k] show ?thesis
      by (intro books_handed[where k = k]) auto
  next
    case (head meta dl)
    have "quiet items k (sy_intake S) (set_fut k Dropped (drop_future L k (sy_intake S)))"
      by (rule quiet_trans[OF drop_future_quiet quiet_set_fut])
    with head Some show ?thesis
      by (intro books_quiet[OF assms(1), where k = k]) (simp_all add: intake_hangup_def set_fut_def in_hand_def at_head_def)
  next
    case over
    with assms(1) Some show ?thesis by (cases fut) (simp_all add: intake_hangup_def is_live_def)
  qed
qed (use assms(1) in \<open>simp add: intake_hangup_def\<close>)

lemma books_arrive:
  assumes "books S" "inv (sy_intake S)" "ik_reqs (sy_intake S) k = None"
  shows "books (S\<lparr>sy_intake := intake_arrive L now k ra la rq (sy_intake S)\<rparr>)"
proof (rule books_handed[where k = k])
  show "hands k (sy_intake S) (intake_arrive L now k ra la rq (sy_intake S))"
    using assms(1,2) by (intro arrive_hands) (simp_all add: intake_inv_def Let_def)
  have "owned view (owners items k S) (ik_responders (sy_intake S) k) (ik_reqs (sy_intake S) k)" using assms(1) by blast
  then show "owners items k S = 0" using assms(3) by (simp add: owned_def)
qed (use assms in \<open>auto simp: handed_on_def\<close>)

lemma lane_recv_currents:
  "w < length (sv_slots sv) \<Longrightarrow> currents (fst (lane_recv F w sv)) = currents sv"
  by (auto simp: lane_recv_def currents_on_slot split: option.splits prod.splits)

lemma step_books:
  assumes "sstep S S'" "sinv S"
  shows "books S'"
proof -
  have i: "inv (sy_intake S)" and b: "books S" using assms(2) unfolding sinv_books by blast+
  from assms(1) show ?thesis
  proof cases
    case (sy_take sv ctx)
    have "sv_slots sv = sv_slots (sy_server S)" "sv_lanes sv = sv_lanes (sy_server S)"
      "waiting items (sy_server S) = add_mset ctx (waiting items sv)"
      using rq.req_recvD[OF sy_take(2)] by simp_all
    with b show ?thesis unfolding sy_take(1) by (intro books_take) (auto simp: wf_slots_def currents_def)
  next
    case (sy_take_lane w sv ctx)
    obtain c where "sl_lane (sv_slots (sy_server S) ! w) = Some c"
      using sy_take_lane(3) by (auto simp: lane_recv_def split: option.splits)
    then have "waiting items (sy_server S) = add_mset ctx (waiting items sv)" "rq.wf sv"
      using rq.lane_recv_took[OF sy_take_lane(3,2)] b by (simp_all add: rq.took_def)
    moreover have "currents sv = currents (sy_server S)"
      using lane_recv_currents[OF sy_take_lane(2), of "il_queue L"] sy_take_lane(3) by simp
    ultimately show ?thesis unfolding sy_take_lane(1) by (intro books_take[OF b])
  next
    case (sy_frame sv)
    then have "owners items k S' = owners items k S" for k by (simp add: owners_def frame_def)
    with sy_frame b show ?thesis by (auto simp: frame_def)
  next
    case (sy_arrive k)
    show ?thesis unfolding sy_arrive(1) by (rule books_arrive[OF b i sy_arrive(2)])
  next
    case sy_poll
    show ?thesis unfolding sy_poll by (rule books_poll[OF b i])
  next
    case sy_hangup
    show ?thesis unfolding sy_hangup by (rule books_hangup[OF b i])
  next
    case sy_admit
    show ?thesis unfolding sy_admit(1) by (rule books_admit[OF b sy_admit(2,3)])
  next
    case sy_drop
    show ?thesis unfolding sy_drop(1) by (rule books_drop[OF b i sy_drop(2)])
  qed (use books_use[OF b i] in auto)
qed

lemma step_sinv: "sstep S S' \<Longrightarrow> sinv S \<Longrightarrow> sinv S'"
  using step_Inv[OF step_refines] step_books unfolding sinv_books by blast

lemma start_sinv: "system_start items cap senders alive S \<Longrightarrow> sinv S"
  by (auto simp: system_start_def sinv_books start_inv owners_def owned_def intake_start_def in_hand_def at_head_def)

end

sublocale intake_channels \<subseteq> sys: invariant_system "system_start items cap senders alive"
  "system_step L items cap senders alive"
  "system_inv L view listening (wf_responder view gcap gsenders) items cap senders alive"
  by unfold_locales (auto intro: start_sinv step_sinv)

context intake_channels
begin

lemma system_reach: "reach (system_start items cap senders alive) sstep S \<Longrightarrow> sinv S"
  by (rule sys.reach_Inv)

text \<open>The system is an instance of the intake among everything else.\<close>

lemma system_refines:
  "reach (system_start items cap senders alive) sstep S \<Longrightarrow> reach (intake_start cap senders) (intake_step L cap senders) (sy_intake S)"
proof (induction rule: reach.induct)
  case (reach_init S)
  then show ?case by (auto simp: system_start_def intro: reach.reach_init)
next
  case (reach_step S S')
  then show ?case using step_refines[OF reach_step(2) sys.reach_Inv[OF reach_step(1)]] by (auto intro: reach.reach_step)
qed

end

end
