(* ===== verification/Kino_System_Steps.thy ===== *)
theory Kino_System_Steps
  imports Kino_System
begin

text \<open>
  Runs of the composed system: workers can always get to the request of a client that waits,
  the whole can always be drained, and what the supervisor's natives do (\<open>Kino_Lifecycle\<close>), aborts included, is a sequence of
  steps of the system.
\<close>

section \<open>A waiting client can be answered\<close>

lemma in_sum_list_map: "x \<in># sum_list (map g xs) \<longleftrightarrow> (\<exists>s \<in> set xs. x \<in># g s)"
  by (induction xs) auto

lemma is_live_iff: "is_live fut \<longleftrightarrow> (\<exists>meta p. fut = Awaiting meta p)"
  by (cases fut) (simp_all add: is_live_def)

text \<open>A request that waited has been answered, and another is as it was.\<close>

definition ended_from :: "('h, 'b) request_fut option \<Rightarrow> ('h, 'b) request_fut option \<Rightarrow> bool" where
  "ended_from x y \<longleftrightarrow> (if \<exists>fut. x = Some fut \<and> is_live fut then \<exists>why resp. y = Some (Ended why resp) else y = x)"

lemma ended_from_trans: "ended_from x y \<Longrightarrow> ended_from y z \<Longrightarrow> ended_from x z"
  by (auto simp: ended_from_def is_live_iff split: if_splits)

lemma ended_not_live: "ended_from x y \<Longrightarrow> \<not> (\<exists>fut. y = Some fut \<and> is_live fut)"
  by (auto simp: ended_from_def is_live_iff split: if_splits)

context intake_channels
begin

lemma owner_place:
  assumes "0 < owners items k S"
  obtains (held) ctx where "ctx \<in> set (sy_held S)" "cx_responder ctx = k"
  | (queue) ctx where "ctx \<in> set (items (sv_req (sy_server S)))" "cx_responder ctx = k"
  | (lane) ctx w c where "w < length (sv_slots (sy_server S))" "sl_lane (sv_slots (sy_server S) ! w) = Some c"
      "ctx \<in> set (items c)" "cx_responder ctx = k"
proof -
  let ?M = "waiting items (sy_server S) + mset (sy_held S)"
  obtain ctx where c: "ctx \<in># ?M" "cx_responder ctx = k"
  proof -
    have "filter_mset (\<lambda>ctx. cx_responder ctx = k) ?M \<noteq> {#}"
      using assms unfolding owners_def by (metis size_empty less_irrefl)
    then obtain ctx where "ctx \<in># filter_mset (\<lambda>ctx. cx_responder ctx = k) ?M" by (rule multiset_nonemptyE)
    then show thesis using that by auto
  qed
  show thesis
  proof (cases "ctx \<in> set (sy_held S) \<or> ctx \<in> set (items (sv_req (sy_server S)))")
    case True
    with c(2) held queue show thesis by blast
  next
    case False
    with c(1) obtain s where s: "s \<in> set (sv_slots (sy_server S))" "ctx \<in> set (lane_items items s)"
      by (auto simp: waiting_def in_sum_list_map)
    then obtain w where "w < length (sv_slots (sy_server S))" "s = sv_slots (sy_server S) ! w"
      by (auto simp: in_set_conv_nth)
    with s(2) c(2) show thesis by (cases "sl_lane s") (auto simp: lane_items_def intro: lane)
  qed
qed

text \<open>Taking from a queue until the request is reached.\<close>

lemma dig_queue:
  assumes "ctx \<in> set (items (sv_req (sy_server S)))"
  shows "\<exists>S'. sstep\<^sup>*\<^sup>* S S' \<and> ctx \<in> set (sy_held S') \<and> ik_reqs (sy_intake S') = ik_reqs (sy_intake S)"
  using assms
proof (induction "items (sv_req (sy_server S))" arbitrary: S)
  case (Cons x xs)
  obtain c where c: "ch_try_recv (il_queue L) (sv_req (sy_server S)) = (c, Received x)" "items c = xs"
    using rq.recv_item[OF Cons(2)[symmetric]] by auto
  let ?S = "put_sys ((sy_server S)\<lparr>sv_req := c\<rparr>) (x # sy_held S) S"
  have step: "sstep S ?S" using c(1) by (intro sy_take) (simp add: req_recv_def)
  show ?case
  proof (cases "x = ctx")
    case True
    with step show ?thesis by (intro exI[of _ ?S]) auto
  next
    case False
    have "ctx \<in> set (x # xs)" using Cons(2,3) by simp
    with False c(2) have "ctx \<in> set (items (sv_req (sy_server ?S)))" by simp
    from Cons.hyps(1)[OF _ this] c(2) show ?thesis using step by (auto intro: converse_rtranclp_into_rtranclp)
  qed
qed simp

lemma dig_lane:
  assumes "w < length (sv_slots (sy_server S))" "sl_lane (sv_slots (sy_server S) ! w) = Some c" "ctx \<in> set (items c)"
  shows "\<exists>S'. sstep\<^sup>*\<^sup>* S S' \<and> ctx \<in> set (sy_held S') \<and> ik_reqs (sy_intake S') = ik_reqs (sy_intake S)"
  using assms
proof (induction "items c" arbitrary: S c)
  case (Cons x xs)
  obtain c' where c: "ch_try_recv (il_queue L) c = (c', Received x)" "items c' = xs"
    using rq.recv_item[OF Cons(2)[symmetric]] by auto
  let ?sv = "on_slot w (\<lambda>s. s\<lparr>sl_lane := Some c'\<rparr>) (sy_server S)"
  let ?S = "put_sys ?sv (x # sy_held S) S"
  have step: "sstep S ?S" using c(1) Cons(3,4) by (intro sy_take_lane[of w]) (simp_all add: lane_recv_def)
  show ?case
  proof (cases "x = ctx")
    case True
    with step show ?thesis by (intro exI[of _ ?S]) auto
  next
    case False
    have "ctx \<in> set (x # xs)" using Cons(2,5) by simp
    with False c(2) have "ctx \<in> set (items c')" by simp
    with Cons.hyps(1)[of c' ?S] c(2) Cons(3) show ?thesis using step by (auto intro: converse_rtranclp_into_rtranclp)
  qed
qed simp

lemma poll_settles:
  assumes "sinv S" "owners items k S = 0" "ik_reqs (sy_intake S) k = Some (Awaiting meta (AtHead dl))"
  shows "\<exists>why resp. ik_reqs (intake_poll L now k (sy_intake S)) k = Some (Ended why resp)"
proof -
  have "owned view (owners items k S) (ik_responders (sy_intake S) k) (ik_reqs (sy_intake S) k)"
    using assms(1) by (simp add: system_inv_def)
  with assms(2,3) obtain r where "ik_responders (sy_intake S) k = Some r" "view (rp_head r) \<noteq> Pending"
    by (auto simp: owned_def at_head_def)
  from poll_head_answered[OF assms(3) this, of now] show ?thesis by (auto split: oneshot_view.splits)
qed

lemma client_reached:
  assumes "sinv S" "ik_reqs (sy_intake S) k = Some (Awaiting meta (AtHead dl))"
  shows "\<exists>S'. sstep\<^sup>*\<^sup>* S S' \<and> ik_reqs (sy_intake S') = ik_reqs (sy_intake S) \<and> (\<forall>now. \<exists>why resp. ik_reqs (intake_poll L now k (sy_intake S')) k = Some (Ended why resp))"
proof (cases "owners items k S = 0")
  case True
  with poll_settles[OF assms(1) _ assms(2)] show ?thesis by blast
next
  case False
  then have "0 < owners items k S" by simp
  then have "\<exists>S' ctx. sstep\<^sup>*\<^sup>* S S' \<and> ctx \<in> set (sy_held S') \<and> cx_responder ctx = k
      \<and> ik_reqs (sy_intake S') = ik_reqs (sy_intake S)"
    by (cases rule: owner_place) (blast dest: dig_queue dig_lane)+
  then obtain S' ctx where S': "sstep\<^sup>*\<^sup>* S S'" "ctx \<in> set (sy_held S')" "cx_responder ctx = k"
    "ik_reqs (sy_intake S') = ik_reqs (sy_intake S)" by blast
  let ?S = "S'\<lparr>sy_intake := drop_ctx L ctx (sy_intake S'), sy_held := remove1 ctx (sy_held S')\<rparr>"
  have step: "sstep S' ?S" using S'(2) by (rule sy_drop)
  have i: "sinv S'" "sinv ?S" using sys.steps_Inv[OF S'(1) assms(1)] step_sinv[OF step] by blast+
  have "owned view (owners items k S') (ik_responders (sy_intake S') k) (ik_reqs (sy_intake S') k)"
    using i(1) by (simp add: system_inv_def)
  then have "owners items k S' \<le> 1" by (simp add: owned_def)
  moreover have "owners items k S' = owners items k ?S + 1"
    using multi_member_split[of ctx "mset (sy_held S')"] S'(2,3) by (auto simp: owners_def)
  ultimately have "owners items k ?S = 0" by simp
  with poll_settles[OF i(2), of k meta dl] S'(4) assms(2) have
    "\<forall>now. \<exists>why resp. ik_reqs (intake_poll L now k (sy_intake ?S)) k = Some (Ended why resp)" by simp
  moreover have "sstep\<^sup>*\<^sup>* S ?S" "ik_reqs (sy_intake ?S) = ik_reqs (sy_intake S)" using S'(1,4) step by simp_all
  ultimately show ?thesis by blast
qed

lemma poll_others:
  assumes "sinv S" "j \<noteq> k"
  shows "ik_reqs (intake_poll L now k (sy_intake S)) j = ik_reqs (sy_intake S) j"
proof (cases "in_hand (ik_reqs (sy_intake S) k)")
  case True
  with poll_hands[of "sy_intake S" k now] assms show ?thesis by (auto simp: sinv_books system_inv_def handed_def)
next
  case False
  with poll_head_quiet[of items k "sy_intake S" L now] assms(2) show ?thesis
    by (auto simp: intake_poll_def in_hand_def quiet_def split: option.splits request_fut.splits await_point.splits)
qed

text \<open>From wherever a request waits, a run ends it and touches no other.\<close>

lemma request_ends:
  assumes "sinv S" "ik_reqs (sy_intake S) k = Some (Awaiting meta p)"
  shows "\<exists>S'. sstep\<^sup>*\<^sup>* S S' \<and> (\<exists>why resp. ik_reqs (sy_intake S') k = Some (Ended why resp))
    \<and> (\<forall>j. j \<noteq> k \<longrightarrow> ik_reqs (sy_intake S') j = ik_reqs (sy_intake S) j)"
proof -
  have head: "\<exists>S'. sstep\<^sup>*\<^sup>* S1 S' \<and> (\<exists>why resp. ik_reqs (sy_intake S') k = Some (Ended why resp))
      \<and> (\<forall>j. j \<noteq> k \<longrightarrow> ik_reqs (sy_intake S') j = ik_reqs (sy_intake S1) j)"
    if i: "sinv S1" and a: "ik_reqs (sy_intake S1) k = Some (Awaiting meta (AtHead dl))" for S1 dl
  proof -
    from client_reached[OF i a] obtain S2 where S2: "sstep\<^sup>*\<^sup>* S1 S2" "ik_reqs (sy_intake S2) = ik_reqs (sy_intake S1)"
      "\<exists>why resp. ik_reqs (intake_poll L 0 k (sy_intake S2)) k = Some (Ended why resp)" by blast
    let ?S = "S2\<lparr>sy_intake := intake_poll L 0 k (sy_intake S2)\<rparr>"
    have "sstep\<^sup>*\<^sup>* S1 ?S" using S2(1) sy_poll by (rule rtranclp.rtrancl_into_rtrancl)
    moreover have "ik_reqs (sy_intake ?S) j = ik_reqs (sy_intake S1) j" if "j \<noteq> k" for j
      using poll_others[OF sys.steps_Inv[OF S2(1) i] that] S2(2) by simp
    ultimately show ?thesis using S2(3) by (intro exI[of _ ?S]) auto
  qed
  have hand: ?thesis if p: "p = AtLane ctx d \<or> p = AtQueue ctx d" for ctx d
  proof -
    let ?S = "S\<lparr>sy_intake := intake_poll L d k (sy_intake S)\<rparr>"
    have step: "sstep S ?S" by (rule sy_poll)
    have others: "ik_reqs (sy_intake ?S) j = ik_reqs (sy_intake S) j" if "j \<noteq> k" for j
      using poll_others[OF assms(1) that] by simp
    from poll_past_deadline[OF assms(2) p order_refl, of L]
    consider "\<exists>why resp. ik_reqs (sy_intake ?S) k = Some (Ended why resp)"
      | dl where "ik_reqs (sy_intake ?S) k = Some (Awaiting meta (AtHead dl))" by auto
    then show ?thesis
    proof cases
      case 1
      with step others show ?thesis by (intro exI[of _ ?S]) auto
    next
      case 2
      from head[OF step_sinv[OF step assms(1)] 2] others step show ?thesis
        by (metis converse_rtranclp_into_rtranclp)
    qed
  qed
  with head[OF assms(1)] assms(2) show ?thesis by (cases p) blast+
qed

text \<open>So all of them can be ended, one after the other.\<close>

lemma requests_end:
  "sinv S \<Longrightarrow> \<exists>S'. sstep\<^sup>*\<^sup>* S S' \<and> (\<forall>k. ended_from (ik_reqs (sy_intake S) k) (ik_reqs (sy_intake S') k))"
proof (induction "card {k. \<exists>fut. ik_reqs (sy_intake S) k = Some fut \<and> is_live fut}" arbitrary: S rule: less_induct)
  case less
  let ?live = "\<lambda>S. {k. \<exists>fut. ik_reqs (sy_intake S) k = Some fut \<and> is_live fut}"
  show ?case
  proof (cases "?live S = {}")
    case True
    then show ?thesis by (intro exI[of _ S]) (auto simp: ended_from_def)
  next
    case False
    then obtain k meta p where k: "ik_reqs (sy_intake S) k = Some (Awaiting meta p)" by (auto simp: is_live_iff)
    from request_ends[OF less.prems k] obtain S1 where S1: "sstep\<^sup>*\<^sup>* S S1"
      "\<exists>why resp. ik_reqs (sy_intake S1) k = Some (Ended why resp)"
      "\<And>j. j \<noteq> k \<Longrightarrow> ik_reqs (sy_intake S1) j = ik_reqs (sy_intake S) j" by blast
    have "finite (dom (ik_reqs (sy_intake S)))"
      using less.prems by (simp add: system_inv_def intake_inv_def Let_def)
    then have fin: "finite (?live S)" by (rule finite_subset[rotated]) auto
    have live: "?live S1 = ?live S - {k}"
    proof (rule set_eqI)
      show "j \<in> ?live S1 \<longleftrightarrow> j \<in> ?live S - {k}" for j
        using S1(2) S1(3)[of j] by (cases "j = k") (auto simp: is_live_iff)
    qed
    have "card (?live S1) < card (?live S)"
      unfolding live by (rule card_Diff1_less[OF fin]) (use k in \<open>simp add: is_live_iff\<close>)
    from less.hyps[OF this sys.steps_Inv[OF S1(1) less.prems]] obtain S' where S': "sstep\<^sup>*\<^sup>* S1 S'"
      "\<And>j. ended_from (ik_reqs (sy_intake S1) j) (ik_reqs (sy_intake S') j)" by blast
    have "ended_from (ik_reqs (sy_intake S) j) (ik_reqs (sy_intake S1) j)
        \<or> ik_reqs (sy_intake S1) j = ik_reqs (sy_intake S) j" for j
      using S1(2) S1(3)[of j] k by (cases "j = k") (auto simp: ended_from_def is_live_iff)
    with S'(2) ended_from_trans have "ended_from (ik_reqs (sy_intake S) j) (ik_reqs (sy_intake S') j)" for j by metis
    with S1(1) S'(1) show ?thesis by (meson rtranclp_trans)
  qed
qed

text \<open>And the contexts left over, of clients that are gone, are taken and dropped.\<close>

lemma take_some:
  assumes "waiting items (sy_server S) \<noteq> {#}" "sinv S"
  shows "\<exists>S'. sstep S S' \<and> Suc (size (waiting items (sy_server S'))) = size (waiting items (sy_server S))
    \<and> length (sy_held S') = Suc (length (sy_held S)) \<and> ik_reqs (sy_intake S') = ik_reqs (sy_intake S)"
proof -
  have wf: "rq.wf (sy_server S)" using assms(2) by (simp add: system_inv_def)
  have got: ?thesis if "sstep S (put_sys sv (x # sy_held S) S)" "rq.took x (sy_server S) sv" for sv x
    using that by (intro exI[of _ "put_sys sv (x # sy_held S) S"]) (auto simp: rq.took_def)
  obtain ctx where ctx: "ctx \<in># waiting items (sy_server S)" using assms(1) by (rule multiset_nonemptyE)
  consider x xs where "items (sv_req (sy_server S)) = x # xs"
    | i c x xs where "i < length (sv_slots (sy_server S))" "sl_lane (sv_slots (sy_server S) ! i) = Some c" "items c = x # xs"
  proof (cases "items (sv_req (sy_server S))")
    case Nil
    with ctx obtain s where s: "s \<in> set (sv_slots (sy_server S))" "ctx \<in> set (lane_items items s)"
      by (auto simp: waiting_def in_sum_list_map)
    from s(1) obtain i where i: "i < length (sv_slots (sy_server S))" "sv_slots (sy_server S) ! i = s"
      by (auto simp: in_set_conv_nth)
    from s(2) obtain c where "sl_lane s = Some c" "items c \<noteq> []" 
      by (cases "sl_lane s") (fastforce simp: lane_items_def)+
    with i that(2) show ?thesis by (metis neq_Nil_conv)
  qed (rule that(1))
  then show ?thesis
  proof cases
    case 1
    then obtain sv where r: "req_recv (il_queue L) (sy_server S) = (sv, Received x)"
      using rq.recv_item[OF 1] by (auto simp: req_recv_def)
    from got[OF sy_take[OF r]] rq.req_recv_took[OF r wf] show ?thesis by blast
  next
    case 2
    then obtain sv where r: "lane_recv (il_queue L) i (sy_server S) = (sv, Received x)"
      using rq.recv_item[OF 2(3)] by (auto simp: lane_recv_def)
    from got[OF sy_take_lane[OF 2(1) r]] rq.lane_recv_took[OF r 2(1,2) wf] show ?thesis by blast
  qed
qed

lemma queues_drain:
  "sinv S \<Longrightarrow> \<exists>S'. sstep\<^sup>*\<^sup>* S S' \<and> waiting items (sy_server S') = {#} \<and> sy_held S' = []
    \<and> ik_reqs (sy_intake S') = ik_reqs (sy_intake S)"
proof (induction "2 * size (waiting items (sy_server S)) + length (sy_held S)" arbitrary: S rule: less_induct)
  case less
  show ?case
  proof (cases "waiting items (sy_server S) = {#} \<and> sy_held S = []")
    case True
    then show ?thesis by (intro exI[of _ S]) simp
  next
    case False
    have "\<exists>S1. sstep S S1 \<and> 2 * size (waiting items (sy_server S1)) + length (sy_held S1)
          < 2 * size (waiting items (sy_server S)) + length (sy_held S)
        \<and> ik_reqs (sy_intake S1) = ik_reqs (sy_intake S)"
    proof (cases "sy_held S")
      case Nil
      with False take_some[OF _ less.prems] show ?thesis by fastforce
    next
      case (Cons ctx held)
      let ?S = "S\<lparr>sy_intake := drop_ctx L ctx (sy_intake S), sy_held := remove1 ctx (sy_held S)\<rparr>"
      have "sstep S ?S" using Cons by (intro sy_drop) simp
      with Cons show ?thesis by (intro exI[of _ ?S]) simp
    qed
    then obtain S1 where "sstep S S1" "ik_reqs (sy_intake S1) = ik_reqs (sy_intake S)"
      "2 * size (waiting items (sy_server S1)) + length (sy_held S1) < 2 * size (waiting items (sy_server S)) + length (sy_held S)"
      by blast
    with less.hyps[of S1] step_sinv[of S S1] less.prems show ?thesis
      by (metis converse_rtranclp_into_rtranclp)
  qed
qed

lemma system_drains:
  assumes "sinv S"
  shows "\<exists>S'. sstep\<^sup>*\<^sup>* S S' \<and> waiting items (sy_server S') = {#} \<and> sy_held S' = [] \<and> sv_in_flight (sy_server S') = 0
    \<and> (\<forall>k. ended_from (ik_reqs (sy_intake S) k) (ik_reqs (sy_intake S') k))"
proof -
  from requests_end[OF assms] obtain S1 where S1: "sstep\<^sup>*\<^sup>* S S1"
    "\<forall>k. ended_from (ik_reqs (sy_intake S) k) (ik_reqs (sy_intake S1) k)" by blast
  from queues_drain[OF sys.steps_Inv[OF S1(1) assms]] obtain S' where S': "sstep\<^sup>*\<^sup>* S1 S'"
    "waiting items (sy_server S') = {#}" "sy_held S' = []" "ik_reqs (sy_intake S') = ik_reqs (sy_intake S1)" by blast
  have "sinv S'" using sys.steps_Inv[OF S'(1) sys.steps_Inv[OF S1(1) assms]] .
  then have "sv_in_flight (sy_server S') = of_nat (tally is_live {} (ik_reqs (sy_intake S')))"
    by (simp add: system_inv_def intake_inv_def Let_def)
  moreover have "{k. \<exists>fut. ik_reqs (sy_intake S') k = Some fut \<and> is_live fut} = {}"
    using ended_not_live S1(2) unfolding S'(4) by blast
  ultimately have "sv_in_flight (sy_server S') = 0" by (simp add: tally_def)
  with S1 S' show ?thesis by (metis rtranclp_trans)
qed

end

section \<open>The natives are steps of the system\<close>

text \<open>The world in which a native finds the server and the responders of the system.\<close>

definition sees :: "u64 \<Rightarrow> ('h, 'b, 'c, 'o, 'f, 'l) system \<Rightarrow> ('c, 'o, 'f) world \<Rightarrow> bool" where
  "sees i S W \<longleftrightarrow> sv_id (sy_server S) = i \<and> try_get i (wd_registry W) = Some (sy_server S)
     \<and> wd_responders W = ik_responders (sy_intake S)"

definition same_libs :: "('h, 'b, 'c, 'o, 'f, 'l) intake_libs \<Rightarrow> ('h, 'o, 'f, 'b, 'c) native_libs \<Rightarrow> bool" where
  "same_libs L N \<longleftrightarrow> nl_headers N = il_headers L \<and> nl_oneshot N = il_oneshot L \<and> nl_frames N = il_frames L
     \<and> nl_requests N = il_queue L"

lemma close_simps [simp]:
  "sl_current (close_lane F s) = sl_current s" "sv_slots (close_req F sv) = sv_slots sv"
  by (simp_all add: close_lane_def close_req_def)

lemma currents_on_slot_subset:
  assumes "\<And>s. set (sl_current (f s)) \<subseteq> set (sl_current s)"
  shows "currents (on_slot w f sv) \<subseteq> currents sv"
proof (cases "w < length (sv_slots sv)")
  case True
  have "set (sl_current ((sv_slots sv)[w := f (sv_slots sv ! w)] ! i)) \<subseteq> set (sl_current (sv_slots sv ! i))"
    if "i < length (sv_slots sv)" for i
    using assms True that by (cases "i = w") auto
  then show ?thesis by (force simp: currents_nth on_slot_def)
qed (simp add: on_slot_def currents_def list_update_beyond)

context intake_channels
begin

abbreviation is_frame :: "'c server_inner \<Rightarrow> 'c server_inner \<Rightarrow> bool" where
  "is_frame \<equiv> frame items cap senders alive"

lemma frame_slot:
  assumes "rq.wf sv" "\<And>s. sl_lane (f s) = sl_lane s" "\<And>s. sl_lane_tx (f s) = sl_lane_tx s"
    "\<And>s. set (sl_current (f s)) \<subseteq> set (sl_current s)"
  shows "is_frame sv (on_slot w f sv)"
  using assms wf_slots_flags[OF assms(2,3,1)] waiting_on_slot[of f items w sv] currents_on_slot_subset[of f w sv]
  by (simp add: frame_def leaves_intake_def on_slot_def)

lemma frame_counters:
  assumes "rq.wf sv" "sv_slots sv' = sv_slots sv" "sv_lanes sv' = sv_lanes sv" "sv_req sv' = sv_req sv"
    "sv_req_tx sv' = sv_req_tx sv" "sv_in_flight sv' = sv_in_flight sv" "sv_rejected sv' = sv_rejected sv"
    "sv_timeouts sv' = sv_timeouts sv"
  shows "is_frame sv sv'"
  using assms by (simp add: frame_def leaves_intake_def waiting_def currents_def wf_slots_def)

lemma close_lane_items [simp]: "lane_items items (close_lane (il_queue L) s) = lane_items items s"
  by (simp add: lane_items_def close_lane_def split: option.splits)

lemma frame_close_queue:
  assumes "rq.wf sv" "0 < senders (sv_req sv) \<or> \<not> sv_req_tx sv"
  shows "is_frame sv (let sv = close_req (il_queue L) sv in sv\<lparr>sv_slots := map (close_lane (il_queue L)) (sv_slots sv)\<rparr>)"
    (is "is_frame sv ?sv")
proof -
  have "leaves_intake cap senders sv ?sv" using rq.close_req_leaves[OF assms(2)] by (simp add: leaves_intake_def Let_def)
  moreover have "waiting items ?sv = waiting items sv"
    by (simp add: waiting_def Let_def comp_def close_req_def)
  moreover have "currents ?sv \<subseteq> currents sv"
    by (simp add: Let_def currents_def)
  ultimately show ?thesis using wf_close_queue[OF assms(1)] by (simp only: frame_def)
qed

lemma frame_close:
  assumes "rq.wf sv"
  shows "is_frame sv (on_slot w (\<lambda>s. (close_lane (il_queue L) (s\<lparr>sl_current := [], sl_in_flight := 0\<rparr>))\<lparr>sl_parked := True\<rparr>) sv)"
    (is "is_frame sv (on_slot w ?f sv)")
proof -
  have items: "lane_items items (?f s) = lane_items items s" for s
    by (simp add: lane_items_def close_lane_def split: option.splits)
  have "waiting items (on_slot w ?f sv) = waiting items sv"
    by (simp add: waiting_def on_slot_def items sum_list_update_same)
  moreover have "rq.wf (on_slot w ?f sv)"
    by (rule wf_slots_on_slot[OF _ assms]) (auto simp: wf_slot_def close_lane_def split: option.splits)
  moreover have "currents (on_slot w ?f sv) \<subseteq> currents sv" by (rule currents_on_slot_subset) simp
  ultimately show ?thesis by (simp add: frame_def leaves_intake_def on_slot_def)
qed

lemma frame_register:
  assumes "rq.wf sv" "length (sv_slots sv) + 1 < 2 ^ 64"
  shows "is_frame sv (fst (server_register_worker (il_queue L) sv))"
  using assms
  by (auto simp: server_register_worker_def Let_def frame_def leaves_intake_def waiting_def currents_def wf_slots_def
      worker_slot_new_def wf_slot_def lane_items_def LANE_DEPTH_def)

lemma sees_frame:
  assumes "sees i S W" "is_frame (sy_server S) sv" "sv_id sv = i"
  shows "\<exists>S'. sstep\<^sup>*\<^sup>* S S' \<and> sees i S' (put_server sv W)"
proof (intro exI conjI)
  show "sstep\<^sup>*\<^sup>* S (put_sys sv (sy_held S) S)" using sy_frame[OF assms(2)] by blast
  show "sees i (put_sys sv (sy_held S) S) (put_server sv W)" using assms by (simp add: sees_def)
qed

lemma answer_use:
  "outcome_state (answer (il_headers L) (il_oneshot L) (il_frames L) k (ik_responders st))
     = ik_responders (use_responder L k [OpAbort] st)"
  by (cases "ik_responders st k")
    (auto simp: use_responder_def answer_def responder_run_def fun_upd_idem split: outcome.splits)

abbreviation abort_answer where
  "abort_answer \<equiv> answer (il_headers L) (il_oneshot L) (il_frames L)"

lemma answer_all_steps:
  assumes "set ks \<subseteq> currents (sy_server S)"
  shows "\<exists>S'. sstep\<^sup>*\<^sup>* S S' \<and> sy_server S' = sy_server S
    \<and> ik_responders (sy_intake S') = outcome_state (answer_all (il_headers L) (il_oneshot L) (il_frames L) ks (ik_responders (sy_intake S)))"
  using assms
proof (induction ks arbitrary: S)
  case (Cons k ks)
  let ?S = "S\<lparr>sy_intake := use_responder L k [OpAbort] (sy_intake S)\<rparr>"
  have step: "sstep S ?S" using Cons.prems by (intro sy_abort) simp
  have rs: "outcome_state (abort_answer k (ik_responders (sy_intake S))) = ik_responders (sy_intake ?S)"
    by (simp add: answer_use)
  show ?case
  proof (cases "abort_answer k (ik_responders (sy_intake S))")
    case (Returns rs')
    with rs have r: "rs' = ik_responders (sy_intake ?S)" by simp
    from Cons.IH[of ?S] Cons.prems obtain S' where "sstep\<^sup>*\<^sup>* ?S S'" "sy_server S' = sy_server S"
      "ik_responders (sy_intake S') = outcome_state (answer_all (il_headers L) (il_oneshot L) (il_frames L) ks rs')"
      unfolding r by auto
    with step Returns show ?thesis by (intro exI[of _ S']) (auto intro: converse_rtranclp_into_rtranclp)
  next
    case (Blocked rs')
    with rs step show ?thesis by (intro exI[of _ ?S]) auto
  qed
qed auto

lemma drain_lane_steps:
  assumes "w < length (sv_slots (sy_server S))" "sl_lane (sv_slots (sy_server S) ! w) = Some rx"
  shows "\<exists>S' rx' rs'. sstep\<^sup>*\<^sup>* S S'
    \<and> outcome_state (drain_lane n (il_headers L) (il_oneshot L) (il_frames L) (il_queue L) (rx, ik_responders (sy_intake S))) = (rx', rs')
    \<and> sy_server S' = on_slot w (\<lambda>s. s\<lparr>sl_lane := Some rx'\<rparr>) (sy_server S) \<and> ik_responders (sy_intake S') = rs'"
  using assms
proof (induction n arbitrary: S rx)
  case 0
  then have "on_slot w (\<lambda>s. s\<lparr>sl_lane := Some rx\<rparr>) (sy_server S) = sy_server S"
    by (intro on_slot_id) (cases "sv_slots (sy_server S) ! w", simp)
  then show ?case by (intro exI[of _ S]) auto
next
  case (Suc n)
  have same: "on_slot w (\<lambda>s. s\<lparr>sl_lane := Some rx\<rparr>) (sy_server S) = sy_server S"
    using Suc.prems by (intro on_slot_id) (cases "sv_slots (sy_server S) ! w", simp)
  show ?case
  proof (cases rule: rq.recv_cases[of rx])
    case (item ctx rx')
    let ?sv = "on_slot w (\<lambda>s. s\<lparr>sl_lane := Some rx'\<rparr>) (sy_server S)"
    let ?S1 = "put_sys ?sv (ctx # sy_held S) S"
    let ?S2 = "?S1\<lparr>sy_intake := drop_ctx L ctx (sy_intake ?S1), sy_held := remove1 ctx (sy_held ?S1)\<rparr>"
    have s1: "sstep S ?S1" using item(1) Suc.prems by (intro sy_take_lane[of w]) (simp_all add: lane_recv_def)
    have s2: "sstep ?S1 ?S2" by (rule sy_drop) simp
    have r: "outcome_state (abort_answer (cx_responder ctx) (ik_responders (sy_intake S))) = ik_responders (sy_intake ?S2)"
      by (simp add: drop_ctx_def)
    show ?thesis
    proof (cases "abort_answer (cx_responder ctx) (ik_responders (sy_intake S))")
      case (Returns rs')
      with r have rs: "rs' = ik_responders (sy_intake ?S2)" by simp
      from Suc.IH[of ?S2 rx'] Suc.prems obtain S' rx'' where S': "sstep\<^sup>*\<^sup>* ?S2 S'"
        "outcome_state (drain_lane n (il_headers L) (il_oneshot L) (il_frames L) (il_queue L) (rx', rs')) = (rx'', ik_responders (sy_intake S'))"
        "sy_server S' = on_slot w (\<lambda>s. s\<lparr>sl_lane := Some rx''\<rparr>) ?sv"
        unfolding rs by auto
      have "sstep\<^sup>*\<^sup>* S S'" using s1 s2 S'(1) by (meson converse_rtranclp_into_rtranclp)
      moreover have "sy_server S' = on_slot w (\<lambda>s. s\<lparr>sl_lane := Some rx''\<rparr>) (sy_server S)"
        using S'(3) Suc.prems(1) by (simp add: on_slot_def)
      ultimately show ?thesis using item(1) Returns S'(2) by auto
    next
      case (Blocked rs')
      with r item(1) s1 s2 show ?thesis by (intro exI[of _ ?S2]) auto
    qed
  qed (use same in \<open>auto intro!: exI[of _ S]\<close>)
qed

lemma abort_slot_steps:
  assumes "w < length (sv_slots (sy_server S))" "rq.wf (sy_server S)"
  shows "\<exists>S' slot' rs'. sstep\<^sup>*\<^sup>* S S'
    \<and> outcome_state (abort_slot (il_headers L) (il_oneshot L) (il_frames L) (il_queue L)
        (sv_slots (sy_server S) ! w, ik_responders (sy_intake S))) = (slot', rs')
    \<and> sy_server S' = on_slot w (\<lambda>_. slot') (sy_server S) \<and> ik_responders (sy_intake S') = rs'"
proof -
  let ?slot = "sv_slots (sy_server S) ! w" and ?F = "il_queue L"
  let ?close = "\<lambda>s. (close_lane ?F (s\<lparr>sl_current := [], sl_in_flight := 0\<rparr>))\<lparr>sl_parked := True\<rparr>"
  have "set (sl_current ?slot) \<subseteq> currents (sy_server S)" using assms(1) by (auto simp: currents_nth)
  from answer_all_steps[OF this] obtain S1 where S1: "sstep\<^sup>*\<^sup>* S S1" "sy_server S1 = sy_server S"
    "ik_responders (sy_intake S1) = outcome_state (answer_all (il_headers L) (il_oneshot L) (il_frames L)
       (sl_current ?slot) (ik_responders (sy_intake S)))" by blast
  show ?thesis
  proof (cases "answer_all (il_headers L) (il_oneshot L) (il_frames L) (sl_current ?slot) (ik_responders (sy_intake S))")
    case (Blocked rs')
    moreover have "on_slot w (\<lambda>_. ?slot) (sy_server S) = sy_server S" by (rule on_slot_id) simp
    ultimately show ?thesis using S1 by (intro exI[of _ S1]) (auto simp: abort_slot_def)
  next
    case (Returns rs')
    define S2 where "S2 = put_sys (on_slot w ?close (sy_server S)) (sy_held S1) S1"
    have fr: "is_frame (sy_server S1) (on_slot w ?close (sy_server S))"
      unfolding S1(2) by (rule frame_close[OF assms(2)])
    have S2: "sstep\<^sup>*\<^sup>* S S2" using S1(1) sy_frame[OF fr, of L] unfolding S2_def by (rule rtranclp.rtrancl_into_rtrancl)
    have rs: "ik_responders (sy_intake S2) = rs'" using S1(3) Returns by (simp add: S2_def)
    have slot: "sv_slots (sy_server S2) ! w = ?close ?slot" "w < length (sv_slots (sy_server S2))"
      using assms(1) by (simp_all add: S2_def)
    show ?thesis
    proof (cases "sl_lane (?close ?slot)")
      case None
      with Returns S2 rs show ?thesis
        by (intro exI[of _ S2]) (simp add: abort_slot_def Let_def S2_def on_slot_def)
    next
      case (Some rx)
      from drain_lane_steps[OF slot(2), of rx "ch_len ?F rx"] Some slot(1) obtain S' rx' where S': "sstep\<^sup>*\<^sup>* S2 S'"
        "outcome_state (drain_lane (ch_len ?F rx) (il_headers L) (il_oneshot L) (il_frames L) ?F (rx, rs')) = (rx', ik_responders (sy_intake S'))"
        "sy_server S' = on_slot w (\<lambda>s. s\<lparr>sl_lane := Some rx'\<rparr>) (sy_server S2)"
        unfolding rs by auto
      have "outcome_state (abort_slot (il_headers L) (il_oneshot L) (il_frames L) ?F (?slot, ik_responders (sy_intake S)))
          = ((?close ?slot)\<lparr>sl_lane := Some rx'\<rparr>, ik_responders (sy_intake S'))"
        using Returns Some S'(2) by (auto simp: abort_slot_def Let_def split: outcome.splits prod.splits)
      moreover have "sy_server S' = on_slot w (\<lambda>_. (?close ?slot)\<lparr>sl_lane := Some rx'\<rparr>) (sy_server S)"
        using S'(3) assms(1) by (simp add: S2_def on_slot_def)
      ultimately show ?thesis using S2 S'(1) by (intro exI[of _ S']) auto
    qed
  qed
qed

lemma abort_slots_steps:
  assumes "sv_slots (sy_server S) = pre @ slots" "sinv S"
  shows "\<exists>S' slots' rs'. sstep\<^sup>*\<^sup>* S S'
    \<and> outcome_state (abort_slots (il_headers L) (il_oneshot L) (il_frames L) (il_queue L)
        (slots, ik_responders (sy_intake S))) = (slots', rs')
    \<and> sy_server S' = (sy_server S)\<lparr>sv_slots := pre @ slots'\<rparr> \<and> ik_responders (sy_intake S') = rs'"
  using assms
proof (induction slots arbitrary: pre S)
  case Nil
  then show ?case by (intro exI[of _ S]) auto
next
  case (Cons slot slots)
  let ?abort = "abort_slot (il_headers L) (il_oneshot L) (il_frames L) (il_queue L) (slot, ik_responders (sy_intake S))"
  have w: "length pre < length (sv_slots (sy_server S))" "sv_slots (sy_server S) ! length pre = slot"
    using Cons.prems(1) by simp_all
  have "rq.wf (sy_server S)" using Cons.prems(2) by (simp add: system_inv_def)
  from abort_slot_steps[OF w(1) this] w(2) obtain S1 slot' where S1: "sstep\<^sup>*\<^sup>* S S1"
    "outcome_state ?abort = (slot', ik_responders (sy_intake S1))"
    "sy_server S1 = on_slot (length pre) (\<lambda>_. slot') (sy_server S)" by auto
  have sv1: "sy_server S1 = (sy_server S)\<lparr>sv_slots := (pre @ [slot']) @ slots\<rparr>"
    using S1(3) Cons.prems(1) by (simp add: on_slot_def)
  show ?case
  proof (cases ?abort)
    case (Blocked x)
    with S1 sv1 show ?thesis by (cases x) (auto intro!: exI[of _ S1])
  next
    case (Returns x)
    have "sinv S1" using sys.steps_Inv[OF S1(1) Cons.prems(2)] .
    from Cons.IH[OF _ this, of "pre @ [slot']"] sv1 obtain S' slots' where S': "sstep\<^sup>*\<^sup>* S1 S'"
      "outcome_state (abort_slots (il_headers L) (il_oneshot L) (il_frames L) (il_queue L)
        (slots, ik_responders (sy_intake S1))) = (slots', ik_responders (sy_intake S'))"
      "sy_server S' = (sy_server S1)\<lparr>sv_slots := (pre @ [slot']) @ slots'\<rparr>" by auto
    have "sstep\<^sup>*\<^sup>* S S'" using S1(1) S'(1) by simp
    moreover have "outcome_state (abort_slots (il_headers L) (il_oneshot L) (il_frames L) (il_queue L)
        (slot # slots, ik_responders (sy_intake S))) = (slot' # slots', ik_responders (sy_intake S'))"
      using Returns S1(2) S'(2) by (auto split: outcome.splits)
    ultimately show ?thesis using S'(3) sv1 by (intro exI[of _ S']) simp
  qed
qed

lemma sees_slots:
  "sees i S W \<Longrightarrow> sy_server S' = (sy_server S)\<lparr>sv_slots := fst st\<rparr> \<Longrightarrow> ik_responders (sy_intake S') = snd st
    \<Longrightarrow> sees i S' (put_slots (sy_server S) W st)"
  by (simp add: sees_def put_slots_def)

lemma abort_steps:
  assumes "sinv S" "sees i S W" "same_libs L N" "op = AbortInflight w \<or> op = AbortAllInflight"
  shows "\<exists>S'. sstep\<^sup>*\<^sup>* S S' \<and> sees i S' (fst (outcome_state (run_native N now op i W)))"
proof -
  have W: "try_get i (wd_registry W) = Some (sy_server S)" "wd_responders W = ik_responders (sy_intake S)"
    using assms(2) by (simp_all add: sees_def)
  have wf: "rq.wf (sy_server S)" using assms(1) by (simp add: system_inv_def)
  note libs = assms(3)[unfolded same_libs_def]
  from assms(4) show ?thesis
  proof
    assume op: "op = AbortAllInflight"
    from abort_slots_steps[of S "[]", OF _ assms(1)] obtain S' slots' rs' where S': "sstep\<^sup>*\<^sup>* S S'"
      "outcome_state (abort_slots (il_headers L) (il_oneshot L) (il_frames L) (il_queue L)
        (sv_slots (sy_server S), ik_responders (sy_intake S))) = (slots', rs')"
      "sy_server S' = (sy_server S)\<lparr>sv_slots := slots'\<rparr>" "ik_responders (sy_intake S') = rs'" by auto
    then have "sees i S' (put_slots (sy_server S) W (slots', rs'))" by (intro sees_slots[OF assms(2)]) simp_all
    with op W libs S'(1,2) show ?thesis
      by (intro exI[of _ S']) (auto simp: abort_all_inflight_def split: outcome.splits)
  next
    assume op: "op = AbortInflight w"
    show ?thesis
    proof (cases "w < length (sv_slots (sy_server S))")
      case False
      with op W assms(2) show ?thesis by (intro exI[of _ S]) (simp add: abort_inflight_def slot_ref_def)
    next
      case True
      from abort_slot_steps[OF True wf] obtain S' slot' rs' where S': "sstep\<^sup>*\<^sup>* S S'"
        "outcome_state (abort_slot (il_headers L) (il_oneshot L) (il_frames L) (il_queue L)
          (sv_slots (sy_server S) ! w, ik_responders (sy_intake S))) = (slot', rs')"
        "sy_server S' = on_slot w (\<lambda>_. slot') (sy_server S)" "ik_responders (sy_intake S') = rs'" by auto
      then have "sees i S' (put_slots (sy_server S) W ((sv_slots (sy_server S))[w := slot'], rs'))"
        by (intro sees_slots[OF assms(2)]) (simp_all add: on_slot_def)
      with op W libs True S'(1,2) show ?thesis
        by (intro exI[of _ S']) (auto simp: abort_inflight_def slot_ref_def split: outcome.splits)
    qed
  qed
qed

lemma slot_native_steps:
  assumes "sinv S" "sees i S W" "\<And>s. sl_lane (f s) = sl_lane s" "\<And>s. sl_lane_tx (f s) = sl_lane_tx s"
    "\<And>s. set (sl_current (f s)) \<subseteq> set (sl_current s)"
  shows "\<exists>S'. sstep\<^sup>*\<^sup>* S S' \<and> sees i S' (fst (on_worker i w f W))"
proof (cases "w < length (sv_slots (sy_server S))")
  case True
  have "is_frame (sy_server S) (on_slot w f (sy_server S))"
    using assms(1) by (intro frame_slot assms(3-5)) (simp add: system_inv_def)
  from sees_frame[OF assms(2) this] assms(2) True show ?thesis
    by (simp add: sees_def on_worker_def slot_ref_def on_slot_def)
qed (use assms(2) in \<open>auto simp: sees_def on_worker_def slot_ref_def\<close>)

lemma server_native_steps:
  assumes "sees i S W" "is_frame (sy_server S) (f (sy_server S))" "sv_id (f (sy_server S)) = i"
  shows "\<exists>S'. sstep\<^sup>*\<^sup>* S S' \<and> sees i S' (on_server i f W)"
  using sees_frame[OF assms] assms(1) by (simp add: sees_def on_server_def)

lemma native_steps:
  assumes "sinv S" "sees i S W" "same_libs L N" "\<And>ms. op \<noteq> ShutdownRuntime ms"
    and "op = RegisterWorker \<Longrightarrow> length (sv_slots (sy_server S)) + 1 < 2 ^ 64"
  shows "\<exists>S'. sstep\<^sup>*\<^sup>* S S' \<and> sees i S' (fst (outcome_state (run_native N now op i W)))"
proof -
  have wf: "rq.wf (sy_server S)" using assms(1) by (simp add: system_inv_def)
  have id: "sv_id (sy_server S) = i" using assms(2) by (simp add: sees_def)
  have q: "nl_requests N = il_queue L" using assms(3) by (simp add: same_libs_def)
  show ?thesis
  proof (cases op)
    case RegisterWorker
    obtain sv n where r: "server_register_worker (il_queue L) (sy_server S) = (sv, n)" by fastforce
    with sees_frame[OF assms(2), of sv] frame_register[OF wf assms(5)[OF RegisterWorker]] assms(2) RegisterWorker q id
    show ?thesis
      by (auto simp: register_worker_def registry_get_def sees_def try_get_def server_register_worker_def Let_def)
  next
    case CloseQueue
    have "0 < senders (sv_req (sy_server S)) \<or> \<not> sv_req_tx (sy_server S)"
      using assms(1) by (auto simp: system_inv_def intake_inv_def Let_def)
    then show ?thesis unfolding CloseQueue run_native.simps outcome_state_simps fst_conv close_queue_def q
      by (intro server_native_steps[OF assms(2)] frame_close_queue[OF wf]) (simp_all add: id close_req_def Let_def)
  next
    case (AbortInflight w)
    with abort_steps[OF assms(1-3)] show ?thesis by blast
  next
    case AbortAllInflight
    with abort_steps[OF assms(1-3)] show ?thesis by blast
  next
    case InterruptAllWorkers
    have "wf_slot cap senders alive lanes (s\<lparr>sl_interrupted := True\<rparr>) = wf_slot cap senders alive lanes s" for s lanes
      by (cases "sl_lane s") (simp_all add: wf_slot_def)
    with wf have "is_frame (sy_server S) ((sy_server S)\<lparr>sv_slots := map (\<lambda>s. s\<lparr>sl_interrupted := True\<rparr>) (sv_slots (sy_server S))\<rparr>)"
      by (auto simp: frame_def leaves_intake_def waiting_def currents_def wf_slots_def list_all_iff lane_items_def comp_def)
    then show ?thesis unfolding InterruptAllWorkers run_native.simps outcome_state_simps fst_conv interrupt_all_workers_def
      by (intro server_native_steps[OF assms(2)]) (simp_all add: id)
  next
    case (ShutdownRuntime ms)
    with assms(4) show ?thesis by blast
  qed (use wf id assms(2) in \<open>auto simp: stop_accepting_def control_ready_def record_respawn_def set_active_workers_def
      record_scale_up_def record_scale_down_def record_quarantine_replacement_def quarantine_slot_def retire_slot_def
      reset_slot_def retire_def reset_def intro!: server_native_steps frame_counters slot_native_steps[OF assms(1)]\<close>)
qed

end

end
