(* ===== verification/Kino_Take.thy ===== *)
theory Kino_Take
  imports Kino_Queue
begin

text \<open>
  A worker's take (\<open>block_take\<close>, \<open>lane_take\<close>, \<open>after_timeout\<close> and the closure \<open>steal\<close> in
  \<open>queue.rs\<close>, around the loop of \<open>interruptible\<close> in \<open>gvl.rs\<close>) at the grain of its atomic
  actions: one receive attempt, one load or store of a flag. Between any two of them the
  rest of the process may act. Shown here: the blocking functions of \<open>Kino_Queue\<close> are runs of
  this machine, it is never stuck, and what it ends with has a reason on its way.
\<close>

section \<open>The actions of a take\<close>

text \<open>
  Where a take is: at its first attempt, in a sweep over the siblings' lanes (before parking
  or, the flag says, after a timeout), drawing the stamp, storing it, raising the parked
  flag, at the head of the loop, in the wait, behind a timeout, at the last receive of a
  retired worker, on the way out, and back in Ruby.
\<close>

datatype 'x take_pc =
  TkStart | TkSweep bool nat | TkDraw | TkStamp u64 | TkRaise | TkLoop | TkWait | TkTimeout | TkLast
  | TkLeave "kino_error + 'x taken" | TkDone "kino_error + 'x taken"

text \<open>\<open>lane\<close> is whether the slot has a lane, which never changes: a worker waits on its lane, or on the shared queue.\<close>

definition own_recv :: "('x, 'c) flume \<Rightarrow> nat \<Rightarrow> bool \<Rightarrow> 'c server_inner \<Rightarrow> 'c server_inner \<times> 'x recv_result" where
  "own_recv F w lane sv = (if lane then lane_recv F w sv else req_recv F sv)"

inductive take_step ::
  "('x, 'c) flume \<Rightarrow> nat \<Rightarrow> bool \<Rightarrow> 'x take_pc \<times> 'c server_inner \<Rightarrow> 'x take_pc \<times> 'c server_inner \<Rightarrow> bool"
  for F w lane where
  start_got: "own_recv F w lane sv = (sv', Received x) \<Longrightarrow> take_step F w lane (TkStart, sv) (TkDone (Inr (Some x)), sv')"
| start_cut: "own_recv F w lane sv = (sv', RecvDisconnected) \<Longrightarrow> take_step F w lane (TkStart, sv) (TkDone (Inr None), sv')"
| start_empty: "own_recv F w lane sv = (sv', RecvEmpty)
    \<Longrightarrow> take_step F w lane (TkStart, sv) (if lane then TkSweep False 0 else TkLoop, sv')"
| sweep_skip: "i < length (sv_slots sv) \<Longrightarrow> i = w \<or> sl_lane (sv_slots sv ! i) = None
    \<Longrightarrow> take_step F w lane (TkSweep b i, sv) (TkSweep b (Suc i), sv)"
| sweep_got: "i < length (sv_slots sv) \<Longrightarrow> i \<noteq> w \<Longrightarrow> lane_recv F i sv = (sv', Received x)
    \<Longrightarrow> take_step F w lane (TkSweep b i, sv) ((if b then TkLeave else TkDone) (Inr (Some x)), sv')"
| sweep_miss: "i < length (sv_slots sv) \<Longrightarrow> i \<noteq> w \<Longrightarrow> sl_lane (sv_slots sv ! i) \<noteq> None
    \<Longrightarrow> lane_recv F i sv = (sv', r) \<Longrightarrow> \<forall>x. r \<noteq> Received x
    \<Longrightarrow> take_step F w lane (TkSweep b i, sv) (TkSweep b (Suc i), sv')"
| sweep_end: "length (sv_slots sv) \<le> i \<Longrightarrow> take_step F w lane (TkSweep b i, sv) (if b then TkLoop else TkDraw, sv)"
| draw: "take_step F w lane (TkDraw, sv) (TkStamp (sv_park_seq sv + 1), sv\<lparr>sv_park_seq := sv_park_seq sv + 1\<rparr>)"
| stamp: "take_step F w lane (TkStamp seq, sv) (TkRaise, on_slot w (\<lambda>s. s\<lparr>sl_parked_at := seq\<rparr>) sv)"
| raise_flag: "take_step F w lane (TkRaise, sv) (TkLoop, on_slot w (\<lambda>s. s\<lparr>sl_parked := True\<rparr>) sv)"
| loop_interrupted: "slot_interrupted w sv \<Longrightarrow> take_step F w lane (TkLoop, sv) (TkLeave (Inr None), sv)"
| loop_attempt: "\<not> slot_interrupted w sv \<Longrightarrow> take_step F w lane (TkLoop, sv) (TkWait, sv)"
| wait_got: "own_recv F w lane sv = (sv', Received x) \<Longrightarrow> take_step F w lane (TkWait, sv) (TkLeave (Inr (Some x)), sv')"
| wait_cut: "own_recv F w lane sv = (sv', RecvDisconnected) \<Longrightarrow> take_step F w lane (TkWait, sv) (TkLeave (Inr None), sv')"
| wait_empty: "own_recv F w lane sv = (sv', RecvEmpty) \<Longrightarrow> pc \<in> {TkWait, TkTimeout} \<Longrightarrow> take_step F w lane (TkWait, sv) (pc, sv')"
| timeout_stay: "\<not> sl_retired (sv_slots sv ! w)
    \<Longrightarrow> take_step F w lane (TkTimeout, sv) (if lane then TkSweep True 0 else TkLoop, sv)"
| timeout_retired: "sl_retired (sv_slots sv ! w) \<Longrightarrow> take_step F w lane (TkTimeout, sv) (TkLast, sv)"
| last_got: "lane_recv F w sv = (sv', Received x) \<Longrightarrow> take_step F w lane (TkLast, sv) (TkLeave (Inr (Some x)), sv')"
| last_none: "lane_recv F w sv = (sv', r) \<Longrightarrow> \<forall>x. r \<noteq> Received x \<Longrightarrow> take_step F w lane (TkLast, sv) (TkLeave (Inr None), sv')"
| panicked: "pc \<in> {TkWait, TkTimeout, TkLast} \<union> range (TkSweep True)
    \<Longrightarrow> take_step F w lane (pc, sv) (TkLeave (Inl (panic_error msg)), sv)"
| leave: "take_step F w lane (TkLeave r, sv) (TkDone r, if lane then unpark w sv else sv)"

inductive_cases take_stepE: "take_step F w lane (pc, sv) (pc', sv')"

text \<open>A take among moves \<open>E\<close> of the rest of the process.\<close>

inductive take_run ::
  "('c server_inner \<Rightarrow> 'c server_inner \<Rightarrow> bool) \<Rightarrow> ('x, 'c) flume \<Rightarrow> nat \<Rightarrow> bool
     \<Rightarrow> 'x take_pc \<times> 'c server_inner \<Rightarrow> 'x take_pc \<times> 'c server_inner \<Rightarrow> bool"
  for E F w lane where
  run_act: "take_step F w lane st st' \<Longrightarrow> take_run E F w lane st st'"
| run_others: "E sv sv' \<Longrightarrow> take_run E F w lane (pc, sv) (pc, sv')"

section \<open>The blocking functions are runs of the machine\<close>

abbreviation take_runs where
  "take_runs E F w lane \<equiv> (take_run E F w lane)\<^sup>*\<^sup>*"

lemma runs_own [intro]: "take_step F w lane st st' \<Longrightarrow> take_runs E F w lane st' st'' \<Longrightarrow> take_runs E F w lane st st''"
  by (auto intro: converse_rtranclp_into_rtranclp run_act)

lemma runs_others: "E\<^sup>*\<^sup>* sv sv' \<Longrightarrow> take_runs E F w lane (pc, sv) (pc, sv')"
  by (induction rule: rtranclp_induct) (auto intro: rtranclp.rtrancl_into_rtrancl run_others)

text \<open>Where a sweep ends, and a wait.\<close>

definition swept :: "bool \<Rightarrow> 'x option \<Rightarrow> 'x take_pc" where
  "swept b r = (case r of Some x \<Rightarrow> (if b then TkLeave else TkDone) (Inr (Some x)) | None \<Rightarrow> if b then TkLoop else TkDraw)"

definition waited :: "'x taken attempt \<Rightarrow> 'x take_pc" where
  "waited t = (case t of Done r \<Rightarrow> TkLeave (Inr r) | Panicked m \<Rightarrow> TkLeave (Inl (panic_error m)) | Tick \<Rightarrow> TkLoop)"

lemma steal_from_runs:
  "steal_from F w [i..<n] sv = (sv', r) \<Longrightarrow> n = length (sv_slots sv) \<Longrightarrow> i \<le> n
    \<Longrightarrow> take_runs E F w lane (TkSweep b i, sv) (swept b r, sv')"
proof (induction "n - i" arbitrary: i sv)
  case 0
  then show ?case using sweep_end[of sv i F w lane b] by (auto simp: swept_def)
next
  case (Suc k)
  then have i: "i < length (sv_slots sv)" "[i..<n] = i # [Suc i..<n]" "k = n - Suc i" by (auto simp: upt_rec)
  show ?case
  proof (cases "i = w \<or> sl_lane (sv_slots sv ! i) = None")
    case True
    with Suc.prems i have "steal_from F w [Suc i..<n] sv = (sv', r)" by simp
    with Suc.hyps(1)[OF i(3)] Suc.prems(2) i show ?thesis by (intro runs_own[OF sweep_skip[OF i(1) True]]) auto
  next
    case False
    obtain sv1 q where q: "lane_recv F i sv = (sv1, q)" by force
    show ?thesis
    proof (cases "\<exists>x. q = Received x")
      case True
      then obtain x where x: "q = Received x" by blast
      with q False Suc.prems i have "sv' = sv1" "r = Some x" by auto
      with sweep_got[OF i(1), of w F sv1 x lane b] q x False show ?thesis by (auto simp: swept_def)
    next
      case miss: False
      then have "steal_from F w [Suc i..<n] sv1 = (sv', r)" using q False Suc.prems(1) i(2) by (cases q) auto
      moreover have "n = length (sv_slots sv1)" using recv_lengths(1)[OF q] Suc.prems(2) by simp
      ultimately have "take_runs E F w lane (TkSweep b (Suc i), sv1) (swept b r, sv')"
        using Suc.hyps(1)[OF i(3)] Suc.prems(2) i(1) by simp
      with sweep_miss[OF i(1) _ _ q, of w lane b] False miss show ?thesis by blast
    qed
  qed
qed

lemma steal_runs: "steal F w sv = (sv', r) \<Longrightarrow> take_runs E F w lane (TkSweep b 0, sv) (swept b r, sv')"
  unfolding steal_def by (rule steal_from_runs) auto

lemma after_timeout_runs:
  "after_timeout F w sv = (sv', u)
    \<Longrightarrow> take_runs E F w lane (TkTimeout, sv)
          (case u of Some t \<Rightarrow> TkLeave (Inr t) | None \<Rightarrow> if lane then TkSweep True 0 else TkLoop, sv')"
proof (cases "sl_retired (sv_slots sv ! w)")
  case True
  assume a: "after_timeout F w sv = (sv', u)"
  obtain sv1 q where q: "lane_recv F w sv = (sv1, q)" by force
  have "take_step F w lane (TkLast, sv) (case u of Some t \<Rightarrow> TkLeave (Inr t) | None \<Rightarrow> if lane then TkSweep True 0 else TkLoop, sv')"
    using True a q
    by (cases q) (auto simp: after_timeout_def intro: last_got last_none)
  with timeout_retired[OF True] show ?thesis by blast
next
  case False
  assume "after_timeout F w sv = (sv', u)"
  with False timeout_stay[OF False, of F lane] show ?thesis by (auto simp: after_timeout_def)
qed

lemma recv_timeout_runs:
  assumes "recv_timeout (own_recv F w lane) f sv = (sv', r)" "\<And>s. E\<^sup>*\<^sup>* s (f s)"
  shows "take_runs E F w lane (TkWait, sv)
    (case r of Received x \<Rightarrow> TkLeave (Inr (Some x)) | RecvDisconnected \<Rightarrow> TkLeave (Inr None) | RecvEmpty \<Rightarrow> TkTimeout, sv')"
proof -
  have last: "take_runs E F w lane (TkWait, s)
      (case q of Received x \<Rightarrow> TkLeave (Inr (Some x)) | RecvDisconnected \<Rightarrow> TkLeave (Inr None) | RecvEmpty \<Rightarrow> TkTimeout, s')"
    if "own_recv F w lane s = (s', q)" for s s' q
    using that by (cases q) (auto intro!: r_into_rtranclp run_act intro: take_step.intros)
  obtain sv1 q where q: "own_recv F w lane sv = (sv1, q)" by force
  show ?thesis
  proof (cases "q = RecvEmpty")
    case True
    then have "take_step F w lane (TkWait, sv) (TkWait, sv1)" using q by (auto intro: wait_empty)
    moreover have "take_runs E F w lane (TkWait, sv1) (TkWait, f sv1)" by (rule runs_others[OF assms(2)])
    moreover have "own_recv F w lane (f sv1) = (sv', r)" using assms(1) q True by (simp add: recv_timeout_def)
    ultimately show ?thesis using last by (meson runs_own rtranclp_trans)
  next
    case False
    with assms(1) q have "sv1 = sv'" "q = r" by (auto simp: recv_timeout_def split: recv_result.splits)
    with last[OF q] show ?thesis by simp
  qed
qed


lemma attempt_runs:
  assumes "\<And>s. E\<^sup>*\<^sup>* s (wait k s)"
  shows "lane_attempt F panics wait w k sv = (sv', t) \<Longrightarrow> take_runs E F w True (TkWait, sv) (waited t, sv')"
    and "queue_attempt F panics wait w k sv = (sv', t) \<Longrightarrow> take_runs E F w False (TkWait, sv) (waited t, sv')"
proof -
  have recvs: "lane_recv F w = own_recv F w True" "req_recv F = own_recv F w False"
    by (simp_all add: fun_eq_iff own_recv_def)
  note wait = recv_timeout_runs[where f = "wait k" and E = E and F = F and w = w, OF _ assms]
  have panic: "take_runs E F w lane (TkWait, sv) (TkLeave (Inl (panic_error m)), sv)" for lane m
    by (auto intro!: r_into_rtranclp run_act panicked)
  show "take_runs E F w True (TkWait, sv) (waited t, sv')" if a: "lane_attempt F panics wait w k sv = (sv', t)"
  proof (cases "panics k")
    case None
    obtain sv1 r where r: "recv_timeout (own_recv F w True) (wait k) sv = (sv1, r)" by force
    obtain sv2 u where u: "after_timeout F w sv1 = (sv2, u)" by force
    obtain sv3 v where v: "steal F w sv2 = (sv3, v)" by force
    note runs = wait[OF r] after_timeout_runs[OF u, of E True] steal_runs[OF v, of E True True]
    show ?thesis
      using a None r u v runs unfolding lane_attempt_def recvs(1)
      by (cases r; cases u; cases v) (auto simp: waited_def swept_def)
  qed (use a panic in \<open>auto simp: lane_attempt_def waited_def\<close>)
  show "take_runs E F w False (TkWait, sv) (waited t, sv')" if a: "queue_attempt F panics wait w k sv = (sv', t)"
  proof (cases "panics k")
    case None
    obtain sv1 r where r: "recv_timeout (own_recv F w False) (wait k) sv = (sv1, r)" by force
    obtain sv2 u where u: "after_timeout F w sv1 = (sv2, u)" by force
    show ?thesis
      using a None r u wait[OF r] after_timeout_runs[OF u, of E False] unfolding queue_attempt_def recvs(2)
      by (cases r; cases u) (auto simp: waited_def)
  qed (use a panic in \<open>auto simp: queue_attempt_def waited_def\<close>)
qed

lemma interruptible_runs:
  assumes "\<And>k s. E\<^sup>*\<^sup>* s (env k s)"
    and "\<And>k s s' t. attempt k s = (s', t) \<Longrightarrow> take_runs E F w lane (TkWait, s) (waited t, s')"
  shows "interruptible n env (slot_interrupted w) attempt k sv = Some (sv', r)
    \<Longrightarrow> take_runs E F w lane (TkLoop, sv) (TkLeave (flatten_taken r), sv')"
proof (induction n arbitrary: k sv)
  case (Suc n)
  let ?s = "env k sv"
  have env: "take_runs E F w lane (TkLoop, sv) (TkLoop, ?s)" by (rule runs_others[OF assms(1)])
  show ?case
  proof (cases "slot_interrupted w ?s")
    case True
    with Suc.prems have "sv' = ?s" "r = Inr None" by auto
    with loop_interrupted[OF True, of F lane] env show ?thesis
      by (auto simp: flatten_taken_def intro: rtranclp.rtrancl_into_rtrancl run_act)
  next
    case False
    obtain s1 t where a: "attempt k ?s = (s1, t)" by force
    have "take_runs E F w lane (TkLoop, ?s) (waited t, s1)"
      by (rule runs_own[OF loop_attempt[OF False] assms(2)[OF a]])
    with env have runs: "take_runs E F w lane (TkLoop, sv) (waited t, s1)" by simp
    show ?thesis
      using Suc.prems Suc.IH[of "Suc k" s1] False a runs
      by (cases t) (auto simp: waited_def flatten_taken_def)
  qed
qed simp

lemma park_runs: "take_runs E F w lane (TkDraw, sv) (TkLoop, park w sv)"
proof -
  let ?sv = "sv\<lparr>sv_park_seq := sv_park_seq sv + 1\<rparr>"
  let ?sv' = "on_slot w (\<lambda>s. s\<lparr>sl_parked_at := sv_park_seq sv + 1\<rparr>) ?sv"
  have "on_slot w (\<lambda>s. s\<lparr>sl_parked := True\<rparr>) ?sv' = park w sv"
    by (cases "w < length (sv_slots sv)") (simp_all add: park_def on_slot_def Let_def list_update_beyond)
  moreover have "take_runs E F w lane (TkDraw, sv) (TkLoop, on_slot w (\<lambda>s. s\<lparr>sl_parked := True\<rparr>) ?sv')"
    by (rule runs_own[OF draw runs_own[OF stamp runs_own[OF raise_flag]]]) simp
  ultimately show ?thesis by simp
qed

text \<open>
  Whatever the others do before the checks and during the waits of a blocking take, if it
  consists of moves in \<open>E\<close> the call is a run of the machine among such moves.
\<close>

theorem block_take_runs:
  assumes "block_take n env wait panics F w sv = Some (sv', r)"
    and "\<And>k s. E\<^sup>*\<^sup>* s (env k s)" "\<And>k s. E\<^sup>*\<^sup>* s (wait k s)"
  shows "take_runs E F w (sl_lane (sv_slots sv ! w) \<noteq> None) (TkStart, sv) (TkDone r, sv')"
proof (cases "sl_lane (sv_slots sv ! w) \<noteq> None")
  case True
  obtain sv1 q where q: "own_recv F w True sv = (sv1, q)" by force
  have recv: "lane_recv F w sv = (sv1, q)" using q by (simp add: own_recv_def)
  show ?thesis
  proof (cases q)
    case RecvEmpty
    obtain sv2 v where v: "steal F w sv1 = (sv2, v)" by force
    have sweep: "take_runs E F w True (TkStart, sv) (swept False v, sv2)"
      using runs_own[OF start_empty[of F w True sv sv1], where E = E] steal_runs[OF v] q RecvEmpty by simp
    show ?thesis
    proof (cases v)
      case None
      with assms(1) True recv RecvEmpty v obtain sv3 q3 where
        i: "interruptible n env (slot_interrupted w) (lane_attempt F panics wait w) 0 (park w sv2) = Some (sv3, q3)"
        and r: "sv' = unpark w sv3" "r = flatten_taken q3"
        by (auto simp: block_take_def lane_take_def)
      have "take_runs E F w True (TkStart, sv) (TkDraw, sv2)" using sweep None by (simp add: swept_def)
      also have "take_runs E F w True (TkDraw, sv2) (TkLoop, park w sv2)" by (rule park_runs)
      also have "take_runs E F w True (TkLoop, park w sv2) (TkLeave r, sv3)"
        unfolding r(2) by (rule interruptible_runs[OF assms(2) _ i]) (rule attempt_runs(1)[OF assms(3)])
      also have "take_run E F w True (TkLeave r, sv3) (TkDone r, sv')"
        using run_act[OF leave[of F w True r sv3]] r(1) by simp
      finally show ?thesis using True by simp
    qed (use assms(1) True recv RecvEmpty v sweep in \<open>auto simp: block_take_def lane_take_def swept_def\<close>)
  qed (use assms(1) True q recv in \<open>auto simp: block_take_def lane_take_def intro!: r_into_rtranclp run_act intro: take_step.intros\<close>)
next
  case False
  obtain sv1 q where q: "own_recv F w False sv = (sv1, q)" by force
  have recv: "req_recv F sv = (sv1, q)" using q by (simp add: own_recv_def)
  show ?thesis
  proof (cases q)
    case RecvEmpty
    with assms(1) False recv obtain q3 where
      i: "interruptible n env (slot_interrupted w) (queue_attempt F panics wait w) 0 sv1 = Some (sv', q3)"
      and r: "r = flatten_taken q3"
      by (auto simp: block_take_def)
    have "take_run E F w False (TkStart, sv) (TkLoop, sv1)"
      using run_act[OF start_empty[of F w False sv sv1]] q RecvEmpty by simp
    also have "take_runs E F w False (TkLoop, sv1) (TkLeave r, sv')"
      unfolding r by (rule interruptible_runs[OF assms(2) _ i]) (rule attempt_runs(2)[OF assms(3)])
    also have "take_run E F w False (TkLeave r, sv') (TkDone r, sv')" using run_act[OF leave[of F w False r sv']] by simp
    finally show ?thesis using False by (auto dest: tranclp_into_rtranclp)
  qed (use assms(1) False q recv in \<open>auto simp: block_take_def intro!: r_into_rtranclp run_act intro: take_step.intros\<close>)
qed

section \<open>Why a take ends\<close>

text \<open>A state was passed on the way from \<open>st\<close> to \<open>st'\<close>.\<close>

definition passed ::
  "('c server_inner \<Rightarrow> 'c server_inner \<Rightarrow> bool) \<Rightarrow> ('x, 'c) flume \<Rightarrow> nat \<Rightarrow> bool
     \<Rightarrow> 'x take_pc \<times> 'c server_inner \<Rightarrow> ('c server_inner \<Rightarrow> bool) \<Rightarrow> 'x take_pc \<times> 'c server_inner \<Rightarrow> bool" where
  "passed E F w lane st Q st' \<longleftrightarrow>
     (\<exists>pc sv. take_runs E F w lane st (pc, sv) \<and> Q sv \<and> take_runs E F w lane (pc, sv) st')"

definition own_chan :: "nat \<Rightarrow> bool \<Rightarrow> 'c server_inner \<Rightarrow> 'c option" where
  "own_chan w lane sv = (if lane then sl_lane (sv_slots sv ! w) else Some (sv_req sv))"

definition first_in :: "('c \<Rightarrow> 'x list) \<Rightarrow> 'x \<Rightarrow> 'c option \<Rightarrow> bool" where
  "first_in items x q \<longleftrightarrow> (\<exists>c xs. q = Some c \<and> items c = x # xs)"

definition none_in :: "('c \<Rightarrow> 'x list) \<Rightarrow> 'c option \<Rightarrow> bool" where
  "none_in items q \<longleftrightarrow> (\<forall>c. q = Some c \<longrightarrow> items c = [])"

text \<open>
  The reason for a result: the request was the first of the worker's own queue or lane, or
  of a sibling's lane after the own queue was found empty; the worker was interrupted, or its
  queue empty and without senders, or it was retired and its lane then empty; or a panic.
\<close>

definition ends_for ::
  "('c server_inner \<Rightarrow> 'c server_inner \<Rightarrow> bool) \<Rightarrow> ('x, 'c) flume \<Rightarrow> ('c \<Rightarrow> 'x list) \<Rightarrow> ('c \<Rightarrow> nat) \<Rightarrow> nat \<Rightarrow> bool
     \<Rightarrow> 'x take_pc \<times> 'c server_inner \<Rightarrow> 'x take_pc \<times> 'c server_inner \<Rightarrow> kino_error + 'x taken \<Rightarrow> bool" where
  "ends_for E F items senders w lane st st' r =
     (let seen = (\<lambda>Q. passed E F w lane st Q st') in
      case r of
        Inr (Some x) \<Rightarrow>
          seen (\<lambda>sv. first_in items x (own_chan w lane sv)) \<or> seen (\<lambda>sv. first_in items x (sl_lane (sv_slots sv ! w)))
          \<or> seen (\<lambda>sv. none_in items (own_chan w lane sv))
            \<and> seen (\<lambda>sv. \<exists>i < length (sv_slots sv). i \<noteq> w \<and> first_in items x (sl_lane (sv_slots sv ! i)))
      | Inr None \<Rightarrow>
          seen (slot_interrupted w)
          \<or> seen (\<lambda>sv. none_in items (own_chan w lane sv) \<and> (\<forall>c. own_chan w lane sv = Some c \<longrightarrow> senders c = 0))
          \<or> seen (\<lambda>sv. sl_retired (sv_slots sv ! w)) \<and> seen (\<lambda>sv. none_in items (sl_lane (sv_slots sv ! w)))
      | Inl e \<Rightarrow> \<exists>m. e = panic_error m)"

lemma passed_on: "passed E F w lane st Q st' \<Longrightarrow> take_run E F w lane st' st'' \<Longrightarrow> passed E F w lane st Q st''"
  unfolding passed_def by (meson rtranclp.rtrancl_into_rtrancl)

lemma passed_here:
  "take_runs E F w lane st st' \<Longrightarrow> take_run E F w lane st' st'' \<Longrightarrow> Q (snd st') \<Longrightarrow> passed E F w lane st Q st''"
  unfolding passed_def by (cases st') (auto intro: exI[of _ "fst st'"] exI[of _ "snd st'"])

lemma ends_for_on:
  assumes "ends_for E F items senders w lane st st' r" "take_run E F w lane st' st''"
  shows "ends_for E F items senders w lane st st'' r"
  using assms(1) unfolding ends_for_def Let_def
  by (auto split: sum.splits option.splits intro: passed_on[OF _ assms(2)])

context flume_channel
begin

lemma lane_recv_sees:
  assumes "lane_recv F i sv = (sv', r)"
  shows "case r of Received x \<Rightarrow> first_in items x (sl_lane (sv_slots sv ! i))
    | RecvEmpty \<Rightarrow> none_in items (sl_lane (sv_slots sv ! i))
    | RecvDisconnected \<Rightarrow> none_in items (sl_lane (sv_slots sv ! i)) \<and> (\<forall>c. sl_lane (sv_slots sv ! i) = Some c \<longrightarrow> senders c = 0)"
proof (cases "sl_lane (sv_slots sv ! i)")
  case (Some c)
  with assms show ?thesis
    by (cases rule: recv_cases[of c]) (auto simp: lane_recv_def first_in_def none_in_def)
qed (use assms in \<open>auto simp: lane_recv_def none_in_def\<close>)

lemma own_recv_sees:
  assumes "own_recv F w lane sv = (sv', r)"
  shows "case r of Received x \<Rightarrow> first_in items x (own_chan w lane sv)
    | RecvEmpty \<Rightarrow> none_in items (own_chan w lane sv)
    | RecvDisconnected \<Rightarrow> none_in items (own_chan w lane sv) \<and> (\<forall>c. own_chan w lane sv = Some c \<longrightarrow> senders c = 0)"
proof (cases lane)
  case True
  with lane_recv_sees[of w sv sv' r] assms show ?thesis by (cases r) (simp_all add: own_recv_def own_chan_def)
next
  case False
  with assms show ?thesis
    by (cases rule: recv_cases[of "sv_req sv"]) (auto simp: own_recv_def req_recv_def own_chan_def first_in_def none_in_def)
qed

text \<open>What is known where a take is.\<close>

definition take_known ::
  "('c server_inner \<Rightarrow> 'c server_inner \<Rightarrow> bool) \<Rightarrow> nat \<Rightarrow> bool \<Rightarrow> 'a take_pc \<times> 'c server_inner
     \<Rightarrow> 'a take_pc \<times> 'c server_inner \<Rightarrow> bool" where
  "take_known E w lane st st' \<longleftrightarrow>
     (case fst st' of
        TkSweep b i \<Rightarrow> passed E F w lane st (\<lambda>sv. none_in items (own_chan w lane sv)) st'
      | TkTimeout \<Rightarrow> passed E F w lane st (\<lambda>sv. none_in items (own_chan w lane sv)) st'
      | TkLast \<Rightarrow> passed E F w lane st (\<lambda>sv. sl_retired (sv_slots sv ! w)) st'
      | TkLeave r \<Rightarrow> ends_for E F items senders w lane st st' r
      | TkDone r \<Rightarrow> ends_for E F items senders w lane st st' r
      | _ \<Rightarrow> True)"

lemma take_known_act:
  assumes runs: "take_runs E F w lane (TkStart, sv) st" and act: "take_step F w lane st st'"
    and known: "take_known E w lane (TkStart, sv) st"
  shows "take_known E w lane (TkStart, sv) st'"
proof -
  have move: "take_run E F w lane st st'" using act by (rule run_act)
  note here = passed_here[OF runs move] and on = passed_on[OF _ move] and ends_on = ends_for_on[OF _ move]
  from act show ?thesis
  proof (cases rule: take_step.cases)
    case (start_got sv1 sv2 x)
    with own_recv_sees[OF start_got(3)] here show ?thesis by (simp add: take_known_def ends_for_def)
  next
    case (start_cut sv1 sv2)
    with own_recv_sees[OF start_cut(3)] here show ?thesis by (simp add: take_known_def ends_for_def)
  next
    case (start_empty sv1 sv2)
    with own_recv_sees[OF start_empty(3)] here show ?thesis by (cases lane) (simp_all add: take_known_def)
  next
    case (sweep_got i sv1 sv2 x b)
    have "passed E F w lane (TkStart, sv)
        (\<lambda>sv. \<exists>i < length (sv_slots sv). i \<noteq> w \<and> first_in items x (sl_lane (sv_slots sv ! i))) st'"
      by (rule here) (use lane_recv_sees[OF sweep_got(5)] sweep_got in auto)
    with sweep_got on known show ?thesis by (cases b) (simp_all add: take_known_def ends_for_def)
  next
    case (loop_interrupted sv1)
    with here show ?thesis by (simp add: take_known_def ends_for_def)
  next
    case (wait_got sv1 sv2 x)
    with own_recv_sees[OF wait_got(3)] here show ?thesis by (simp add: take_known_def ends_for_def)
  next
    case (wait_cut sv1 sv2)
    with own_recv_sees[OF wait_cut(3)] here show ?thesis by (simp add: take_known_def ends_for_def)
  next
    case (wait_empty sv1 sv2 pc)
    have "passed E F w lane (TkStart, sv) (\<lambda>sv. none_in items (own_chan w lane sv)) st'"
      by (rule here) (use own_recv_sees[OF wait_empty(3)] wait_empty(1) in simp)
    with wait_empty(2,4) show ?thesis by (cases "pc = TkWait") (simp_all add: take_known_def)
  next
    case (timeout_stay sv1)
    with on known show ?thesis by (cases lane) (simp_all add: take_known_def)
  next
    case (timeout_retired sv1)
    with here show ?thesis by (simp add: take_known_def)
  next
    case (last_got sv1 sv2 x)
    with lane_recv_sees[OF last_got(3)] here show ?thesis by (simp add: take_known_def ends_for_def)
  next
    case (last_none sv1 sv2 r)
    with lane_recv_sees[OF last_none(3)] here on known show ?thesis
      by (cases r) (simp_all add: take_known_def ends_for_def)
  next
    case (panicked pc sv1 msg)
    then show ?thesis by (auto simp: take_known_def ends_for_def)
  next
    case (leave r sv1)
    with ends_on known show ?thesis by (simp add: take_known_def)
  qed (use on known in \<open>simp_all add: take_known_def\<close>)
qed

lemma take_known_runs:
  "take_runs E F w lane (TkStart, sv) st \<Longrightarrow> take_known E w lane (TkStart, sv) st"
proof (induction rule: rtranclp_induct)
  case base
  then show ?case by (simp add: take_known_def)
next
  case (step st st')
  from step(2) show ?case
  proof (cases rule: take_run.cases)
    case (run_others sv1 sv2 pc)
    with step(3) passed_on[OF _ step(2)] ends_for_on[OF _ step(2)] show ?thesis
      by (cases pc) (simp_all add: take_known_def)
  next
    case run_act
    with step(1,3) show ?thesis by (blast intro: take_known_act)
  qed
qed

text \<open>A take is never stuck, and does not need a panic to go on.\<close>

lemma take_progress:
  assumes "\<And>r. pc \<noteq> TkDone r"
  shows "\<exists>pc' sv'. take_step F w lane (pc, sv) (pc', sv') \<and> (\<forall>e. pc' \<noteq> TkLeave (Inl e))"
proof -
  have go: ?thesis
    if "take_step F w lane (pc0, sv) (pc', sv')" "pc = pc0" "\<And>e. pc' \<noteq> TkLeave (Inl e)" for pc0 pc' sv'
    using that by blast
  obtain sv' q where q: "own_recv F w lane sv = (sv', q)" by force
  show ?thesis
  proof (cases pc)
    case TkStart
    with q show ?thesis
      using go[OF start_got] go[OF start_cut] go[OF start_empty] by (cases q; cases lane) simp_all
  next
    case (TkSweep b i)
    obtain sv1 r where r: "lane_recv F i sv = (sv1, r)" by force
    consider "length (sv_slots sv) \<le> i" | "i < length (sv_slots sv)" "i = w \<or> sl_lane (sv_slots sv ! i) = None"
      | x where "i < length (sv_slots sv)" "i \<noteq> w" "r = Received x"
      | "i < length (sv_slots sv)" "i \<noteq> w" "sl_lane (sv_slots sv ! i) \<noteq> None" "\<forall>x. r \<noteq> Received x"
      by fastforce
    then show ?thesis
    proof cases
      case 1
      from go[OF sweep_end[OF 1]] TkSweep show ?thesis by simp
    next
      case 2
      from go[OF sweep_skip[OF 2]] TkSweep show ?thesis by simp
    next
      case 3
      from go[OF sweep_got[OF 3(1,2)]] r 3 TkSweep show ?thesis by simp
    next
      case 4
      from go[OF sweep_miss[OF 4(1-3) r 4(4)]] TkSweep show ?thesis by simp
    qed
  next
    case TkLoop
    then show ?thesis
      using go[OF loop_interrupted] go[OF loop_attempt] by (cases "slot_interrupted w sv") simp_all
  next
    case TkWait
    with q show ?thesis
      using go[OF wait_got] go[OF wait_cut] go[OF wait_empty[where pc = TkTimeout]] by (cases q) simp_all
  next
    case TkTimeout
    then show ?thesis
      using go[OF timeout_stay] go[OF timeout_retired] by (cases "sl_retired (sv_slots sv ! w)"; cases lane) simp_all
  next
    case TkLast
    obtain sv1 r where r: "lane_recv F w sv = (sv1, r)" by force
    with TkLast show ?thesis
      using go[OF last_got] go[OF last_none] by (cases "\<exists>x. r = Received x") auto
  qed (use assms go[OF draw] go[OF stamp] go[OF raise_flag] go[OF leave] in auto)
qed

end

section \<open>Properties\<close>

text \<open>
  C9: however the actions of a take interleave with whatever the rest of the process does, the take is
  never stuck, and when it is back it ends for a reason that held on its way: the request
  it brings was the first of the worker's own queue, or of a sibling's lane once the own queue
  was found empty; with none, the worker was interrupted, or its queue was empty and cut
  off, or it was found retired and its lane then empty; or the attempt panicked.
\<close>

theorem take_ends_for_a_reason:
  assumes "flume_channel F items cap senders alive"
    and "take_runs E F w lane (TkStart, sv) (pc, sv')"
  shows "case pc of
      TkDone r \<Rightarrow> ends_for E F items senders w lane (TkStart, sv) (pc, sv') r
    | _ \<Rightarrow> \<exists>pc'' sv''. take_step F w lane (pc, sv') (pc'', sv'') \<and> (\<forall>e. pc'' \<noteq> TkLeave (Inl e))"
  using flume_channel.take_known_runs[OF assms] flume_channel.take_progress[OF assms(1), of pc w lane sv']
  by (cases pc) (simp_all add: flume_channel.take_known_def[OF assms(1)])

text \<open>Worker 0 of two finds its lane empty and takes its sibling's request.\<close>

theorem take_ends_for_a_reason_witness:
  "\<exists>sv'. take_runs (\<lambda>_ _. False) list_flume 0 True (TkStart, queue_example [([], False), ([7, 8], False)] [])
        (TkDone (Inr (Some 7)), sv')
    \<and> ends_for (\<lambda>_ _. False) list_flume lc_items lc_senders 0 True
        (TkStart, queue_example [([], False), ([7, 8], False)] []) (TkDone (Inr (Some 7)), sv') (Inr (Some 7))"
proof -
  let ?sv = "queue_example [([], False), ([7, 8], False)] []"
  obtain sv' where b: "block_take 1 (\<lambda>_ s. s) (\<lambda>_ s. s) (\<lambda>_. None) list_flume 0 ?sv = Some (sv', Inr (Some 7))"
    by (simp add: block_take_def lane_take_def lane_recv_def steal_def queue_example_simps list_flume_def on_slot_def upt_rec)
  have "sl_lane (sv_slots ?sv ! 0) \<noteq> None" by (simp add: queue_example_simps)
  with block_take_runs[OF b, of "\<lambda>_ _. False"]
  have run: "take_runs (\<lambda>_ _. False) list_flume 0 True (TkStart, ?sv) (TkDone (Inr (Some 7)), sv')" by simp
  from take_ends_for_a_reason[OF list_ch.flume_channel_axioms run] run show ?thesis by auto
qed

end
