(* ===== verification/Kino_System_Take.thy ===== *)
theory Kino_System_Take
  imports Kino_System_Steps Kino_Take
begin

text \<open>
  A worker's take (\<open>Kino_Take\<close>) among the steps of the composed system (\<open>Kino_System\<close>): each
  of its actions is a step of the system or none, so that what holds in the system's states
  holds in the middle of a take, and what a take has got is with its worker alone.
\<close>

section \<open>A take in the composed system\<close>

text \<open>The request a worker has got and not yet brought back to Ruby.\<close>

definition carried :: "'x take_pc \<Rightarrow> 'x list" where
  "carried pc = (case pc of TkLeave (Inr (Some x)) \<Rightarrow> [x] | TkDone (Inr (Some x)) \<Rightarrow> [x] | _ \<Rightarrow> [])"

text \<open>
  The actions of the take of one worker among the steps of the system. What a worker carries
  is in its own stack frame: the others do not touch it.
\<close>

inductive system_take ::
  "('h, 'b, 'c, 'o, 'f, 'l) intake_libs \<Rightarrow> ('c \<Rightarrow> ('h, 'b) request_ctx list) \<Rightarrow> ('c \<Rightarrow> nat) \<Rightarrow> ('c \<Rightarrow> nat)
     \<Rightarrow> ('c \<Rightarrow> bool) \<Rightarrow> nat \<Rightarrow> bool
     \<Rightarrow> ('h, 'b) request_ctx take_pc \<times> ('h, 'b, 'c, 'o, 'f, 'l) system
     \<Rightarrow> ('h, 'b) request_ctx take_pc \<times> ('h, 'b, 'c, 'o, 'f, 'l) system \<Rightarrow> bool"
  for L items cap senders alive w lane where
  take_worker: "w < length (sv_slots (sy_server S)) \<Longrightarrow> take_step (il_queue L) w lane (pc, sy_server S) (pc', sv)
    \<Longrightarrow> system_take L items cap senders alive w lane (pc, S)
          (pc', put_sys sv ((if carried pc = [] then carried pc' else []) @ sy_held S) S)"
| take_rest: "system_step L items cap senders alive S S' \<Longrightarrow> set (carried pc) \<subseteq> set (sy_held S')
    \<Longrightarrow> system_take L items cap senders alive w lane (pc, S) (pc, S')"

lemma carried_simps [simp]:
  "carried TkStart = []" "carried (TkSweep b i) = []" "carried TkDraw = []" "carried (TkStamp n) = []"
  "carried TkRaise = []" "carried TkLoop = []" "carried TkWait = []" "carried TkTimeout = []" "carried TkLast = []"
  "carried (TkLeave (Inl e)) = []" "carried (TkLeave (Inr None)) = []" "carried (TkLeave (Inr (Some x))) = [x]"
  "carried (TkDone (Inl e)) = []" "carried (TkDone (Inr None)) = []" "carried (TkDone (Inr (Some x))) = [x]"
  by (simp_all add: carried_def)

lemma carried_leave: "carried (TkDone r) = carried (TkLeave r)"
  by (simp add: carried_def)

lemma put_sys_same [simp]: "put_sys (sy_server S) (sy_held S) S = S"
  by (simp add: put_sys_def)

definition got :: "'x recv_result \<Rightarrow> 'x list" where
  "got r = (case r of Received x \<Rightarrow> [x] | _ \<Rightarrow> [])"

lemma got_simps [simp]: "got (Received x) = [x]" "got RecvEmpty = []" "got RecvDisconnected = []"
  by (simp_all add: got_def)

context intake_channels
begin

lemma lane_recv_steps:
  assumes "lane_recv (il_queue L) i (sy_server S) = (sv, r)" "i < length (sv_slots (sy_server S))"
  shows "sstep\<^sup>*\<^sup>* S (put_sys sv (got r @ sy_held S) S)"
proof (cases "\<exists>x. r = Received x")
  case True
  with sy_take_lane[OF assms(2)] assms(1) show ?thesis by auto
next
  case False
  have "sv = sy_server S"
  proof (cases "sl_lane (sv_slots (sy_server S) ! i)")
    case (Some c)
    with rq.lane_recvD[OF assms Some] False show ?thesis by (cases r) auto
  qed (use assms(1) in \<open>simp add: lane_recv_def\<close>)
  with False show ?thesis by (cases r) auto
qed

lemma own_recv_steps:
  assumes "own_recv (il_queue L) w lane (sy_server S) = (sv, r)" "w < length (sv_slots (sy_server S))"
  shows "sstep\<^sup>*\<^sup>* S (put_sys sv (got r @ sy_held S) S)"
proof (cases lane)
  case True
  with lane_recv_steps[OF _ assms(2)] assms(1) show ?thesis by (simp add: own_recv_def)
next
  case False
  then have q: "req_recv (il_queue L) (sy_server S) = (sv, r)" using assms(1) by (simp add: own_recv_def)
  from rq.req_recvD[OF q] sy_take[of L S sv] q show ?thesis by (cases r) auto
qed

lemma frame_steps: "is_frame (sy_server S) sv \<Longrightarrow> sstep\<^sup>*\<^sup>* S (put_sys sv (sy_held S) S)"
  using sy_frame by blast

text \<open>Every action of a take is a step of the system, or none.\<close>

lemma take_step_steps:
  assumes "take_step (il_queue L) w lane (pc, sy_server S) (pc', sv)" "w < length (sv_slots (sy_server S))" "sinv S"
  shows "sstep\<^sup>*\<^sup>* S (put_sys sv ((if carried pc = [] then carried pc' else []) @ sy_held S) S)"
proof -
  have wf: "rq.wf (sy_server S)" using assms(3) by (simp add: system_inv_def)
  note slot = frame_steps[OF frame_slot[OF wf, of _ w]]
  note recv = own_recv_steps[OF _ assms(2)] and last = lane_recv_steps[OF _ assms(2)]
  show ?thesis
    using assms(1)
  proof (cases rule: take_step.cases)
    case (draw)
    then show ?thesis using frame_steps[OF frame_counters[OF wf]] by simp
  next
    case (stamp seq)
    then show ?thesis using slot[of "\<lambda>s. s\<lparr>sl_parked_at := seq\<rparr>"] by simp
  next
    case raise_flag
    then show ?thesis using slot[of "\<lambda>s. s\<lparr>sl_parked := True\<rparr>"] by simp
  next
    case (leave r)
    then show ?thesis using slot[of "\<lambda>s. s\<lparr>sl_parked := False\<rparr>"] by (cases lane) (auto simp: unpark_def carried_leave)
  next
    case (last_none r)
    then show ?thesis using last[of sv r] by (cases r) auto
  next
    case (sweep_miss i r)
    then show ?thesis using lane_recv_steps[of i S sv r] by (cases r) auto
  qed (auto dest!: recv last lane_recv_steps split: if_splits)
qed

text \<open>So a take, wherever it is, leaves the system in a state of its own, and has its request to itself.\<close>

lemma take_runs_steps:
  assumes "(system_take L items cap senders alive w lane)\<^sup>*\<^sup>* (TkStart, S) (pc, S')" "sinv S"
  shows "sstep\<^sup>*\<^sup>* S S' \<and> set (carried pc) \<subseteq> set (sy_held S')"
  using assms(1)
proof (induction "(pc, S')" arbitrary: pc S' rule: rtranclp_induct)
  case base
  then show ?case by simp
next
  case (step st)
  obtain pc0 S0 where st: "st = (pc0, S0)" by force
  with step have ih: "sstep\<^sup>*\<^sup>* S S0" "set (carried pc0) \<subseteq> set (sy_held S0)" by auto
  from step(2)[unfolded st] show ?case
  proof (cases rule: system_take.cases)
    case (take_worker sv)
    from take_step_steps[OF take_worker(3,2) sys.steps_Inv[OF ih(1) assms(2)]] take_worker(1) ih(1) have "sstep\<^sup>*\<^sup>* S S'" by simp
    moreover have "set (carried pc) \<subseteq> set (sy_held S')"
    proof (cases "carried pc0 = []")
      case False
      with take_worker(3) have "carried pc = carried pc0"
        by (cases rule: take_step.cases) (auto simp: carried_leave split: if_splits)
      with False take_worker(1) ih(2) show ?thesis by simp
    qed (use take_worker(1) in simp)
    ultimately show ?thesis ..
  next
    case take_rest
    with ih show ?thesis by auto
  qed
qed

lemma held_alone:
  assumes "sinv S" "ctx \<in> set (sy_held S)"
  shows "owners items (cx_responder ctx) S = 1 \<and> ctx \<notin># waiting items (sy_server S)"
proof -
  let ?k = "cx_responder ctx"
  have "owned view (owners items ?k S) (ik_responders (sy_intake S) ?k) (ik_reqs (sy_intake S) ?k)"
    using assms(1) by (simp add: system_inv_def)
  then have one: "owners items ?k S \<le> 1" by (simp add: owned_def)
  from assms(2) obtain M where M: "mset (sy_held S) = add_mset ctx M"
    using multi_member_split[of ctx "mset (sy_held S)"] by auto
  have "ctx \<notin># waiting items (sy_server S)"
  proof
    assume "ctx \<in># waiting items (sy_server S)"
    then obtain N where "waiting items (sy_server S) = add_mset ctx N" by (rule mset_add)
    with M have "2 \<le> owners items ?k S" by (simp add: owners_def)
    with one show False by simp
  qed
  with one M show ?thesis by (simp add: owners_def)
qed

lemma take_alone:
  assumes "(system_take L items cap senders alive w lane)\<^sup>*\<^sup>* (TkStart, S) (pc, S')" "sinv S"
  shows "sstep\<^sup>*\<^sup>* S S' \<and> (\<forall>ctx \<in> set (carried pc). ctx \<in> set (sy_held S')
    \<and> owners items (cx_responder ctx) S' = 1 \<and> ctx \<notin># waiting items (sy_server S'))"
  using take_runs_steps[OF assms] held_alone sys.steps_Inv assms(2) by blast

end

end
