(* ===== verification/Kino_Accept.thy ===== *)
theory Kino_Accept
  imports Kino_Lifecycle Kino_Logging
begin

text \<open>
  Connections before the protocol layer: the default accept loop and the set-up of a
  connection (\<open>ext/kino/src/server.rs\<close>), the sharded accept loop with its I/O threads
  (\<open>ext/kino/src/io_shards.rs\<close>), and the loop of the control thread (\<open>ext/kino/src/control.rs\<close>).

  A connection is a number. A counting semaphore is its number of free permits; the
  unbounded channel from the acceptor to a shard is the list of what was sent and not yet
  received, and a send on it fails exactly when the shard's thread is gone.
\<close>

section \<open>Setting up a connection\<close>

datatype conn_kind = TcpConn | UnixConn

definition UNIX_PEER :: socket_addr where
  "UNIX_PEER = \<lparr>sa_ip = V4 127 0 0 1, sa_port = 0\<rparr>"

definition UNIX_LOCAL :: socket_addr where
  "UNIX_LOCAL = \<lparr>sa_ip = V4 127 0 0 1, sa_port = 80\<rparr>"

text \<open>
  \<open>accept\<close>: the addresses a connection reports, from what the kernel says of the peer and
  of the local end (\<open>None\<close> when that lookup fails).
\<close>

definition accept_addrs :: "conn_kind \<Rightarrow> socket_addr \<Rightarrow> socket_addr option \<Rightarrow> socket_addr \<times> socket_addr" where
  "accept_addrs kind peer local_addr =
     (case kind of
        TcpConn \<Rightarrow> (peer, case local_addr of Some a \<Rightarrow> a | None \<Rightarrow> \<lparr>sa_ip = V4 0 0 0 0, sa_port = 0\<rparr>)
      | UnixConn \<Rightarrow> (UNIX_PEER, UNIX_LOCAL))"

text \<open>
  \<open>serve_conn\<close>: a connection is served, behind TLS or not, or dropped when its handshake
  fails or is not over in time. \<open>hs\<close> says when the handshake is over and whether it went
  well; \<open>None\<close> is a client that stalls.
\<close>

definition TLS_HANDSHAKE_TIMEOUT :: duration where
  "TLS_HANDSHAKE_TIMEOUT = 10 * 1000000000"

datatype served = ServeTls | ServePlain | DropConn

definition serve_conn :: "conn_kind \<Rightarrow> bool \<Rightarrow> (duration \<times> bool) option \<Rightarrow> served" where
  "serve_conn kind tls hs =
     (case kind of
        UnixConn \<Rightarrow> ServePlain
      | TcpConn \<Rightarrow>
          if tls then (case hs of
                         Some (t, good) \<Rightarrow> if t \<le> TLS_HANDSHAKE_TIMEOUT \<and> good then ServeTls else DropConn
                       | None \<Rightarrow> DropConn)
          else ServePlain)"

definition advertised_streams :: "usize \<Rightarrow> usize \<Rightarrow> u32" where
  "advertised_streams workers threads =
     (let slots = saturating_mul workers threads
      in if slots = 0 then 200 else ucast (max 8 (min 1024 slots)))"

definition stream_capacity :: "topology \<Rightarrow> u32" where
  "stream_capacity tp = advertised_streams (tp_max_workers tp) (tp_threads tp)"

definition HEADER_READ_TIMEOUT :: duration where
  "HEADER_READ_TIMEOUT = 15 * 1000000000"

text \<open>What hyper's connection builder is told.\<close>

record conn_builder =
  cb_header_read_timeout :: duration
  cb_auto_date_header :: bool
  cb_max_concurrent_streams :: u32
  cb_http1_only :: bool

definition conn_builder_new :: "bool \<Rightarrow> u32 \<Rightarrow> conn_builder" where
  "conn_builder_new http2 max_streams =
     \<lparr>cb_header_read_timeout = HEADER_READ_TIMEOUT, cb_auto_date_header = False,
      cb_max_concurrent_streams = max_streams, cb_http1_only = (\<not> http2)\<rparr>"

definition connection_settings :: "'c server_inner \<Rightarrow> conn_builder" where
  "connection_settings sv = conn_builder_new (sv_http2 sv) (stream_capacity (sv_topology sv))"

text \<open>
  \<open>drain_signal\<close> on a watch channel: its value when the connection subscribes, and what the
  receiver is told later, \<open>None\<close> for a dropped sender. The result says after how many of
  those it resolves.
\<close>

definition drain_signal :: "bool \<Rightarrow> bool option list \<Rightarrow> nat option" where
  "drain_signal current later = (if current then Some 0 else case later of [] \<Rightarrow> None | _ # _ \<Rightarrow> Some 1)"

section \<open>The default accept loop\<close>

text \<open>
  The free permits, the open connections, and whether the loop has ended. One turn takes a
  permit and then accepts; an accept error gives it back.
\<close>

record accept_state =
  as_free :: nat
  as_conns :: "nat list"
  as_stopped :: bool

datatype accepted = AcceptError | AcceptOk nat

definition accept_turn :: "accepted \<Rightarrow> accept_state \<Rightarrow> accept_state" where
  "accept_turn ev s =
     (case ev of
        AcceptError \<Rightarrow> s
      | AcceptOk c \<Rightarrow> s\<lparr>as_free := as_free s - 1, as_conns := c # as_conns s\<rparr>)"

definition conn_closed :: "nat \<Rightarrow> accept_state \<Rightarrow> accept_state" where
  "conn_closed c s = s\<lparr>as_free := as_free s + 1, as_conns := remove1 c (as_conns s)\<rparr>"

inductive accept_step :: "accept_state \<Rightarrow> accept_state \<Rightarrow> bool" where
  as_accept: "\<not> as_stopped s \<Longrightarrow> 0 < as_free s \<Longrightarrow> accept_step s (accept_turn ev s)"
| as_close: "c \<in> set (as_conns s) \<Longrightarrow> accept_step s (conn_closed c s)"
| as_shutdown: "accept_step s (s\<lparr>as_stopped := True\<rparr>)"

definition accept_start :: "nat \<Rightarrow> accept_state \<Rightarrow> bool" where
  "accept_start max_connections s \<longleftrightarrow> as_free s = max_connections \<and> as_conns s = [] \<and> \<not> as_stopped s"

section \<open>The control thread\<close>

text \<open>
  \<open>control.rs\<close>: the thread builds its runtime and takes over the listener, or logs why it
  cannot and ends; then it serves.
\<close>

definition CONTROL_MAX_REQUEST_BYTES :: usize where
  "CONTROL_MAX_REQUEST_BYTES = 8192"

definition CONTROL_DEADLINE :: duration where
  "CONTROL_DEADLINE = 5 * 1000000000"

definition CONTROL_MAX_CONNECTIONS :: nat where
  "CONTROL_MAX_CONNECTIONS = 16"

definition native_error :: "terminal \<Rightarrow> u32 \<Rightarrow> string \<Rightarrow> console \<Rightarrow> console" where
  "native_error T pid message c = emit T pid LevelError ''native'' message c"

definition control_run ::
  "terminal \<Rightarrow> u32 \<Rightarrow> string option \<Rightarrow> string option \<Rightarrow> console \<Rightarrow> console \<times> accept_state option" where
  "control_run T pid runtime_err listener_err c =
     (case runtime_err of
        Some e \<Rightarrow> (native_error T pid (''control runtime failed: '' @ e) c, None)
      | None \<Rightarrow>
          case listener_err of
            Some e \<Rightarrow> (native_error T pid (''control listener failed: '' @ e) c, None)
          | None \<Rightarrow> (c, Some \<lparr>as_free = CONTROL_MAX_CONNECTIONS, as_conns = [], as_stopped = False\<rparr>))"

text \<open>
  One turn of the loop: unlike the main one it accepts first, and drops a connection for
  which there is no permit. A connection is dropped by its deadline; \<open>over\<close> is when the
  protocol layer is done with it.
\<close>

definition control_turn :: "accepted \<Rightarrow> accept_state \<Rightarrow> accept_state" where
  "control_turn ev s =
     (case ev of
        AcceptError \<Rightarrow> s
      | AcceptOk c \<Rightarrow>
          if as_free s = 0 then s else s\<lparr>as_free := as_free s - 1, as_conns := c # as_conns s\<rparr>)"

record control_builder =
  ctb_keep_alive :: bool
  ctb_max_buf_size :: usize

definition control_settings :: control_builder where
  "control_settings = \<lparr>ctb_keep_alive = False, ctb_max_buf_size = CONTROL_MAX_REQUEST_BYTES\<rparr>"

definition control_conn_end :: "instant \<Rightarrow> instant option \<Rightarrow> instant" where
  "control_conn_end opened over =
     (case over of None \<Rightarrow> opened + CONTROL_DEADLINE | Some t \<Rightarrow> min t (opened + CONTROL_DEADLINE))"

inductive control_step :: "accept_state \<Rightarrow> accept_state \<Rightarrow> bool" where
  cs_accept: "\<not> as_stopped s \<Longrightarrow> control_step s (control_turn ev s)"
| cs_close: "c \<in> set (as_conns s) \<Longrightarrow> control_step s (conn_closed c s)"
| cs_stop: "control_step s (s\<lparr>as_stopped := True\<rparr>)"

section \<open>Shards\<close>

definition default_thread_count :: "usize \<Rightarrow> usize" where
  "default_thread_count cpus = cpus div 2 + (if cpus mod 2 > 0 then 1 else 0)"

text \<open>\<open>available\<close> is the standard library's count of usable CPUs, if it can tell.\<close>

definition thread_count :: "usize option \<Rightarrow> usize \<Rightarrow> usize" where
  "thread_count available io_threads =
     (if 0 < io_threads then io_threads
      else default_thread_count (case available of None \<Rightarrow> 1 | Some n \<Rightarrow> n))"

text \<open>
  A shard as the acceptor and its thread see it: its load counter, whether the acceptor
  still routes to it, whether its thread is there, the connections on their way to it and
  those it serves.
\<close>

record shard =
  sd_load :: usize
  sd_live :: bool
  sd_up :: bool
  sd_queue :: "nat list"
  sd_conns :: "nat list"

definition least_loaded :: "usize list \<Rightarrow> bool list \<Rightarrow> nat option" where
  "least_loaded loads live =
     min_by_key (\<lambda>i. loads ! i) (filter (\<lambda>i. live ! i) [0..<length loads])"

definition shard_choice :: "shard list \<Rightarrow> nat option" where
  "shard_choice S = least_loaded (map sd_load S) (map sd_live S)"

text \<open>
  The acceptor: its shards, free permits, whether it has stopped, the state of the server
  and the lines it has logged.
\<close>

record acceptor =
  ac_shards :: "shard list"
  ac_free :: nat
  ac_stopped :: bool
  ac_state :: u8
  ac_log :: "(level \<times> string \<times> string) list"

definition ac_emit :: "level \<Rightarrow> string \<Rightarrow> acceptor \<Rightarrow> acceptor" where
  "ac_emit l message A = A\<lparr>ac_log := ac_log A @ [(l, ''tokio'', message)]\<rparr>"

text \<open>
  \<open>serve_accepted\<close>: the shard's half of the handoff. \<open>registered\<close> says whether its runtime
  takes the stream; a connection it does not take is dropped with a warning.
\<close>

definition serve_accepted ::
  "bool \<Rightarrow> conn_kind \<Rightarrow> bool \<Rightarrow> (duration \<times> bool) option \<Rightarrow> served \<times> (level \<times> string \<times> string) list" where
  "serve_accepted registered kind tls hs =
     (if registered then (serve_conn kind tls hs, [])
      else (DropConn, [(LevelWarn, ''tokio'', ''failed to register a stream on an I/O shard'')]))"

definition on_shard :: "nat \<Rightarrow> (shard \<Rightarrow> shard) \<Rightarrow> acceptor \<Rightarrow> acceptor" where
  "on_shard i f A = A\<lparr>ac_shards := (ac_shards A)[i := f (ac_shards A ! i)]\<rparr>"

lemma shard_choice_SomeD:
  "shard_choice S = Some i \<Longrightarrow> i < length S \<and> sd_live (S ! i)
    \<and> (\<forall>j < length S. sd_live (S ! j) \<longrightarrow> sd_load (S ! i) \<le> sd_load (S ! j))"
  using min_by_key_SomeD[of "\<lambda>i. map sd_load S ! i" "filter (\<lambda>i. map sd_live S ! i) [0..<length (map sd_load S)]" i]
  by (auto simp: shard_choice_def least_loaded_def)

text \<open>
  The handoff loop: try the least loaded live shard, mark it dead when its thread is gone,
  and stop accepting when none is left.
\<close>

function route_conn :: "nat \<Rightarrow> acceptor \<Rightarrow> acceptor \<times> nat option" where
  "route_conn c A =
     (case shard_choice (ac_shards A) of
        None \<Rightarrow>
          ((ac_emit LevelError ''all I/O shards are down; not accepting connections'' A)
             \<lparr>ac_state := STATE_DRAINING, ac_stopped := True\<rparr>, None)
      | Some i \<Rightarrow>
          let A = on_shard i (\<lambda>s. s\<lparr>sd_load := sd_load s + 1\<rparr>) A
          in if sd_up (ac_shards A ! i) then (on_shard i (\<lambda>s. s\<lparr>sd_queue := sd_queue s @ [c]\<rparr>) A, Some i)
             else route_conn c (ac_emit LevelWarn ''I/O shard is down; routing around it''
                    (on_shard i (\<lambda>s. s\<lparr>sd_load := sd_load s - 1, sd_live := False\<rparr>) A)))"
  by auto

lemma length_filter_update_less:
  assumes "i < length xs" "P (xs ! i)" "\<not> P y"
  shows "length (filter P (xs[i := y])) < length (filter P xs)"
proof -
  have "xs = take i xs @ xs ! i # drop (Suc i) xs" using assms(1) by (rule id_take_nth_drop)
  then have "filter P xs = filter P (take i xs) @ xs ! i # filter P (drop (Suc i) xs)"
    using assms(2) by (metis filter_append filter.simps(2))
  then show ?thesis using assms(1,3) by (simp add: upd_conv_take_nth_drop)
qed

termination route_conn
proof (relation "measure (\<lambda>(c, A). length (filter sd_live (ac_shards A)))", goal_cases)
  case (2 c A i A')
  then have "i < length (ac_shards A)" "sd_live (ac_shards A ! i)" using shard_choice_SomeD by blast+
  with 2 show ?case by (auto simp: on_shard_def ac_emit_def intro!: length_filter_update_less)
qed simp

declare route_conn.simps [simp del]

text \<open>
  One turn of the sharded loop with a permit in hand. \<open>DetachError\<close> is a stream that could
  not be taken off the acceptor's runtime.
\<close>

datatype shard_event = ShardAcceptError | DetachError | ShardConn nat

definition shard_turn :: "shard_event \<Rightarrow> acceptor \<Rightarrow> acceptor" where
  "shard_turn ev A =
     (case ev of
        ShardAcceptError \<Rightarrow> A
      | DetachError \<Rightarrow> ac_emit LevelWarn ''failed to detach an accepted stream; connection dropped'' A
      | ShardConn c \<Rightarrow>
          (case route_conn c A of
             (A', None) \<Rightarrow> A'
           | (A', Some i) \<Rightarrow> A'\<lparr>ac_free := ac_free A' - 1\<rparr>))"

text \<open>The shard's own loop: taking a connection over, and its end, whichever way it comes.\<close>

definition shard_take :: "shard \<Rightarrow> shard" where
  "shard_take s =
     (case sd_queue s of [] \<Rightarrow> s | c # q \<Rightarrow> s\<lparr>sd_queue := q, sd_conns := c # sd_conns s\<rparr>)"

definition shard_end :: "nat \<Rightarrow> shard \<Rightarrow> shard" where
  "shard_end c s = s\<lparr>sd_conns := remove1 c (sd_conns s), sd_load := sd_load s - 1\<rparr>"

text \<open>
  The shard's thread ends: connections still in the channel are dropped with it, and those
  it served are cancelled, each through its load guard.
\<close>

definition shard_exit :: "shard \<Rightarrow> shard" where
  "shard_exit s =
     s\<lparr>sd_up := False, sd_queue := [], sd_conns := [], sd_load := sd_load s - of_nat (length (sd_conns s))\<rparr>"

definition shard_open :: "shard \<Rightarrow> nat" where
  "shard_open s = length (sd_queue s) + length (sd_conns s)"

inductive shard_step :: "acceptor \<Rightarrow> acceptor \<Rightarrow> bool" where
  sh_accept: "\<not> ac_stopped A \<Longrightarrow> 0 < ac_free A \<Longrightarrow> shard_step A (shard_turn ev A)"
| sh_shutdown: "shard_step A (A\<lparr>ac_stopped := True\<rparr>)"
| sh_take: "i < length (ac_shards A) \<Longrightarrow> sd_up (ac_shards A ! i)
    \<Longrightarrow> shard_step A (on_shard i shard_take A)"
| sh_end: "i < length (ac_shards A) \<Longrightarrow> c \<in> set (sd_conns (ac_shards A ! i))
    \<Longrightarrow> shard_step A (on_shard i (shard_end c) (A\<lparr>ac_free := ac_free A + 1\<rparr>))"
| sh_exit: "i < length (ac_shards A) \<Longrightarrow> sd_up (ac_shards A ! i)
    \<Longrightarrow> shard_step A (on_shard i shard_exit (A\<lparr>ac_free := ac_free A + shard_open (ac_shards A ! i)\<rparr>))"

definition shard_new :: shard where
  "shard_new = \<lparr>sd_load = 0, sd_live = True, sd_up = True, sd_queue = [], sd_conns = []\<rparr>"

definition shard_start :: "nat \<Rightarrow> acceptor \<Rightarrow> bool" where
  "shard_start max_connections A \<longleftrightarrow>
     ac_free A = max_connections \<and> \<not> ac_stopped A \<and> set (ac_shards A) \<subseteq> {shard_new}"

section \<open>Bounds of the settings\<close>

lemma unat_ucast_32: "unat (w :: usize) < 2 ^ 32 \<Longrightarrow> unat (ucast w :: u32) = unat w"
  by (simp add: unsigned_ucast_eq take_bit_nat_eq_self)

lemma advertised_streams_bounds:
  "advertised_streams workers threads = 200
    \<or> 8 \<le> unat (advertised_streams workers threads) \<and> unat (advertised_streams workers threads) \<le> 1024"
proof -
  let ?m = "max 8 (min 1024 (saturating_mul workers threads))"
  have "8 \<le> unat ?m" "unat ?m \<le> 1024" by (simp_all add: max_def min_def word_le_nat_alt)
  then show ?thesis by (simp add: advertised_streams_def Let_def unat_ucast_32)
qed

text \<open>With slots within the bounds, what is advertised is their number.\<close>

lemma advertised_streams_exact:
  assumes "8 \<le> unat workers * unat threads" "unat workers * unat threads \<le> 1024"
  shows "unat (advertised_streams workers threads) = unat workers * unat threads"
proof -
  let ?s = "saturating_mul workers threads"
  have s: "unat ?s = unat workers * unat threads"
    using assms by (simp add: unat_saturating_mul)
  then have "8 \<le> unat ?s" "unat ?s \<le> 1024" using assms by simp_all
  then have "?s \<noteq> 0" "max 8 (min 1024 ?s) = ?s"
    by (auto simp: max_def min_def word_le_nat_alt word_unat_eq_iff)
  then show ?thesis using assms s by (simp add: advertised_streams_def Let_def unat_ucast_32)
qed

lemma default_thread_count_half: "unat (default_thread_count cpus) = (unat cpus + 1) div 2"
proof -
  have b: "unat cpus < 2 ^ 64" using unsigned_less[of cpus] by simp
  have d: "unat (cpus div 2) = unat cpus div 2" by (simp add: unat_div_distrib)
  have m: "cpus mod 2 > 0 \<longleftrightarrow> odd (unat cpus)"
    by (simp add: word_less_nat_alt unat_mod_distrib odd_iff_mod_2_eq_one)
  have "unat (cpus div 2 + 1) = unat cpus div 2 + 1"
    using b d by (simp add: unat_add_lem[THEN iffD1])
  with d m show ?thesis by (auto simp: default_thread_count_def)
qed

lemma thread_count_pos:
  assumes "available \<noteq> Some 0"
  shows "0 < thread_count available io_threads"
proof -
  let ?n = "case available of None \<Rightarrow> 1 | Some n \<Rightarrow> n"
  have "0 < unat ?n" using assms by (auto simp: unat_gt_0 split: option.splits)
  then have "0 < unat (default_thread_count ?n)" by (simp add: default_thread_count_half)
  then show ?thesis by (auto simp: thread_count_def word_less_nat_alt)
qed

section \<open>The default loop\<close>

definition accept_inv :: "nat \<Rightarrow> accept_state \<Rightarrow> bool" where
  "accept_inv m s \<longleftrightarrow> as_free s + length (as_conns s) = m"

lemma length_remove1_in: "c \<in> set xs \<Longrightarrow> Suc (length (remove1 c xs)) = length xs"
  by (induction xs) auto

inductive_cases accept_stepE: "accept_step s t"

interpretation default_accept: invariant_system "accept_start m" accept_step "accept_inv m" for m
proof unfold_locales
  fix s t
  assume "accept_step s t" "accept_inv m s"
  then show "accept_inv m t"
    by (auto elim!: accept_stepE simp: accept_inv_def accept_turn_def conn_closed_def
        split: accepted.splits dest: length_remove1_in)
qed (simp add: accept_start_def accept_inv_def)

inductive_cases control_stepE: "control_step s t"

interpretation control_accept: invariant_system "\<lambda>s. snd (control_run T pid e1 e2 c) = Some s" control_step
  "accept_inv CONTROL_MAX_CONNECTIONS" for T pid e1 e2 c
proof unfold_locales
  fix s t
  assume "control_step s t" "accept_inv CONTROL_MAX_CONNECTIONS s"
  then show "accept_inv CONTROL_MAX_CONNECTIONS t"
    by (auto elim!: control_stepE simp: accept_inv_def control_turn_def conn_closed_def
        split: accepted.splits dest: length_remove1_in)
qed (auto simp: control_run_def accept_inv_def split: option.splits)

text \<open>The control thread never has more than its connections open, and each only so long.\<close>

lemma control_bounded:
  "reach (\<lambda>s. snd (control_run T pid e1 e2 c) = Some s) control_step t \<Longrightarrow>
    length (as_conns t) \<le> CONTROL_MAX_CONNECTIONS"
  using control_accept.reach_Inv[of T pid e1 e2 c t] by (simp add: accept_inv_def)

lemma control_conn_bounded: "control_conn_end opened over \<le> opened + CONTROL_DEADLINE"
  by (simp add: control_conn_end_def split: option.splits)

section \<open>Routing\<close>

text \<open>A shard marked dead has no thread; the load of one that is up counts its connections.\<close>

definition shard_ok :: "shard \<Rightarrow> bool" where
  "shard_ok s \<longleftrightarrow> (sd_up s \<longrightarrow> sd_live s \<and> sd_load s = of_nat (shard_open s))
     \<and> (\<not> sd_up s \<longrightarrow> shard_open s = 0)"

definition opened :: "acceptor \<Rightarrow> nat" where
  "opened A = sum_list (map shard_open (ac_shards A))"

text \<open>
  What the handoff loop does: the connection goes to a shard whose thread is up and whose
  load is least among those; shards found dead on the way are marked; and it gives up only
  when no thread is left.
\<close>

definition routed :: "nat \<Rightarrow> acceptor \<Rightarrow> acceptor \<times> nat option \<Rightarrow> bool" where
  "routed c A r =
     (case r of
        (A', Some i) \<Rightarrow>
          i < length (ac_shards A) \<and> sd_up (ac_shards A ! i)
          \<and> (\<forall>j < length (ac_shards A). sd_up (ac_shards A ! j) \<longrightarrow> sd_load (ac_shards A ! i) \<le> sd_load (ac_shards A ! j))
          \<and> ac_shards A' ! i = (ac_shards A ! i)\<lparr>sd_load := sd_load (ac_shards A ! i) + 1, sd_queue := sd_queue (ac_shards A ! i) @ [c]\<rparr>
          \<and> length (ac_shards A') = length (ac_shards A)
          \<and> (\<forall>j < length (ac_shards A). j \<noteq> i \<longrightarrow> (\<exists>b. ac_shards A' ! j = (ac_shards A ! j)\<lparr>sd_live := b\<rparr>
                \<and> (sd_up (ac_shards A ! j) \<longrightarrow> b = sd_live (ac_shards A ! j))))
          \<and> ac_free A' = ac_free A \<and> ac_state A' = ac_state A \<and> ac_stopped A' = ac_stopped A
      | (A', None) \<Rightarrow>
          (\<forall>j < length (ac_shards A). \<not> sd_up (ac_shards A ! j))
          \<and> length (ac_shards A') = length (ac_shards A)
          \<and> (\<forall>j < length (ac_shards A). ac_shards A' ! j = (ac_shards A ! j)\<lparr>sd_live := False\<rparr>)
          \<and> ac_free A' = ac_free A \<and> ac_state A' = STATE_DRAINING \<and> ac_stopped A')"

lemma shard_live_same [simp]: "s\<lparr>sd_live := sd_live s\<rparr> = s"
  by simp

lemma shard_live_ex: "sd_up s \<longrightarrow> sd_live s \<Longrightarrow> \<exists>b. s = s\<lparr>sd_live := b\<rparr> \<and> (sd_up s \<longrightarrow> b)"
  by (intro exI[of _ "sd_live s"]) simp

lemma route_conn_routed:
  assumes "\<forall>j < length (ac_shards A). sd_up (ac_shards A ! j) \<longrightarrow> sd_live (ac_shards A ! j)"
  shows "routed c A (route_conn c A)"
  using assms
proof (induction c A rule: route_conn.induct)
  case (1 c A)
  show ?case
  proof (cases "shard_choice (ac_shards A)")
    case None
    then have "\<forall>j < length (ac_shards A). \<not> sd_live (ac_shards A ! j)"
      by (auto simp: shard_choice_def least_loaded_def filter_empty_conv)
    with 1(2) None show ?thesis
      by (subst route_conn.simps) (auto simp: routed_def ac_emit_def)
  next
    case (Some i)
    note i = shard_choice_SomeD[OF Some]
    let ?A1 = "on_shard i (\<lambda>s. s\<lparr>sd_load := sd_load s + 1\<rparr>) A"
    show ?thesis
    proof (cases "sd_up (ac_shards A ! i)")
      case True
      with Some i 1(2) show ?thesis
        by (subst route_conn.simps) (auto simp: routed_def on_shard_def Let_def nth_list_update intro!: shard_live_ex)
    next
      case False
      let ?A2 = "ac_emit LevelWarn ''I/O shard is down; routing around it''
          (on_shard i (\<lambda>s. s\<lparr>sd_load := sd_load s - 1, sd_live := False\<rparr>) ?A1)"
      have up: "\<not> sd_up (ac_shards ?A1 ! i)" using False i by (simp add: on_shard_def)
      have sh: "ac_shards ?A2 = (ac_shards A)[i := (ac_shards A ! i)\<lparr>sd_live := False\<rparr>]"
        using i by (simp add: on_shard_def ac_emit_def)
      have "routed c ?A2 (route_conn c ?A2)"
        by (rule 1(1)[OF Some refl up]) (use 1(2) False i in \<open>auto simp: sh nth_list_update\<close>)
      moreover have "route_conn c A = route_conn c ?A2"
        using Some up by (subst route_conn.simps) (simp add: Let_def)
      ultimately show ?thesis using i False
        by (auto simp: routed_def sh nth_list_update on_shard_def ac_emit_def split: prod.splits option.splits if_splits)
    qed
  qed
qed


section \<open>The sharded loop\<close>

definition shard_inv :: "nat \<Rightarrow> acceptor \<Rightarrow> bool" where
  "shard_inv m A \<longleftrightarrow> list_all shard_ok (ac_shards A) \<and> ac_free A + opened A = m"

lemma opened_upd:
  "i < length (ac_shards A) \<Longrightarrow> opened (on_shard i f A) + shard_open (ac_shards A ! i) = opened A + shard_open (f (ac_shards A ! i))"
proof -
  assume i: "i < length (ac_shards A)"
  then have "shard_open (ac_shards A ! i) \<le> opened A"
    unfolding opened_def by (intro member_le_sum_list) auto
  with i show ?thesis
    by (simp add: opened_def on_shard_def map_update sum_list_update)
qed

lemma shard_ok_upd:
  "list_all shard_ok (ac_shards A) \<Longrightarrow> i < length (ac_shards A) \<Longrightarrow> shard_ok (f (ac_shards A ! i))
    \<Longrightarrow> list_all shard_ok (ac_shards (on_shard i f A))"
  by (simp add: on_shard_def list_all_length nth_list_update)

lemma shard_ok_nth: "list_all shard_ok (ac_shards A) \<Longrightarrow> i < length (ac_shards A) \<Longrightarrow> shard_ok (ac_shards A ! i)"
  by (simp add: list_all_length)

lemma shard_ok_take: "shard_ok s \<Longrightarrow> shard_ok (shard_take s) \<and> shard_open (shard_take s) = shard_open s"
  by (auto simp: shard_ok_def shard_take_def shard_open_def split: list.splits)

lemma shard_ok_end:
  assumes "shard_ok s" "c \<in> set (sd_conns s)"
  shows "shard_ok (shard_end c s) \<and> Suc (shard_open (shard_end c s)) = shard_open s"
proof -
  obtain n where n: "shard_open s = Suc n" "length (sd_queue s) + length (remove1 c (sd_conns s)) = n"
    using length_remove1_in[OF assms(2)] by (auto simp: shard_open_def)
  with assms show ?thesis by (auto simp: shard_ok_def shard_end_def) (auto simp: shard_open_def)
qed

lemma shard_ok_exit: "shard_ok (shard_exit s) \<and> shard_open (shard_exit s) = 0"
  by (simp add: shard_ok_def shard_exit_def shard_open_def)

lemma shard_ok_new: "shard_ok shard_new \<and> shard_open shard_new = 0"
  by (simp add: shard_ok_def shard_new_def shard_open_def)

lemma routed_inv:
  assumes "list_all shard_ok (ac_shards A)" "routed c A (A', r)"
  shows "list_all shard_ok (ac_shards A') \<and> ac_free A' = ac_free A
    \<and> opened A' = opened A + (case r of None \<Rightarrow> 0 | Some _ \<Rightarrow> 1)"
proof -
  let ?S = "ac_shards A" and ?S' = "ac_shards A'"
  have ok: "shard_ok (?S ! j)" if "j < length ?S" for j using assms(1) that by (simp add: list_all_length)
  have live: "shard_ok (s\<lparr>sd_live := b\<rparr>)" if "shard_ok s" "sd_up s \<longrightarrow> b" for s b
    using that by (auto simp: shard_ok_def shard_open_def)
  have op: "shard_open (s\<lparr>sd_live := b\<rparr>) = shard_open s" for s b by (simp add: shard_open_def)
  show ?thesis
  proof (cases r)
    case None
    then have l: "length ?S' = length ?S" "ac_free A' = ac_free A"
      and s: "\<And>j. j < length ?S \<Longrightarrow> ?S' ! j = (?S ! j)\<lparr>sd_live := False\<rparr> \<and> \<not> sd_up (?S ! j)"
      using assms(2) by (auto simp: routed_def)
    have "map shard_open ?S' = map shard_open ?S"
      by (rule nth_equalityI) (simp_all add: l s op)
    with None l s ok live show ?thesis by (simp add: list_all_length opened_def)
  next
    case (Some i)
    then have i: "i < length ?S" "sd_up (?S ! i)" "length ?S' = length ?S" "ac_free A' = ac_free A"
        "?S' ! i = (?S ! i)\<lparr>sd_load := sd_load (?S ! i) + 1, sd_queue := sd_queue (?S ! i) @ [c]\<rparr>"
      and s: "\<And>j. j < length ?S \<Longrightarrow> j \<noteq> i \<Longrightarrow> \<exists>b. ?S' ! j = (?S ! j)\<lparr>sd_live := b\<rparr> \<and> (sd_up (?S ! j) \<longrightarrow> b = sd_live (?S ! j))"
      using assms(2) by (auto simp: routed_def)
    have oki: "shard_ok (?S' ! i)" using ok[OF i(1)] i(2,5) by (simp add: shard_ok_def shard_open_def)
    have okj: "shard_ok (?S' ! j)" if "j < length ?S" "j \<noteq> i" for j
      using s[OF that] live ok[OF that(1)] by (auto simp: shard_ok_def shard_open_def)
    have "map shard_open ?S' = (map shard_open ?S)[i := Suc (shard_open (?S ! i))]"
    proof (rule nth_equalityI)
      fix j assume "j < length (map shard_open ?S')"
      then have j: "j < length ?S" using i(3) by simp
      show "map shard_open ?S' ! j = (map shard_open ?S)[i := Suc (shard_open (?S ! i))] ! j"
        using s[OF j] i j op by (cases "j = i") (auto simp: shard_open_def)
    qed (simp add: i)
    moreover have "shard_open (?S ! i) \<le> sum_list (map shard_open ?S)"
      using i(1) by (intro member_le_sum_list) auto
    ultimately have "opened A' = Suc (opened A)"
      using i(1) by (simp add: opened_def sum_list_update)
    moreover have "shard_ok (?S' ! j)" if "j < length ?S" for j using oki okj that by (cases "j = i") auto
    ultimately show ?thesis using Some i by (simp add: list_all_length)
  qed
qed

inductive_cases shard_stepE: "shard_step A A'"

lemma shard_turn_inv:
  assumes "shard_inv m A" "0 < ac_free A"
  shows "shard_inv m (shard_turn ev A)"
proof (cases ev)
  case (ShardConn c)
  have "\<forall>j < length (ac_shards A). sd_up (ac_shards A ! j) \<longrightarrow> sd_live (ac_shards A ! j)"
    using assms(1) by (auto simp: shard_inv_def list_all_length shard_ok_def)
  then have r: "routed c A (route_conn c A)" by (rule route_conn_routed)
  obtain A' x where x: "route_conn c A = (A', x)" by fastforce
  from routed_inv[of A c A' x] r x assms show ?thesis
    by (auto simp: shard_turn_def ShardConn shard_inv_def opened_def split: option.splits)
qed (use assms in \<open>simp_all add: shard_turn_def ac_emit_def shard_inv_def opened_def\<close>)

lemma shard_step_inv:
  assumes "shard_step A A'" "shard_inv m A"
  shows "shard_inv m A'"
  using assms
proof (induction rule: shard_step.induct)
  case (sh_accept A ev)
  then show ?case by (blast intro: shard_turn_inv)
next
  case (sh_shutdown A)
  then show ?case by (simp add: shard_inv_def opened_def)
next
  case (sh_take i A)
  then show ?case
    using shard_ok_take[OF shard_ok_nth] opened_upd[of i A shard_take]
    by (auto simp: shard_inv_def intro!: shard_ok_upd) (simp add: on_shard_def)
next
  case (sh_end i A c)
  let ?A = "A\<lparr>ac_free := ac_free A + 1\<rparr>"
  have e: "shard_ok (shard_end c (ac_shards A ! i))"
    "Suc (shard_open (shard_end c (ac_shards A ! i))) = shard_open (ac_shards A ! i)"
    using sh_end shard_ok_end[OF shard_ok_nth, of A i c] by (simp_all add: shard_inv_def)
  have "ac_free (on_shard i (shard_end c) ?A) = Suc (ac_free A)" by (simp add: on_shard_def)
  then show ?case
    using sh_end e opened_upd[of i ?A "shard_end c"] shard_ok_upd[of ?A i "shard_end c"]
    by (simp add: shard_inv_def opened_def)
next
  case (sh_exit i A)
  let ?A = "A\<lparr>ac_free := ac_free A + shard_open (ac_shards A ! i)\<rparr>"
  show ?case
    using sh_exit shard_ok_exit opened_upd[of i ?A shard_exit]
    by (auto simp: shard_inv_def opened_def intro!: shard_ok_upd) (simp add: on_shard_def)
qed

interpretation sharded_accept: invariant_system "shard_start m" shard_step "shard_inv m" for m
proof unfold_locales
  fix A
  assume "shard_start m A"
  then have "ac_free A = m" "\<And>s. s \<in> set (ac_shards A) \<Longrightarrow> s = shard_new" by (auto simp: shard_start_def)
  then show "shard_inv m A"
    using shard_ok_new by (auto simp: shard_inv_def opened_def list_all_iff)
qed (rule shard_step_inv)

section \<open>Properties\<close>

text \<open>The default loop never has more than \<open>max_connections\<close> connections open.\<close>

lemma accept_bounded:
  "reach (accept_start m) accept_step s \<Longrightarrow> length (as_conns s) \<le> m \<and> as_free s = m - length (as_conns s)"
  using default_accept.reach_Inv[of m s] by (simp add: accept_inv_def)

text \<open>
  C39: the sharded accept loop, in every state it can reach with its shards taking over,
  finishing and losing connections and dying: at most \<open>max_connections\<close> connections are
  open, and the rest of the permits are free; the load of a shard that is up is the number
  of its connections; and the next connection goes to a shard that is up and has the fewest,
  shards found dead are routed around, and only when none is left is it dropped, the loop
  stopped and the server put into draining.
\<close>

theorem shards_balanced:
  assumes "reach (shard_start m) shard_step A"
  shows "opened A \<le> m \<and> ac_free A = m - opened A
    \<and> (\<forall>s \<in> set (ac_shards A). sd_up s \<longrightarrow> sd_live s \<and> sd_load s = of_nat (shard_open s))
    \<and> routed c A (route_conn c A)"
proof -
  have i: "shard_inv m A" by (rule sharded_accept.reach_Inv[OF assms])
  then have s: "\<forall>s \<in> set (ac_shards A). shard_ok s" by (simp add: shard_inv_def list_all_iff)
  then have "routed c A (route_conn c A)" by (intro route_conn_routed) (simp add: shard_ok_def)
  with i s show ?thesis by (auto simp: shard_inv_def shard_ok_def)
qed

definition example_acceptor :: acceptor where
  "example_acceptor = \<lparr>ac_shards = [shard_new, shard_new], ac_free = 5, ac_stopped = False,
     ac_state = STATE_READY, ac_log = []\<rparr>"

text \<open>The first shard has a connection, so the next one goes to the second.\<close>

theorem shards_balanced_witness:
  "snd (route_conn 8 (shard_turn (ShardConn 7) example_acceptor)) = Some 1
    \<and> ac_free (shard_turn (ShardConn 7) example_acceptor) = 5 - 1
    \<and> routed 8 (shard_turn (ShardConn 7) example_acceptor)
        (route_conn 8 (shard_turn (ShardConn 7) example_acceptor))"
proof -
  have "shard_start 5 example_acceptor" by (simp add: shard_start_def example_acceptor_def)
  then have r0: "reach (shard_start 5) shard_step example_acceptor" by (rule reach_init)
  have "shard_step example_acceptor (shard_turn (ShardConn 7) example_acceptor)"
    by (rule sh_accept) (simp_all add: example_acceptor_def)
  with r0 have r: "reach (shard_start 5) shard_step (shard_turn (ShardConn 7) example_acceptor)" by (rule reach_step)
  have c: "shard_choice (ac_shards example_acceptor) = Some 0"
    by (simp add: example_acceptor_def shard_choice_def least_loaded_def shard_new_def upt_rec)
  have t: "shard_turn (ShardConn 7) example_acceptor = example_acceptor
      \<lparr>ac_shards := [shard_new\<lparr>sd_load := 1, sd_queue := [7]\<rparr>, shard_new], ac_free := 4\<rparr>"
    by (simp add: shard_turn_def route_conn.simps[of 7] c Let_def)
      (simp add: example_acceptor_def on_shard_def shard_new_def)
  have c8: "shard_choice [shard_new\<lparr>sd_load := 1, sd_queue := [7]\<rparr>, shard_new] = Some 1"
    by (simp add: shard_choice_def least_loaded_def shard_new_def upt_rec)
  have "snd (route_conn 8 (shard_turn (ShardConn 7) example_acceptor)) = Some 1"
    by (simp add: t route_conn.simps[of 8] c8 Let_def on_shard_def) (simp add: shard_new_def)
  moreover have "opened (shard_turn (ShardConn 7) example_acceptor) = 1"
    by (simp add: t opened_def shard_open_def shard_new_def)
  ultimately show ?thesis using shards_balanced[OF r, of 8] by simp
qed

end
