(* ===== verification/Kino_Boot.thy ===== *)
theory Kino_Boot
  imports Kino_Accept
begin

text \<open>
  Starting a server: the boot configuration and \<open>server_start\<close> (\<open>ext/kino/src/server.rs\<close>),
  binding (\<open>listen.rs\<close>), the TLS configuration (\<open>tls.rs\<close>), the I/O shard threads
  (\<open>io_shards.rs\<close>), and the control listener and thread (\<open>control.rs\<close>).

  The conversions of Ruby values, the PEM and TLS libraries, and what the operating system
  answers are parameters.
\<close>

definition and_then :: "'e + 'a \<Rightarrow> ('a \<Rightarrow> 'e + 'b) \<Rightarrow> 'e + 'b" where
  "and_then x f = (case x of Inl e \<Rightarrow> Inl e | Inr a \<Rightarrow> f a)"

lemma and_then_simps [simp]:
  "and_then (Inl e) f = Inl e" "and_then (Inr a) f = f a"
  by (simp_all add: and_then_def)

lemma and_then_Inr: "and_then x f = Inr b \<longleftrightarrow> (\<exists>a. x = Inr a \<and> f a = Inr b)"
  by (cases x) simp_all

definition map_err :: "('e \<Rightarrow> 'e2) \<Rightarrow> 'e + 'a \<Rightarrow> 'e2 + 'a" where
  "map_err f x = (case x of Inl e \<Rightarrow> Inl (f e) | Inr a \<Rightarrow> Inr a)"

definition io_error :: "string \<Rightarrow> string \<Rightarrow> kino_error" where
  "io_error what e = RubyError (what @ '': '' @ e)"

section \<open>Configuration\<close>

text \<open>A key is absent or nil (\<open>None\<close>), or has a Ruby value that converts to a Rust type or raises.\<close>

type_synonym 'v config = "string \<Rightarrow> 'v option"

record 'v conversions =
  cv_string :: "'v \<Rightarrow> kino_error + string"
  cv_u16 :: "'v \<Rightarrow> kino_error + u16"
  cv_u64 :: "'v \<Rightarrow> kino_error + u64"
  cv_usize :: "'v \<Rightarrow> kino_error + usize"
  cv_bool :: "'v \<Rightarrow> kino_error + bool"

definition cfg_opt :: "('v \<Rightarrow> kino_error + 'a) \<Rightarrow> 'v config \<Rightarrow> string \<Rightarrow> kino_error + 'a option" where
  "cfg_opt conv config key =
     (case config key of None \<Rightarrow> Inr None | Some v \<Rightarrow> and_then (conv v) (\<lambda>a. Inr (Some a)))"

definition cfg :: "('v \<Rightarrow> kino_error + 'a) \<Rightarrow> 'v config \<Rightarrow> string \<Rightarrow> kino_error + 'a" where
  "cfg conv config key =
     and_then (cfg_opt conv config key)
       (\<lambda>v. case v of Some a \<Rightarrow> Inr a
          | None \<Rightarrow> Inl (ArgError (''server_start: missing config key :'' @ key)))"

definition cfg_or :: "('v \<Rightarrow> kino_error + 'a) \<Rightarrow> 'v config \<Rightarrow> string \<Rightarrow> 'a \<Rightarrow> kino_error + 'a" where
  "cfg_or conv config key dflt =
     and_then (cfg_opt conv config key) (\<lambda>v. Inr (case v of Some a \<Rightarrow> a | None \<Rightarrow> dflt))"

definition read_config :: "'v conversions \<Rightarrow> 'v config \<Rightarrow> kino_error + server_config" where
  "read_config V config =
     and_then (cfg (cv_string V) config ''bind'') (\<lambda>bind.
     and_then (cfg (cv_u16 V) config ''port'') (\<lambda>port.
     and_then (cfg (cv_usize V) config ''queue_depth'') (\<lambda>queue_depth.
     and_then (cfg (cv_u64 V) config ''queue_timeout_ms'') (\<lambda>queue_timeout_ms.
     and_then (cfg_or (cv_u64 V) config ''request_timeout_ms'' 0) (\<lambda>request_timeout_ms.
     and_then (cfg_or (cv_usize V) config ''max_body_size'' 0) (\<lambda>max_body_size.
     and_then (cfg_or (cv_usize V) config ''max_connections'' 1024) (\<lambda>max_connections.
     and_then (cfg_or (cv_bool V) config ''io_shards'' False) (\<lambda>io_shards.
     and_then (cfg_or (cv_usize V) config ''io_threads'' 0) (\<lambda>io_threads.
     and_then (cfg_or (cv_usize V) config ''tokio_threads'' 0) (\<lambda>tokio_threads.
     and_then (cfg_opt (cv_string V) config ''tls_cert'') (\<lambda>tls_cert.
     and_then (cfg_opt (cv_string V) config ''tls_key'') (\<lambda>tls_key.
     and_then (cfg_or (cv_bool V) config ''lanes'' False) (\<lambda>lanes.
     and_then (cfg_or (cv_bool V) config ''http2'' True) (\<lambda>http2.
     and_then (cfg_or (cv_bool V) config ''log_requests'' False) (\<lambda>log_requests.
     and_then (cfg_or (cv_string V) config ''mode'' ''threaded'') (\<lambda>mode.
     and_then (cfg_or (cv_usize V) config ''workers'' 0) (\<lambda>workers.
     and_then (cfg_or (cv_usize V) config ''max_workers'' workers) (\<lambda>max_workers.
     and_then (cfg_or (cv_usize V) config ''threads'' 0) (\<lambda>threads.
     and_then (cfg_or (cv_usize V) config ''batch'' 1) (\<lambda>batch.
       Inr \<lparr>sc_bind = bind, sc_port = port, sc_queue_depth = queue_depth,
         sc_queue_timeout_ms = queue_timeout_ms, sc_request_timeout_ms = request_timeout_ms,
         sc_max_body_size = max_body_size, sc_max_connections = max_connections,
         sc_io_shards = io_shards, sc_io_threads = io_threads, sc_tokio_threads = tokio_threads,
         sc_tls_cert = tls_cert, sc_tls_key = tls_key, sc_lanes = lanes, sc_http2 = http2,
         sc_log_requests = log_requests, sc_mode = mode, sc_workers = workers,
         sc_max_workers = max max_workers workers, sc_threads = threads, sc_batch = batch\<rparr>))))))))))))))))))))"

section \<open>TLS\<close>

text \<open>
  Reading a file, the certificates and the key in a PEM text, and whether rustls accepts
  them, each with the text of its error.
\<close>

record pem_libs =
  pl_read :: "string \<Rightarrow> string + bytes"
  pl_certs :: "bytes \<Rightarrow> string + bytes list"
  pl_private_key :: "bytes \<Rightarrow> string + bytes option"
  pl_single_cert :: "bytes list \<Rightarrow> bytes \<Rightarrow> string + unit"

definition pem_bytes :: "pem_libs \<Rightarrow> string \<Rightarrow> string + bytes" where
  "pem_bytes L input =
     (if sublist ''-----BEGIN'' input then Inr input
      else map_err (\<lambda>e. ''cannot read '' @ input @ '': '' @ e) (pl_read L input))"

text \<open>\<open>server_config\<close>, of which the protocols offered in the handshake are kept.\<close>

definition tls_server_config :: "pem_libs \<Rightarrow> string \<Rightarrow> string \<Rightarrow> bool \<Rightarrow> string + string list" where
  "tls_server_config L cert key http2 =
     and_then (pem_bytes L cert) (\<lambda>cert_pem.
     and_then (pem_bytes L key) (\<lambda>key_pem.
     and_then (map_err (\<lambda>e. ''invalid certificate PEM: '' @ e) (pl_certs L cert_pem)) (\<lambda>certs.
     if certs = [] then Inl ''no certificates found in PEM''
     else
       and_then (map_err (\<lambda>e. ''invalid private key PEM: '' @ e) (pl_private_key L key_pem)) (\<lambda>k.
       case k of
         None \<Rightarrow> Inl ''no private key found in PEM''
       | Some k \<Rightarrow>
           and_then (map_err (\<lambda>e. ''TLS config rejected: '' @ e) (pl_single_cert L certs k)) (\<lambda>_.
           Inr (if http2 then [''h2'', ''http/1.1''] else [''http/1.1'']))))))"

text \<open>The acceptor is given by its protocols; \<open>None\<close> is a server without TLS.\<close>

definition boot_acceptor :: "pem_libs \<Rightarrow> server_config \<Rightarrow> kino_error + string list option" where
  "boot_acceptor L c =
     (case (sc_tls_cert c, sc_tls_key c) of
        (Some cert, Some key) \<Rightarrow>
          and_then (map_err (\<lambda>e. RubyError (''TLS: '' @ e)) (tls_server_config L cert key (sc_http2 c)))
            (\<lambda>alpn. Inr (Some alpn))
      | (None, None) \<Rightarrow> Inr None
      | _ \<Rightarrow> Inl (ArgError ''TLS requires both cert and key''))"

section \<open>Binding\<close>

text \<open>
  What is at a path. A connect finds a live listener, or is refused: also by a file that is
  not a socket.
\<close>

datatype path_state = NoFile | StaleSocket | LiveSocket | OtherFile

type_synonym files = "string \<Rightarrow> path_state"

text \<open>
  Errors the system may answer with in place of the usual outcome, and what binding a TCP
  address gives: the port.
\<close>

record os_calls =
  os_connect_err :: "string \<Rightarrow> string option"
  os_remove_err :: "string \<Rightarrow> string option"
  os_bind_err :: "string \<Rightarrow> string option"
  os_nonblocking_err :: "string \<Rightarrow> string option"
  os_tcp_bind :: "string \<Rightarrow> u16 \<Rightarrow> string + u16"
  os_tcp_bind_addr :: "string \<Rightarrow> string + u16"
  os_port_err :: "string option"

definition UNIX_SCHEME :: string where
  "UNIX_SCHEME = ''unix://''"

definition unix_path :: "string \<Rightarrow> string option" where
  "unix_path b = strip_prefix UNIX_SCHEME b"

definition bind_socket :: "os_calls \<Rightarrow> string \<Rightarrow> files \<Rightarrow> files \<times> (string + unit)" where
  "bind_socket OS path fs =
     (case os_bind_err OS path of
        Some e \<Rightarrow> (fs, Inl e)
      | None \<Rightarrow>
          (case os_nonblocking_err OS path of
             Some e \<Rightarrow> (fs(path := StaleSocket), Inl e)
           | None \<Rightarrow> (fs(path := LiveSocket), Inr ())))"

definition bind_unix :: "os_calls \<Rightarrow> string \<Rightarrow> files \<Rightarrow> files \<times> (string + unit)" where
  "bind_unix OS path fs =
     (case os_connect_err OS path of
        Some e \<Rightarrow> (fs, Inl e)
      | None \<Rightarrow>
          (case fs path of
             LiveSocket \<Rightarrow> (fs, Inl ''socket is in use'')
           | NoFile \<Rightarrow> bind_socket OS path fs
           | _ \<Rightarrow> (case os_remove_err OS path of
                    Some e \<Rightarrow> (fs, Inl e)
                  | None \<Rightarrow> bind_socket OS path (fs(path := NoFile)))))"

text \<open>A bound listener: TCP with its port, or a unix socket with its path.\<close>

datatype listener = TcpListener u16 | UnixListener string

definition listener_bind :: "os_calls \<Rightarrow> string \<Rightarrow> u16 \<Rightarrow> files \<Rightarrow> files \<times> (string + listener)" where
  "listener_bind OS b port fs =
     (case unix_path b of
        Some path \<Rightarrow> (case bind_unix OS path fs of (fs', r) \<Rightarrow> (fs', and_then r (\<lambda>_. Inr (UnixListener path))))
      | None \<Rightarrow> (fs, and_then (os_tcp_bind OS b port) (\<lambda>p. Inr (TcpListener p))))"

definition listener_port :: "os_calls \<Rightarrow> listener \<Rightarrow> string + u16" where
  "listener_port OS l =
     (case l of
        TcpListener p \<Rightarrow> (case os_port_err OS of Some e \<Rightarrow> Inl e | None \<Rightarrow> Inr p)
      | UnixListener _ \<Rightarrow> Inr 0)"

definition listener_path :: "listener \<Rightarrow> string option" where
  "listener_path l = (case l of TcpListener _ \<Rightarrow> None | UnixListener path \<Rightarrow> Some path)"

text \<open>Dropping a listener closes the socket and leaves its file behind.\<close>

definition drop_listener :: "listener \<Rightarrow> files \<Rightarrow> files" where
  "drop_listener l fs = (case l of TcpListener _ \<Rightarrow> fs | UnixListener path \<Rightarrow> fs(path := StaleSocket))"

definition bind_control :: "os_calls \<Rightarrow> string \<Rightarrow> files \<Rightarrow> files \<times> (string + listener)" where
  "bind_control OS addr fs =
     (case unix_path addr of
        Some path \<Rightarrow> (case bind_unix OS path fs of (fs', r) \<Rightarrow> (fs', and_then r (\<lambda>_. Inr (UnixListener path))))
      | None \<Rightarrow> (fs, and_then (os_tcp_bind_addr OS addr) (\<lambda>p. Inr (TcpListener p))))"

section \<open>I/O threads\<close>

text \<open>
  What a thread that was spawned reports back: that it is up, an error, after which it is
  joined, or nothing because it is gone.
\<close>

datatype ready = Started io_thread | ReportedError string | NoReport

definition await_ready :: "string \<Rightarrow> ready \<Rightarrow> string + io_thread" where
  "await_ready what rdy =
     (case rdy of
        Started th \<Rightarrow> Inr th
      | ReportedError e \<Rightarrow> Inl e
      | NoReport \<Rightarrow> Inl (what @ '' thread exited during startup''))"

text \<open>
  What the system does to the start of one thread: refuse to spawn it, fail to build its
  runtime or (for the acceptor) to register the listener with it, or let it die early.
\<close>

record thread_env =
  te_spawn_err :: "string option"
  te_runtime_err :: "string option"
  te_register_err :: "string option"
  te_dies :: bool
  te_thread :: io_thread

definition spawn_shard :: "thread_env \<Rightarrow> string + io_thread" where
  "spawn_shard t =
     (case te_spawn_err t of
        Some e \<Rightarrow> Inl e
      | None \<Rightarrow>
          await_ready ''shard''
            (case te_runtime_err t of
               Some e \<Rightarrow> ReportedError e
             | None \<Rightarrow> if te_dies t then NoReport else Started (te_thread t)))"

definition spawn_acceptor :: "thread_env \<Rightarrow> string + io_thread" where
  "spawn_acceptor t =
     (case te_spawn_err t of
        Some e \<Rightarrow> Inl e
      | None \<Rightarrow>
          await_ready ''accept''
            (case te_runtime_err t of
               Some e \<Rightarrow> ReportedError e
             | None \<Rightarrow>
                 (case te_register_err t of
                    Some e \<Rightarrow> ReportedError e
                  | None \<Rightarrow> if te_dies t then NoReport else Started (te_thread t))))"

text \<open>Starting shards \<open>i, i + 1, \<dots>\<close>; a failure also gives the threads that were started, to be joined.\<close>

fun spawn_shards :: "(nat \<Rightarrow> thread_env) \<Rightarrow> nat list \<Rightarrow> io_thread list \<Rightarrow> (string \<times> io_thread list) + io_thread list" where
  "spawn_shards start [] handles = Inr handles"
| "spawn_shards start (i # is) handles =
     (case spawn_shard (start i) of
        Inl e \<Rightarrow> Inl (e, handles)
      | Inr th \<Rightarrow> spawn_shards start is (handles @ [th]))"

definition spawn ::
  "(nat \<Rightarrow> thread_env) \<Rightarrow> thread_env \<Rightarrow> usize \<Rightarrow> (string \<times> io_thread list) + io_thread list" where
  "spawn start acceptor shard_count =
     and_then (spawn_shards start [0..<max (unat shard_count) 1] [])
       (\<lambda>handles. case spawn_acceptor acceptor of
           Inl e \<Rightarrow> Inl (e, handles)
         | Inr th \<Rightarrow> Inr (handles @ [th]))"

section \<open>Starting a server\<close>

text \<open>
  The table of servers, the file system, the control threads by server with the socket file
  each will remove, and the I/O threads that a failed boot has joined.
\<close>

record ctl_handle =
  ctl_unix_path :: "string option"

record 'c boot_state =
  bt_registry :: "'c server_inner registry"
  bt_files :: files
  bt_controls :: "u64 \<rightharpoonup> ctl_handle"
  bt_joined :: "io_thread list"

record ('v, 'c, 'x) boot_libs =
  bl_queue :: "('x, 'c) flume"
  bl_conv :: "'v conversions"
  bl_pem :: pem_libs
  bl_os :: os_calls
  bl_per_ractor_gc :: bool
  bl_available :: "usize option"
  bl_shard :: "nat \<Rightarrow> thread_env"
  bl_accept :: thread_env
  bl_runtime_err :: "string option"
  bl_register_err :: "string option"
  bl_control_err :: "string option"
  bl_rt_shutdown :: "instant \<Rightarrow> duration \<Rightarrow> instant"
  bl_over :: "instant \<Rightarrow> nat"
  bl_now :: instant

definition control_start ::
  "string option \<Rightarrow> listener \<Rightarrow> u64 \<Rightarrow> 'c boot_state \<Rightarrow> 'c boot_state \<times> (string + u16 option)" where
  "control_start spawn_err bnd i S =
     (let port = (case bnd of TcpListener p \<Rightarrow> Some p | UnixListener _ \<Rightarrow> None);
          path = listener_path bnd
      in case spawn_err of
           Some e \<Rightarrow>
             (S\<lparr>bt_files := (case path of None \<Rightarrow> bt_files S | Some p \<Rightarrow> (bt_files S)(p := NoFile))\<rparr>, Inl e)
         | None \<Rightarrow> (S\<lparr>bt_controls := (bt_controls S)(i \<mapsto> \<lparr>ctl_unix_path = path\<rparr>)\<rparr>, Inr port))"

definition control_stop :: "u64 \<Rightarrow> 'c boot_state \<Rightarrow> 'c boot_state" where
  "control_stop i S =
     (case bt_controls S i of
        None \<Rightarrow> S
      | Some h \<Rightarrow>
          S\<lparr>bt_controls := (bt_controls S)(i := None),
            bt_files := (case ctl_unix_path h of None \<Rightarrow> bt_files S | Some p \<Rightarrow> (bt_files S)(p := NoFile))\<rparr>)"

text \<open>The runtime that serves the listener, or the error of the part that failed.\<close>

definition start_runtime :: "('v, 'c, 'x) boot_libs \<Rightarrow> server_config \<Rightarrow> (kino_error \<times> io_thread list) + runtime_handle" where
  "start_runtime L c =
     (if sc_io_shards c then
        (case spawn (bl_shard L) (bl_accept L) (thread_count (bl_available L) (sc_io_threads c)) of
           Inl (e, joined) \<Rightarrow> Inl (io_error ''sharded runtime failed'' e, joined)
         | Inr threads \<Rightarrow> Inr (Shards threads))
      else
        (case bl_runtime_err L of
           Some e \<Rightarrow> Inl (io_error ''tokio runtime failed'' e, [])
         | None \<Rightarrow>
             (case bl_register_err L of
                Some e \<Rightarrow> Inl (io_error ''listener setup failed'' e, [])
              | None \<Rightarrow> Inr MultiThread)))"

definition drop_listeners :: "listener \<Rightarrow> listener option \<Rightarrow> 'c boot_state \<Rightarrow> 'c boot_state" where
  "drop_listeners l ctl S =
     S\<lparr>bt_files := drop_listener l (case ctl of None \<Rightarrow> bt_files S | Some b \<Rightarrow> drop_listener b (bt_files S))\<rparr>"

text \<open>
  Stopping the runtime of a boot that fails late, within a second: the I/O threads joined,
  and whether the listener is closed. It is with the accept thread, the last one, and stays
  open when that thread is wedged and abandoned.
\<close>

definition stop_runtime :: "('v, 'c, 'x) boot_libs \<Rightarrow> runtime_handle \<Rightarrow> bool \<times> io_thread list" where
  "stop_runtime L rt =
     (case rt of
        Shards ths \<Rightarrow>
          let joined = snd (runtime_shutdown (bl_rt_shutdown L) (bl_over L) rt (millis 1000) (bl_now L))
          in (joined = [] \<or> last joined, map fst (filter snd (zip ths joined)))
      | _ \<Rightarrow> (True, []))"

text \<open>From the bound listeners on: the server, its runtime, the control thread, the table.\<close>

definition launch ::
  "('v, 'c, 'x) boot_libs \<Rightarrow> server_config \<Rightarrow> bool \<Rightarrow> listener \<Rightarrow> u16 \<Rightarrow> listener option \<Rightarrow> 'c boot_state
     \<Rightarrow> 'c boot_state \<times> (kino_error + u64 \<times> u16 \<times> u16 option)" where
  "launch L c https l local_port ctl S =
     (case next_server_id (bt_registry S) of
        (g, i) \<Rightarrow>
          let S = S\<lparr>bt_registry := g\<rparr>;
              sv = server_inner_new (bl_queue L) (bl_per_ractor_gc L) c https (listener_path l) i
          in case start_runtime L c of
               Inl (e, joined) \<Rightarrow> (drop_listeners l ctl (S\<lparr>bt_joined := bt_joined S @ joined\<rparr>), Inl e)
             | Inr rt \<Rightarrow>
                 let sv = sv\<lparr>sv_runtime := rt\<rparr>
                 in case ctl of
                      None \<Rightarrow>
                        (S\<lparr>bt_registry := registry_insert sv (bt_registry S)\<rparr>, Inr (i, local_port, None))
                    | Some bnd \<Rightarrow>
                        (case control_start (bl_control_err L) bnd i S of
                           (S, Inl e) \<Rightarrow>
                             (case stop_runtime L rt of
                                (closed, joined) \<Rightarrow>
                                  let S = S\<lparr>bt_joined := bt_joined S @ joined\<rparr>
                                  in (if closed then drop_listeners l None S else S,
                                      Inl (io_error ''control start failed'' e)))
                         | (S, Inr port) \<Rightarrow>
                             (S\<lparr>bt_registry := registry_insert sv (bt_registry S)\<rparr>, Inr (i, local_port, port))))"

text \<open>The control listener, when one is configured.\<close>

definition control_listener ::
  "('v, 'c, 'x) boot_libs \<Rightarrow> 'v config \<Rightarrow> files \<Rightarrow> files \<times> (kino_error + listener option)" where
  "control_listener L config fs =
     (case and_then (cfg_opt (cv_string (bl_conv L)) config ''control_bind'')
            (\<lambda>addr. and_then (cfg_opt (cv_string (bl_conv L)) config ''control_token'') (\<lambda>_. Inr addr)) of
        Inl e \<Rightarrow> (fs, Inl e)
      | Inr None \<Rightarrow> (fs, Inr None)
      | Inr (Some addr) \<Rightarrow>
          (case bind_control (bl_os L) addr fs of
             (fs', Inl e) \<Rightarrow> (fs', Inl (io_error ''control bind failed'' e))
           | (fs', Inr bnd) \<Rightarrow> (fs', Inr (Some bnd))))"

text \<open>With the main listener bound: the checks on it, the control listener, the launch.\<close>

definition boot_bound ::
  "('v, 'c, 'x) boot_libs \<Rightarrow> 'v config \<Rightarrow> server_config \<Rightarrow> bool \<Rightarrow> listener \<Rightarrow> 'c boot_state
     \<Rightarrow> 'c boot_state \<times> (kino_error + u64 \<times> u16 \<times> u16 option)" where
  "boot_bound L config c https l S =
     (if https \<and> listener_path l \<noteq> None then
        (drop_listeners l None S, Inl (ArgError ''TLS is not supported on a unix socket bind''))
      else
        (case listener_port (bl_os L) l of
           Inl e \<Rightarrow> (drop_listeners l None S, Inl (io_error ''listener setup failed'' e))
         | Inr local_port \<Rightarrow>
             (case control_listener L config (bt_files S) of
                (fs, Inl e) \<Rightarrow> (drop_listeners l None (S\<lparr>bt_files := fs\<rparr>), Inl e)
              | (fs, Inr ctl) \<Rightarrow> launch L c https l local_port ctl (S\<lparr>bt_files := fs\<rparr>))))"

definition server_start ::
  "('v, 'c, 'x) boot_libs \<Rightarrow> 'v config \<Rightarrow> 'c boot_state \<Rightarrow> 'c boot_state \<times> (kino_error + u64 \<times> u16 \<times> u16 option)" where
  "server_start L config S =
     (case and_then (read_config (bl_conv L) config)
             (\<lambda>c. and_then (boot_acceptor (bl_pem L) c) (\<lambda>acceptor. Inr (c, acceptor))) of
        Inl e \<Rightarrow> (S, Inl e)
      | Inr (c, acceptor) \<Rightarrow>
          (case listener_bind (bl_os L) (sc_bind c) (sc_port c) (bt_files S) of
             (fs, Inl e) \<Rightarrow> (S\<lparr>bt_files := fs\<rparr>, Inl (io_error ''bind failed'' e))
           | (fs, Inr l) \<Rightarrow> boot_bound L config c (acceptor \<noteq> None) l (S\<lparr>bt_files := fs\<rparr>)))"

section \<open>What binding does to the file system\<close>

text \<open>A listener was bound: its socket is live, at a path where nobody was listening.\<close>

definition bound :: "files \<Rightarrow> listener \<Rightarrow> files \<Rightarrow> bool" where
  "bound fs l fs' =
     (case l of TcpListener _ \<Rightarrow> fs' = fs | UnixListener path \<Rightarrow> fs path \<noteq> LiveSocket \<and> fs' = fs(path := LiveSocket))"

text \<open>The same listeners are live.\<close>

definition same_live :: "files \<Rightarrow> files \<Rightarrow> bool" where
  "same_live fs fs' \<longleftrightarrow> (\<forall>p. fs' p = LiveSocket \<longleftrightarrow> fs p = LiveSocket)"

lemma same_live_refl [simp]: "same_live fs fs"
  by (simp add: same_live_def)

lemma same_liveD: "same_live fs fs' \<Longrightarrow> fs p = LiveSocket \<Longrightarrow> fs' p = LiveSocket"
  by (simp add: same_live_def)

lemma bind_unix_spec:
  assumes "bind_unix OS path fs = (fs', r)"
  shows "case r of Inl _ \<Rightarrow> same_live fs fs' | Inr _ \<Rightarrow> bound fs (UnixListener path) fs'"
  using assms
  by (auto simp: bind_unix_def bind_socket_def bound_def same_live_def split: option.splits path_state.splits)

lemma listener_bind_spec:
  assumes "listener_bind OS b port fs = (fs', r)"
  shows "case r of Inl _ \<Rightarrow> same_live fs fs'
    | Inr l \<Rightarrow> bound fs l fs' \<and> listener_path l = unix_path b"
proof (cases "unix_path b")
  case None
  with assms show ?thesis
    by (auto simp: listener_bind_def and_then_def bound_def listener_path_def split: sum.splits)
next
  case (Some path)
  obtain fs1 r1 where "bind_unix OS path fs = (fs1, r1)" by fastforce
  from bind_unix_spec[OF this] this Some assms show ?thesis
    by (auto simp: listener_bind_def and_then_def listener_path_def split: sum.splits)
qed

lemma bind_control_spec:
  assumes "bind_control OS addr fs = (fs', r)"
  shows "case r of Inl _ \<Rightarrow> same_live fs fs' | Inr l \<Rightarrow> bound fs l fs'"
proof (cases "unix_path addr")
  case None
  with assms show ?thesis by (auto simp: bind_control_def and_then_def bound_def split: sum.splits)
next
  case (Some path)
  obtain fs1 r1 where "bind_unix OS path fs = (fs1, r1)" by fastforce
  from bind_unix_spec[OF this] this Some assms show ?thesis
    by (auto simp: bind_control_def and_then_def split: sum.splits)
qed

lemma bound_drop: "bound fs l fs1 \<Longrightarrow> same_live fs1 fs2 \<Longrightarrow> same_live fs (drop_listener l fs2)"
  by (auto simp: bound_def same_live_def drop_listener_def split: listener.splits)

lemma bound_drop2: "bound fs l fs1 \<Longrightarrow> bound fs1 b fs2 \<Longrightarrow> same_live fs (drop_listener l (drop_listener b fs2))"
  by (rule bound_drop[OF _ bound_drop[OF _ same_live_refl]])

lemma bound_removed: "bound fs1 (UnixListener p) fs2 \<Longrightarrow> same_live fs1 (fs2(p := NoFile))"
  by (auto simp: bound_def same_live_def)

lemma bound_live: "bound fs l fs1 \<Longrightarrow> fs p = LiveSocket \<Longrightarrow> fs1 p = LiveSocket"
  by (auto simp: bound_def split: listener.splits)

lemma bound_path: "bound fs l fs1 \<Longrightarrow> listener_path l = Some path \<Longrightarrow> fs1 path = LiveSocket"
  by (auto simp: bound_def listener_path_def split: listener.splits)

section \<open>What a boot leaves\<close>

text \<open>The exception: the control thread could not be started and the accept thread is wedged.\<close>

definition abandoned :: "('v, 'c, 'x) boot_libs \<Rightarrow> server_config \<Rightarrow> bool" where
  "abandoned L c \<longleftrightarrow> bl_control_err L \<noteq> None
     \<and> (case start_runtime L c of Inl _ \<Rightarrow> False | Inr rt \<Rightarrow> \<not> fst (stop_runtime L rt))"

definition booted :: "('v, 'c, 'x) boot_libs \<Rightarrow> 'c boot_state \<Rightarrow> server_config \<Rightarrow> bool \<Rightarrow> listener
    \<Rightarrow> 'c boot_state \<times> (kino_error + u64 \<times> u16 \<times> u16 option) \<Rightarrow> bool" where
  "booted L S c https l res =
     (case res of
        (S', Inl e) \<Rightarrow>
          rg_servers (bt_registry S') = rg_servers (bt_registry S) \<and> bt_controls S' = bt_controls S
          \<and> (\<forall>p. bt_files S p = LiveSocket \<longrightarrow> bt_files S' p = LiveSocket)
          \<and> (same_live (bt_files S) (bt_files S') \<or> abandoned L c)
      | (S', Inr (i, port, control_port)) \<Rightarrow>
          i = rg_next_id (bt_registry S) \<and> rg_next_id (bt_registry S') = i + 1
          \<and> (\<exists>rt. start_runtime L c = Inr rt \<and>
               rg_servers (bt_registry S') = (rg_servers (bt_registry S))
                 (i \<mapsto> (server_inner_new (bl_queue L) (bl_per_ractor_gc L) c https (listener_path l) i)\<lparr>sv_runtime := rt\<rparr>))
          \<and> (\<forall>p. bt_files S p = LiveSocket \<longrightarrow> bt_files S' p = LiveSocket)
          \<and> (\<forall>path. listener_path l = Some path \<longrightarrow> bt_files S path \<noteq> LiveSocket \<and> bt_files S' path = LiveSocket))"

lemma launch_control_failed:
  assumes "bound (bt_files S) l fs1" "bound fs1 b fs2" "start_runtime L c = Inr rt" "bl_control_err L = Some e"
  shows "booted L S c https l (launch L c https l port (Some b) (S\<lparr>bt_files := fs2\<rparr>))"
proof -
  define fs3 where "fs3 = (case listener_path b of None \<Rightarrow> fs2 | Some p \<Rightarrow> fs2(p := NoFile))"
  have gone: "same_live (bt_files S) (drop_listener l fs3)"
    using bound_drop[OF assms(1)] assms(2) bound_removed unfolding fs3_def
    by (auto simp: listener_path_def bound_def split: listener.splits)
  have kept: "fs3 p = LiveSocket" if "bt_files S p = LiveSocket" for p
    using that bound_live[OF assms(1)] assms(2) bound_removed unfolding fs3_def
    by (fastforce simp: listener_path_def bound_def same_live_def split: listener.splits)
  obtain closed joined where st: "stop_runtime L rt = (closed, joined)" by fastforce
  with assms(3,4) have
    "launch L c https l port (Some b) (S\<lparr>bt_files := fs2\<rparr>) =
      (S\<lparr>bt_files := if closed then drop_listener l fs3 else fs3,
         bt_registry := (bt_registry S)\<lparr>rg_next_id := rg_next_id (bt_registry S) + 1\<rparr>,
         bt_joined := bt_joined S @ joined\<rparr>, Inl (io_error ''control start failed'' e))"
    by (cases "listener_path b")
      (simp_all add: launch_def next_server_id_def Let_def control_start_def drop_listeners_def fs3_def)
  with st assms(3,4) gone kept show ?thesis
    by (auto simp: booted_def abandoned_def dest: same_liveD)
qed

lemma launch_booted:
  assumes "bound (bt_files S) l fs1"
    and "case ctl of None \<Rightarrow> fs2 = fs1 | Some b \<Rightarrow> bound fs1 b fs2"
  shows "booted L S c https l (launch L c https l port ctl (S\<lparr>bt_files := fs2\<rparr>))"
proof (cases "start_runtime L c")
  case (Inl x)
  have "same_live (bt_files S) (drop_listener l (case ctl of None \<Rightarrow> fs2 | Some b \<Rightarrow> drop_listener b fs2))"
    using assms bound_drop[OF assms(1) same_live_refl] bound_drop2[OF assms(1)] by (auto split: option.splits)
  with Inl show ?thesis
    by (cases x) (auto simp: launch_def booted_def next_server_id_def Let_def drop_listeners_def
        dest: same_liveD split: option.splits)
next
  case (Inr rt)
  have live: "fs2 p = LiveSocket" if "bt_files S p = LiveSocket \<or> listener_path l = Some p" for p
    using that assms(2) bound_live[OF assms(1)] bound_path[OF assms(1)]
    by (cases ctl) (auto dest: bound_live)
  have fresh: "bt_files S p \<noteq> LiveSocket" if "listener_path l = Some p" for p
    using that assms(1) by (auto simp: bound_def listener_path_def split: listener.splits)
  show ?thesis
  proof (cases "ctl = None \<or> bl_control_err L = None")
    case True
    with Inr live fresh show ?thesis
      by (cases ctl) (auto simp: launch_def booted_def next_server_id_def Let_def control_start_def
          registry_insert_def server_inner_new_def)
  next
    case False
    with assms Inr launch_control_failed show ?thesis by (cases ctl) auto
  qed
qed

lemma control_listener_spec:
  assumes "control_listener L config fs = (fs', r)"
  shows "case r of Inl _ \<Rightarrow> same_live fs fs' | Inr ctl \<Rightarrow> (case ctl of None \<Rightarrow> fs' = fs | Some b \<Rightarrow> bound fs b fs')"
  using assms bind_control_spec[of "bl_os L" _ fs]
  by (fastforce simp: control_listener_def split: sum.splits option.splits prod.splits)

lemma drop_booted:
  assumes "bound (bt_files S) l fs" "same_live fs fs'"
  shows "booted L S c https l (drop_listeners l None (S\<lparr>bt_files := fs'\<rparr>), Inl e)"
  using bound_drop[OF assms] by (auto simp: booted_def drop_listeners_def dest: same_liveD)

lemma boot_bound_booted:
  assumes "bound (bt_files S) l fs"
  shows "booted L S c https l (boot_bound L config c https l (S\<lparr>bt_files := fs\<rparr>))"
proof -
  obtain fs' r where ctl: "control_listener L config fs = (fs', r)" by fastforce
  show ?thesis
    using control_listener_spec[OF ctl] ctl
    by (auto simp: boot_bound_def intro!: drop_booted[OF assms] launch_booted[OF assms] split: sum.splits)
qed

lemma boot_bound_tls: "boot_bound L config c https l S = (S', Inr x) \<Longrightarrow> https \<Longrightarrow> listener_path l = None"
  by (auto simp: boot_bound_def split: if_splits)

lemma read_config_facts:
  assumes "read_config V config = Inr c"
  shows "config ''bind'' \<noteq> None \<and> config ''port'' \<noteq> None \<and> config ''queue_depth'' \<noteq> None
    \<and> config ''queue_timeout_ms'' \<noteq> None \<and> sc_workers c \<le> sc_max_workers c"
  using assms
  by (auto simp: read_config_def and_then_Inr cfg_def cfg_opt_def split: option.splits)


section \<open>Properties\<close>


text \<open>A plain configuration for a unix socket whose stale file was left behind.\<close>

datatype example_value = ExStr string | ExInt nat

definition example_conv :: "example_value conversions" where
  "example_conv =
     \<lparr>cv_string = (\<lambda>v. case v of ExStr s \<Rightarrow> Inr s | _ \<Rightarrow> Inl (RubyError ''no String'')),
      cv_u16 = (\<lambda>v. case v of ExInt n \<Rightarrow> Inr (of_nat n) | _ \<Rightarrow> Inl (RubyError ''no Integer'')),
      cv_u64 = (\<lambda>v. case v of ExInt n \<Rightarrow> Inr (of_nat n) | _ \<Rightarrow> Inl (RubyError ''no Integer'')),
      cv_usize = (\<lambda>v. case v of ExInt n \<Rightarrow> Inr (of_nat n) | _ \<Rightarrow> Inl (RubyError ''no Integer'')),
      cv_bool = (\<lambda>v. Inr True)\<rparr>"

definition example_os :: os_calls where
  "example_os = \<lparr>os_connect_err = (\<lambda>_. None), os_remove_err = (\<lambda>_. None), os_bind_err = (\<lambda>_. None),
     os_nonblocking_err = (\<lambda>_. None),
     os_tcp_bind = (\<lambda>_ p. Inr p), os_tcp_bind_addr = (\<lambda>_. Inr 1), os_port_err = None\<rparr>"

definition example_thread :: thread_env where
  "example_thread = \<lparr>te_spawn_err = None, te_runtime_err = None, te_register_err = None, te_dies = False,
     te_thread = Some 5\<rparr>"

definition example_boot :: "(example_value, nat list_chan, nat) boot_libs" where
  "example_boot =
     \<lparr>bl_queue = list_flume, bl_conv = example_conv,
      bl_pem = \<lparr>pl_read = (\<lambda>_. Inl ''missing''), pl_certs = (\<lambda>_. Inr []), pl_private_key = (\<lambda>_. Inr None),
        pl_single_cert = (\<lambda>_ _. Inr ())\<rparr>,
      bl_os = example_os, bl_per_ractor_gc = False, bl_available = Some 4, bl_shard = (\<lambda>_. example_thread),
      bl_accept = example_thread, bl_runtime_err = None, bl_register_err = None, bl_control_err = None,
      bl_rt_shutdown = (\<lambda>now _. now), bl_over = (\<lambda>_. 0), bl_now = 0\<rparr>"

definition example_boot_config :: "example_value config" where
  "example_boot_config = [''bind'' \<mapsto> ExStr ''unix:///k'', ''port'' \<mapsto> ExInt 0, ''queue_depth'' \<mapsto> ExInt 8,
     ''queue_timeout_ms'' \<mapsto> ExInt 100, ''workers'' \<mapsto> ExInt 3]"

definition example_boot_state :: "nat list_chan boot_state" where
  "example_boot_state = \<lparr>bt_registry = registry_empty, bt_files = (\<lambda>_. NoFile)(''/k'' := StaleSocket),
     bt_controls = Map.empty, bt_joined = []\<rparr>"

lemmas boot_eval = server_start_def boot_bound_def control_listener_def read_config_def example_boot_def example_boot_config_def example_boot_state_def
  example_conv_def example_os_def cfg_def cfg_or_def cfg_opt_def boot_acceptor_def listener_bind_def unix_path_def
  UNIX_SCHEME_def bind_unix_def bind_socket_def listener_port_def listener_path_def launch_def start_runtime_def
  next_server_id_def registry_empty_def registry_insert_def Let_def


section \<open>Two consequences\<close>

text \<open>
  Binding a \<open>unix://\<close> address removes whatever file is at the path when nobody listens
  there, also one that never was a socket.
\<close>

theorem bind_unix_replaces_any_file:
  "bind_unix example_os path ((\<lambda>_. NoFile)(path := OtherFile)) = ((\<lambda>_. NoFile)(path := LiveSocket), Inr ())"
  by (simp add: bind_unix_def bind_socket_def example_os_def)

text \<open>A boot that fails after its unix socket was bound leaves the socket's file behind.\<close>

theorem failed_boot_leaves_socket_file:
  "\<exists>S' e. server_start (example_boot\<lparr>bl_runtime_err := Some ''no threads''\<rparr>) example_boot_config
      (example_boot_state\<lparr>bt_files := (\<lambda>_. NoFile)\<rparr>) = (S', Inl e) \<and> bt_files S' ''/k'' = StaleSocket"
  by (simp add: boot_eval drop_listeners_def drop_listener_def)

end
