(* ===== verification/Kino_Timer.thy ===== *)
theory Kino_Timer
  imports Kino_Registry Complex_Main
begin

text \<open>
  Clocks: one bounded chunk of sleep (\<open>ext/kino/src/timer.rs\<close>), the process-monotonic
  millisecond clock (\<open>mono.rs\<close>), and the count of usable CPUs (\<open>cpus.rs\<close>). Times and
  durations are in nanoseconds.
\<close>

section \<open>Sleeping\<close>

definition TICK :: duration where
  "TICK = 50 * 1000000"

text \<open>A floating-point argument: infinite or not a number, or the rational it stands for.
  What remains is left as a duration; the code returns its conversion to seconds.\<close>

datatype f64 = NotFinite | Finite rat

text \<open>
  \<open>Duration::from_secs_f64\<close> rounds to the nearest nanosecond, ties to even, and panics
  when the seconds do not fit 64 bits.
\<close>

definition nanos_of :: "rat \<Rightarrow> nat" where
  "nanos_of q =
     (let x = q * 1000000000; f = \<lfloor>x\<rfloor>; r = x - of_int f
      in nat (if r < 1 / 2 \<or> r = 1 / 2 \<and> even f then f else f + 1))"

definition from_secs_f64 :: "rat \<Rightarrow> duration option" where
  "from_secs_f64 q = (if nanos_of q < 2 ^ 64 * 1000000000 then Some (nanos_of q) else None)"

text \<open>
  The sleep itself: until the deadline, unless the flag is up at a check. \<open>over\<close> is what the
  system adds to a sleep that starts at a given time.
\<close>

function sleep_until :: "(instant \<Rightarrow> bool) \<Rightarrow> (instant \<Rightarrow> nat) \<Rightarrow> instant \<Rightarrow> instant \<Rightarrow> instant" where
  "sleep_until interrupted over deadline now =
     (if interrupted now \<or> deadline \<le> now then now
      else sleep_until interrupted over deadline (deadline + over now))"
  by auto
termination
  by (relation "measure (\<lambda>(i, over, deadline, now). deadline - now)") auto

declare sleep_until.simps [simp del]

datatype sleep_result = SleepError kino_error | SleepPanic | SleepRemaining duration instant

definition sleep_chunk ::
  "(instant \<Rightarrow> bool) \<Rightarrow> (instant \<Rightarrow> nat) \<Rightarrow> instant \<Rightarrow> f64 \<Rightarrow> sleep_result" where
  "sleep_chunk interrupted over now seconds =
     (case seconds of
        NotFinite \<Rightarrow> SleepError (ArgError ''sleep duration must be a non-negative number'')
      | Finite q \<Rightarrow>
          if q < 0 then SleepError (ArgError ''sleep duration must be a non-negative number'')
          else case from_secs_f64 q of
                 None \<Rightarrow> SleepPanic
               | Some requested \<Rightarrow>
                   let chunk = min requested TICK;
                       woke = sleep_until interrupted over (now + chunk) now
                   in SleepRemaining (requested - chunk) woke)"

section \<open>The millisecond clock\<close>

text \<open>The epoch is set by the first call.\<close>

definition mono_ms :: "instant option \<Rightarrow> instant \<Rightarrow> instant option \<times> u64" where
  "mono_ms epoch now =
     (let e = (case epoch of None \<Rightarrow> now | Some e \<Rightarrow> e) in (Some e, of_nat ((now - e) div 1000000)))"

section \<open>CPUs\<close>

definition cpu_count :: "usize option \<Rightarrow> usize" where
  "cpu_count available = (case available of None \<Rightarrow> 1 | Some n \<Rightarrow> n)"

section \<open>Facts\<close>

text \<open>
  A chunk ends no earlier than asked for, unless interrupted, and no later than a tick plus
  what the system adds; and what remains has gone down by the chunk, so a caller that loops
  is done after as many calls as there are ticks.
\<close>

lemma sleep_until_bounds:
  assumes "\<And>t. over t \<le> m"
  shows "now \<le> sleep_until interrupted over deadline now
    \<and> sleep_until interrupted over deadline now \<le> max now (deadline + m)
    \<and> ((\<forall>t. \<not> interrupted t) \<longrightarrow> deadline \<le> sleep_until interrupted over deadline now)"
proof (cases "interrupted now \<or> deadline \<le> now")
  case True
  then show ?thesis by (subst (1 2 3) sleep_until.simps) auto
next
  case False
  then have "sleep_until interrupted over deadline now = deadline + over now"
    by (subst sleep_until.simps, simp) (subst sleep_until.simps, simp)
  with False assms[of now] show ?thesis by auto
qed

lemma sleep_chunk_bounds:
  assumes "sleep_chunk interrupted over now seconds = SleepRemaining left woke" "\<And>t. over t \<le> m"
  shows "now \<le> woke \<and> woke \<le> now + TICK + m
    \<and> (\<exists>q requested. seconds = Finite q \<and> from_secs_f64 q = Some requested \<and> left = requested - min requested TICK
        \<and> ((\<forall>t. \<not> interrupted t) \<longrightarrow> now + min requested TICK \<le> woke))"
proof -
  obtain q requested where q: "seconds = Finite q" "from_secs_f64 q = Some requested"
    and l: "left = requested - min requested TICK"
    and w: "woke = sleep_until interrupted over (now + min requested TICK) now"
    using assms(1) by (auto simp: sleep_chunk_def Let_def split: f64.splits if_splits option.splits)
  have b: "now \<le> woke" "woke \<le> max now (now + min requested TICK + m)"
    "(\<forall>t. \<not> interrupted t) \<longrightarrow> now + min requested TICK \<le> woke"
    using sleep_until_bounds[of over m now interrupted "now + min requested TICK", OF assms(2)] by (auto simp: w)
  have "woke \<le> now + TICK + m" using b(2) by linarith
  with b(1,3) q l show ?thesis by blast
qed

lemma mono_ms_monotone:
  assumes "e \<le> s" "s \<le> t" "t < 2 ^ 64"
  shows "snd (mono_ms (Some e) s) \<le> snd (mono_ms (Some e) t)"
proof -
  have d: "(s - e) div 1000000 \<le> (t - e) div 1000000" using assms by (intro div_le_mono) simp
  have "(t - e) div 1000000 < 2 ^ 64" using assms(3) by (meson diff_le_self div_le_dividend le_less_trans)
  with d show ?thesis by (simp add: mono_ms_def word_le_nat_alt)
qed

text \<open>A finite sleep of more seconds than 64 bits hold is not refused but panics.\<close>

theorem sleep_overflow_panics: "sleep_chunk (\<lambda>_. False) (\<lambda>_. 0) 0 (Finite (2 ^ 64)) = SleepPanic"
  by (simp add: sleep_chunk_def from_secs_f64_def nanos_of_def)

end
