(* ===== verification/Spec2Isabelle.thy ===== *)
theory Spec2Isabelle
  imports Kino_System_Take Kino_Boot Kino_Timer
begin

text \<open>
  Kino, a Rack web server whose network side is a Rust extension
  (\<open>ext/kino/src\<close>, built on tokio and hyper) and whose workers are Ruby ractors or threads.
  This development models the extension.

  \<^bold>\<open>The program.\<close> A server is booted by \<open>server_start\<close>, which reads the configuration, binds
  a listener, starts a runtime (tokio's own, or a set of I/O threads with an acceptor that
  shards connections over them), optionally a control thread, and puts the server in a
  process-wide table. An accept loop takes connections, a bounded number at a time, and hyper
  parses them. For each request hyper polls \<open>handle_request\<close>, which builds a request
  context with a responder, enqueues it (in the shared queue, or in the lane of a
  chosen worker) and waits for the head of the response, with deadlines on both. A worker
  calls into the extension to take a request, gets a Rack environment, reads the body that a
  forwarder task feeds, and answers through the request's handle, in one piece or as a stream.
  The supervisor calls the lifecycle natives to drain, abort, retire, quarantine and shut
  down. Several parties may answer the same request (the worker, a timeout, an abort, the drop
  of the handle): the responder admits the first only. Strings that native code holds are kept
  alive in slabs of GC roots.

  \<^bold>\<open>Theories\<close>, in the order of their imports:

  \<^item> \<open>Kino_Prelude\<close>: machine integers, the fragments of the Rust standard library the crate
    calls, reachable states and the invariant rule (locale \<open>invariant_system\<close>).
  \<^item> \<open>Kino_Channel\<close>: the libraries flume and tokio's oneshot, as records of operations with
    their documented laws (locales \<open>flume_channel\<close>, \<open>oneshot_channel\<close>).
  \<^item> \<open>Kino_Http\<close>: responses, and the header map of the http crate (locale \<open>header_map\<close>).
  \<^item> \<open>Kino_Responder\<close> (\<open>response.rs\<close>): the responder and its operations; any sequence of them
    refines the rule that the first answer wins, also when answers, streaming heads and aborts race.
  \<^item> \<open>Kino_Pin\<close> (\<open>pin.rs\<close>): the slab of GC roots and its lock-free insert and release; the
    zero-copy bodies. The contract \<open>root_slab\<close> is what both clients of a slab rely on.
  \<^item> \<open>Kino_Registry\<close> (\<open>registry.rs\<close>): histogram, worker slots, the state of a server, the
    bounded shutdown of I/O threads, the table of servers (contract \<open>keyed_table\<close>).
  \<^item> \<open>Kino_Dispatch\<close> (\<open>try_dispatch\<close>, \<open>dispatch_to_lane\<close> in \<open>server.rs\<close>): the choice of a lane,
    its specification, the retry loop and its deadline, the race with retirement.
  \<^item> \<open>Kino_Request\<close> (\<open>request.rs\<close>, \<open>gvl.rs\<close>, the body forwarder of \<open>server.rs\<close>): the handle a
    worker has, blocking calls and their interruption, the response head.
  \<^item> \<open>Kino_Env_Cache\<close>, \<open>Kino_Env\<close> (\<open>env_strings.rs\<close>, \<open>build_env\<close> in \<open>request.rs\<close>): the string
    caches under interference of other ractors (locales \<open>lru_cache\<close>, \<open>str_cache\<close>,
    \<open>env_caches\<close>), and the Rack environment, equal to one built without caches.
  \<^item> \<open>Kino_Queue\<close> (\<open>queue.rs\<close>): taking, stealing, parking, admission, batches.
  \<^item> \<open>Kino_Take\<close> (\<open>block_take\<close> and \<open>lane_take\<close> in \<open>queue.rs\<close>): a take at the grain of its atomic
    actions, of which the blocking functions of \<open>Kino_Queue\<close> are runs; why it ends.
  \<^item> \<open>Kino_Json\<close>, \<open>Kino_Control\<close> (\<open>control.rs\<close>): the snapshot, its rendering as JSON (with a
    reader as specification) and as Prometheus text, the routes and the token.
  \<^item> \<open>Kino_Lifecycle\<close> (\<open>server.rs\<close>, from \<open>register_worker\<close> on): the natives of the supervisor, on
    the table of servers and the responders alive (locale \<open>world_channels\<close>).
  \<^item> \<open>Kino_Logging\<close> (\<open>style.rs\<close>, \<open>log.rs\<close>, \<open>logsink.rs\<close>, \<open>access_log.rs\<close>): what is
    written, and the sink with its flusher thread (locale \<open>sink_channel\<close>).
  \<^item> \<open>Kino_Intake\<close> (\<open>handle_request\<close> in \<open>server.rs\<close>): the handler as a future that is polled or
    dropped at its awaits, among arbitrary steps of the others (locale \<open>intake_channels\<close>).
  \<^item> \<open>Kino_System\<close>: intake, queues, lanes and workers put together, the steps of each being the
    operations of the theories above; who owns a request, and that every run of the
    whole is a run of the intake's model.
  \<^item> \<open>Kino_System_Steps\<close>: progress of the composed system (a client is answered, the whole
    system can be drained), and the natives of the supervisor as runs of it.
  \<^item> \<open>Kino_System_Take\<close>: the take of \<open>Kino_Take\<close> as a run of the composed system.
  \<^item> \<open>Kino_Accept\<close> (\<open>server.rs\<close>, \<open>io_shards.rs\<close>, \<open>control.rs\<close>): the three accept loops and the
    set-up of a connection.
  \<^item> \<open>Kino_Boot\<close> (\<open>server_start\<close> in \<open>server.rs\<close>, \<open>listen.rs\<close>, \<open>tls.rs\<close>, \<open>io_shards.rs\<close>,
    \<open>control.rs\<close>): boot on every path, errors included.
  \<^item> \<open>Kino_Timer\<close> (\<open>timer.rs\<close>, \<open>mono.rs\<close>, \<open>cpus.rs\<close>): the bounded sleep and the clocks.

  This theory holds the properties of the composed system: one owner for each request,
  every waiting client is reached, natives and takes are runs of the system.

  \<^bold>\<open>State.\<close> A Rust struct is a record with the same fields; atomics and locked fields are
  plain fields of it, and where the order of atomic actions matters (the responder's claim,
  the slab, a lane and its retirement) the actions are the steps of a relation. A shared
  \<open>Arc\<close> or \<open>Weak\<close> of a responder is its number in a store. Machine integers keep their
  width; times and durations are nanoseconds.

  \<^bold>\<open>Interference.\<close> A call that blocks is a loop of bounded waits. What the rest of the system
  does before and during each wait is an argument of the definition, and theorems hold for
  all of it, or for what they name. The number of waits is an argument too: the result is
  \<open>None\<close> while the call is still blocked, and the liveness theorems say how many waits are
  enough (one more than the wait in which the awaited event happens). Draining a lane is
  bounded by the number of items in it, which suffices because its sender is dropped first.
  The other loops terminate by a measure, with no fuel. The others act
  at the head of each turn of such a loop and during its wait; \<open>Kino_Take\<close> lets them act
  between any two atomic actions of a take. In the composed system a step is one
  operation on one queue, responder or future, and anything the others do to the
  flags, counters and idle lanes of a server is a step too (\<open>frame\<close>).

  \<^bold>\<open>Parameters.\<close> Code that is not in the repository is an argument: flume, oneshot, the
  header map and the lru crate as records with laws (reference instances show the laws can be
  met and let the witnesses evaluate), the Ruby VM's strings and conversions, PEM and rustls,
  the answers of the operating system, hyper's parsing, jiff's time stamp and the
  rendering of floating-point numbers.

  \<^bold>\<open>What the theorems show.\<close> Each client gets exactly one answer, the first one decided, and
  for the reason its status stands for; counters are exact in every reachable state; a
  request has at most one owner, and exactly one while its client waits, through intake,
  lanes, stealing, retirement, abort and drain;
  deadlines hold and blocked calls can be interrupted; GC roots are exactly the strings in
  use; caches do not change what is computed; bodies arrive whole and in order; what the
  control plane prints reads back; boot takes effect as a whole or not at all.

  \<^bold>\<open>Not modelled.\<close> The HTTP protocol itself (hyper) and TLS (rustls); \<open>without_gvl\<close> in
  \<open>gvl.rs\<close>, which is the Ruby C API; the definition of the Ruby module in \<open>lib.rs\<close>;
  conversions to floating-point (\<open>sum_seconds\<close>, the result of \<open>sleep_chunk\<close>); the fixtures of
  \<open>test_support.rs\<close> and the unit tests; and the Ruby half under \<open>lib/\<close>. The composed system
  covers a server while it serves: boot and the teardown by \<open>shutdown_runtime\<close> are in
  \<open>Kino_Boot\<close> and \<open>Kino_Lifecycle\<close>.
\<close>

section \<open>A concrete system\<close>

text \<open>A server with the reference channels to which one request has come.\<close>

definition example_system :: "(header_list, bytes list_chan, (header_list, bytes list_chan) request_ctx list_chan,
    header_list response cell, frame_result list_chan, string list_chan) system" where
  "example_system =
     \<lparr>sy_intake = intake_arrive example_intake_libs 0 0 example_addr example_addr (example_get []) example_intake,
      sy_held = []\<rparr>"

definition example_native_libs :: "(header_list, header_list response cell, frame_result list_chan, bytes list_chan,
    (header_list, bytes list_chan) request_ctx list_chan) native_libs" where
  "example_native_libs = \<lparr>nl_headers = list_headers, nl_oneshot = cell_oneshot, nl_frames = list_flume,
     nl_requests = list_flume, nl_rt_shutdown = (\<lambda>now _. now), nl_over = (\<lambda>_. 0)\<rparr>"

definition example_system_world :: "((header_list, bytes list_chan) request_ctx list_chan, header_list response cell,
    frame_result list_chan) world" where
  "example_system_world =
     \<lparr>wd_registry = registry_insert (sy_server example_system) registry_empty,
      wd_responders = ik_responders (sy_intake example_system), wd_sockets = {}\<rparr>"

abbreviation example_start :: "(header_list, bytes list_chan, (header_list, bytes list_chan) request_ctx list_chan,
    header_list response cell, frame_result list_chan, string list_chan) system \<Rightarrow> bool" where
  "example_start \<equiv> system_start lc_items lc_cap lc_senders lc_alive"

abbreviation example_step :: "(header_list, bytes list_chan, (header_list, bytes list_chan) request_ctx list_chan,
    header_list response cell, frame_result list_chan, string list_chan) system
    \<Rightarrow> (header_list, bytes list_chan, (header_list, bytes list_chan) request_ctx list_chan,
    header_list response cell, frame_result list_chan, string list_chan) system \<Rightarrow> bool" where
  "example_step \<equiv> system_step example_intake_libs lc_items lc_cap lc_senders lc_alive"

lemma example_system_reach: "reach example_start example_step example_system"
proof -
  let ?S = "\<lparr>sy_intake = example_intake, sy_held = []\<rparr>"
  have "example_start ?S"
    by (simp add: system_start_def intake_start_def example_intake_def server_inner_new_def list_flume_def
        example_config_def waiting_def wf_slots_def currents_def)
  then have r: "reach example_start example_step ?S" by (rule reach_init)
  have "ik_reqs (sy_intake ?S) 0 = None" by (simp add: example_intake_def)
  from reach_step[OF r sy_arrive[OF this, where now = 0 and remote_addr = example_addr and local_addr = example_addr
        and rq = "example_get []"]]
  show ?thesis by (simp add: example_system_def)
qed

lemma example_system_waits:
  "ik_reqs (sy_intake example_system) 0 = Some (Awaiting None (AtHead (Some 5000000)))"
  "ik_responders (sy_intake example_system) 0 = Some (responder_new cell_oneshot)"
  using example_one by (auto simp: example_system_def)

section \<open>Properties of the whole\<close>

text \<open>
  C1: no request is lost and none is handled twice. In every state the data plane can reach,
  by arrivals, polls, hang-ups, takes from the shared queue and the lanes, admissions,
  answers, dropped handles, aborts and the other natives in any order, at most one party
  has a request: its own handler, a queue, or a worker. While its client waits for
  a head that is not out, exactly one queue or worker has it. And such a state is one of the
  intake's model, so what is shown there of counters and answers holds in it.
\<close>

theorem request_has_one_owner:
  assumes "intake_channels L view listening gitems gcap gsenders galive items cap senders alive"
    and "reach (system_start items cap senders alive) (system_step L items cap senders alive) S"
  shows "owners items k S + of_bool (in_hand (ik_reqs (sy_intake S) k)) \<le> 1
    \<and> (ik_reqs (sy_intake S) k = None \<longrightarrow> owners items k S = 0)
    \<and> (\<forall>meta dl r. ik_reqs (sy_intake S) k = Some (Awaiting meta (AtHead dl))
         \<longrightarrow> ik_responders (sy_intake S) k = Some r \<longrightarrow> view (rp_head r) = Pending \<longrightarrow> owners items k S = 1)
    \<and> reach (intake_start cap senders) (intake_step L cap senders) (sy_intake S)"
proof -
  have "owned view (owners items k S) (ik_responders (sy_intake S) k) (ik_reqs (sy_intake S) k)"
    using intake_channels.system_reach[OF assms] by (simp add: system_inv_def)
  with intake_channels.system_refines[OF assms] show ?thesis by (auto simp: owned_def at_head_def)
qed

theorem request_has_one_owner_witness: "owners lc_items 0 example_system = 1"
  using request_has_one_owner[OF ref_intake.intake_channels_axioms example_system_reach, of 0] example_system_waits
  by (simp add: responder_new_def cell_oneshot_def)



text \<open>
  C3: what the supervisor does is among the steps of the system. From any state the system
  can reach, a native that finds the server in the table, returning, raising or blocked,
  leaves the server and the responders as some run of the system does: so registering,
  draining, retiring, quarantining, resetting and aborting keep every request
  with its one owner. Only the final teardown, which takes the server itself away, is not.
\<close>

theorem natives_are_system_steps:
  assumes "intake_channels L view listening gitems gcap gsenders galive items cap senders alive"
    and "reach (system_start items cap senders alive) (system_step L items cap senders alive) S"
    and "sees i S W" "same_libs L N" "\<And>ms. op \<noteq> ShutdownRuntime ms"
    and "op = RegisterWorker \<Longrightarrow> length (sv_slots (sy_server S)) + 1 < 2 ^ 64"
  shows "\<exists>S'. (system_step L items cap senders alive)\<^sup>*\<^sup>* S S'
    \<and> sees i S' (fst (outcome_state (run_native N now op i W)))"
  by (rule intake_channels.native_steps[OF assms(1) intake_channels.system_reach[OF assms(1,2)] assms(3-6)])

theorem natives_are_system_steps_witness:
  "\<exists>S'. example_step\<^sup>*\<^sup>* example_system S'
    \<and> sees 1 S' (fst (outcome_state (run_native example_native_libs 0 CloseQueue 1 example_system_world)))"
proof -
  have id: "sv_id (sy_server example_system) = 1"
    using example_one by (auto simp: example_system_def example_intake_def server_inner_new_def)
  have s: "sees 1 example_system example_system_world"
    by (simp add: sees_def example_system_world_def id servers.look_ins)
  have l: "same_libs example_intake_libs example_native_libs"
    by (simp add: same_libs_def example_intake_libs_def example_native_libs_def)
  show ?thesis
    by (rule natives_are_system_steps[OF ref_intake.intake_channels_axioms example_system_reach s l]) simp_all
qed

text \<open>
  C8: a worker's take fits into the whole at any grain. However its actions (each receive
  attempt on its own queue and on the siblings' lanes, each load and store of a flag, the
  drawing of its stamp) interleave with steps of the system, the state is at every point one
  the system reaches, so that every other property holds in the middle of a take; and a
  request the take has got is with that worker and nobody else until it is brought back.
\<close>

theorem take_in_system:
  assumes "intake_channels L view listening gitems gcap gsenders galive items cap senders alive"
    and "reach (system_start items cap senders alive) (system_step L items cap senders alive) S"
    and "(system_take L items cap senders alive w lane)\<^sup>*\<^sup>* (TkStart, S) (pc, S')"
  shows "(system_step L items cap senders alive)\<^sup>*\<^sup>* S S'
    \<and> (\<forall>ctx \<in> set (carried pc). ctx \<in> set (sy_held S') \<and> owners items (cx_responder ctx) S' = 1
        \<and> ctx \<notin># waiting items (sy_server S'))"
  by (rule intake_channels.take_alone[OF assms(1,3) intake_channels.system_reach[OF assms(1,2)]])

text \<open>A worker comes up and takes the request that waits.\<close>

definition example_served :: "(header_list, bytes list_chan, (header_list, bytes list_chan) request_ctx list_chan,
    header_list response cell, frame_result list_chan, string list_chan) system" where
  "example_served = put_sys (fst (server_register_worker list_flume (sy_server example_system))) [] example_system"

lemma example_served_reach: "reach example_start example_step example_served"
proof -
  have "wf_slots lc_cap lc_senders lc_alive (sy_server example_system)"
    using ref_intake.system_reach[OF example_system_reach] by (simp add: system_inv_def)
  moreover have "sv_slots (sy_server example_system) = []"
    using example_one by (auto simp: example_system_def example_intake_def server_inner_new_def)
  ultimately have "frame lc_items lc_cap lc_senders lc_alive (sy_server example_system)
      (fst (server_register_worker list_flume (sy_server example_system)))"
    using ref_intake.frame_register[of "sy_server example_system"] by (simp add: example_intake_libs_def)
  from reach_step[OF example_system_reach sy_frame[OF this]] show ?thesis
    by (simp add: example_served_def example_system_def)
qed

theorem take_in_system_witness:
  "\<exists>ctx S'. (system_take example_intake_libs lc_items lc_cap lc_senders lc_alive 0 False)\<^sup>*\<^sup>*
      (TkStart, example_served) (TkDone (Inr (Some ctx)), S')
    \<and> sy_held S' = [ctx] \<and> owners lc_items (cx_responder ctx) S' = 1"
proof -
  obtain ctx where q: "lc_items (sv_req (sy_server example_served)) = [ctx]"
    using example_one by (auto simp: example_served_def example_system_def server_register_worker_def Let_def)
  let ?sv = "fst (req_recv list_flume (sy_server example_served))"
  let ?S = "put_sys ?sv [ctx] example_served"
  have "take_step (il_queue example_intake_libs) 0 False (TkStart, sy_server example_served) (TkDone (Inr (Some ctx)), ?sv)"
    using q by (intro start_got) (simp add: own_recv_def req_recv_def list_flume_def example_intake_libs_def)
  moreover have "0 < length (sv_slots (sy_server example_served))"
    by (simp add: example_served_def server_register_worker_def Let_def)
  ultimately have "system_take example_intake_libs lc_items lc_cap lc_senders lc_alive 0 False
      (TkStart, example_served) (TkDone (Inr (Some ctx)), ?S)"
    using take_worker[of 0 example_served example_intake_libs False TkStart "TkDone (Inr (Some ctx))" ?sv]
    by (simp add: example_served_def)
  then have run: "(system_take example_intake_libs lc_items lc_cap lc_senders lc_alive 0 False)\<^sup>*\<^sup>*
      (TkStart, example_served) (TkDone (Inr (Some ctx)), ?S)" by blast
  from take_in_system[OF ref_intake.intake_channels_axioms example_served_reach run] run show ?thesis
    by (intro exI[of _ ctx] exI[of _ ?S]) simp
qed

end
